(* ===== verification/Prelude.thy ===== *)
theory Prelude
  imports Main "HOL-Library.Word" "HOL-Library.AList" "HOL-Library.List_Lexorder"
begin

text \<open>
  What the components share: the names of Go's integer and byte types, failures as values,
  Go maps as association lists (their order is the iteration order), the little-endian
  codecs of the package \<open>encoding/binary\<close>, and the generic lemmas on lists, maps and words.
\<close>

unbundle bit_operations_syntax

section \<open>Go's machine types\<close>

type_synonym u8 = "8 word"
type_synonym u16 = "16 word"
type_synonym u32 = "32 word"
type_synonym u64 = "64 word"
type_synonym bytes = "u8 list"

section \<open>Failures\<close>

text \<open>
  A function of the source that may fail returns a sum. \<open>Panic\<close> is a run-time panic,
  \<open>Fatal\<close> a call of \<open>log.Fatal\<close> (the process exits), \<open>Err\<close> a returned error value.
\<close>

datatype failure = Panic string | Fatal string | Err string

type_synonym 'a res = "failure + 'a"

definition bindE :: "'a res \<Rightarrow> ('a \<Rightarrow> 'b res) \<Rightarrow> 'b res" where
  "bindE m f = (case m of Inl e \<Rightarrow> Inl e | Inr x \<Rightarrow> f x)"

named_theorems go_res \<open>laws of fallible computations\<close>
named_theorems go_map \<open>lookup laws of Go maps\<close>
named_theorems codec \<open>round trips of encoders and decoders\<close>

lemma bindE_Inr [simp, go_res]: "bindE (Inr x) f = f x"
  by (simp add: bindE_def)

lemma bindE_Inl [simp, go_res]: "bindE (Inl e) f = Inl e"
  by (simp add: bindE_def)

lemma bindE_eq_Inr [go_res]: "bindE m f = Inr y \<longleftrightarrow> (\<exists>x. m = Inr x \<and> f x = Inr y)"
  by (cases m) auto

lemma bindE_InrE:
  assumes "bindE m f = Inr y" obtains x where "m = Inr x" "f x = Inr y"
  using assms by (auto simp: bindE_eq_Inr)

lemma pair_caseE:
  assumes "(case p of (x, y) \<Rightarrow> f x y) = z" obtains x y where "p = (x, y)" "f x y = z"
  using assms by (cases p) simp

text \<open>A guard that returns an error.\<close>

lemma guard_InrE:
  assumes "(if \<not> b then Inl e else m) = Inr y" obtains "b" "m = Inr y"
  using assms by (simp split: if_splits)

lemma bindE_eq_Inl [go_res]:
  "bindE m f = Inl e \<longleftrightarrow> m = Inl e \<or> (\<exists>x. m = Inr x \<and> f x = Inl e)"
  by (cases m) auto

lemma bindE_cong [fundef_cong]:
  assumes "m = m'" and "\<And>x. m' = Inr x \<Longrightarrow> f x = g x"
  shows "bindE m f = bindE m' g"
  using assms by (cases m') auto

text \<open>A loop whose body updates a state and may fail, and the invariants of such loops.\<close>

fun foldE :: "('i \<Rightarrow> 'g \<Rightarrow> 'g res) \<Rightarrow> 'i list \<Rightarrow> 'g \<Rightarrow> 'g res" where
  "foldE step [] g = Inr g"
| "foldE step (x # xs) g = bindE (step x g) (foldE step xs)"

locale loop_invariant =
  fixes step :: "'i \<Rightarrow> 'g \<Rightarrow> 'g res"
    and ok :: "'i \<Rightarrow> bool"
    and inv :: "'g \<Rightarrow> bool"
  assumes step_inv: "inv g \<Longrightarrow> ok x \<Longrightarrow> step x g = Inr g' \<Longrightarrow> inv g'"
begin

lemma foldE_inv: "inv g \<Longrightarrow> \<forall>x\<in>set xs. ok x \<Longrightarrow> foldE step xs g = Inr g' \<Longrightarrow> inv g'"
  by (induction xs arbitrary: g) (auto simp: bindE_eq_Inr dest: step_inv)

lemma foldE_failure:
  assumes "inv g" and "\<forall>x\<in>set xs. ok x" and "foldE step xs g = Inl e"
  shows "\<exists>g' x. inv g' \<and> x \<in> set xs \<and> step x g' = Inl e"
  using assms
proof (induction xs arbitrary: g)
  case (Cons x xs)
  show ?case
  proof (cases "step x g")
    case (Inl e')
    with Cons.prems show ?thesis by auto
  next
    case (Inr g1)
    with Cons.prems Cons.IH [of g1] show ?thesis by (auto dest: step_inv)
  qed
qed simp

end

lemma foldE_append: "foldE step (xs @ ys) g = bindE (foldE step xs g) (foldE step ys)"
  by (induction xs arbitrary: g) (auto simp: bindE_def split: sum.splits)

section \<open>Go maps\<close>

text \<open>
  A map that is never nil is an association list, read with \<open>map_of\<close> and written with
  \<open>AList.update\<close> and \<open>AList.delete\<close>. A map the code compares with \<open>nil\<close> is an option of one.
\<close>

type_synonym ('k, 'v) gmap = "('k \<times> 'v) list"

definition nget :: "('k, 'v) gmap option \<Rightarrow> 'k \<Rightarrow> 'v option" where
  "nget m k = (case m of None \<Rightarrow> None | Some al \<Rightarrow> map_of al k)"

text \<open>The idiom \<open>if m == nil { m = map{k: v} } else { m[k] = v }\<close>.\<close>

definition nput :: "'k \<Rightarrow> 'v \<Rightarrow> ('k, 'v) gmap option \<Rightarrow> ('k, 'v) gmap option" where
  "nput k v m = (case m of None \<Rightarrow> Some [(k, v)] | Some al \<Rightarrow> Some (AList.update k v al))"

lemma nget_None [simp]: "nget None k = None"
  by (simp add: nget_def)

lemma nget_Some [simp]: "nget (Some al) k = map_of al k"
  by (simp add: nget_def)

lemma nget_nput [simp, go_map]: "nget (nput k v m) k' = (if k' = k then Some v else nget m k')"
  by (cases m) (auto simp: nget_def nput_def update_conv')

lemma nput_not_nil [simp]: "nput k v m \<noteq> None"
  by (cases m) (auto simp: nput_def)

lemma map_of_gput [simp, go_map]:
  "map_of (AList.update k v al) k' = (if k' = k then Some v else map_of al k')"
  by (simp add: update_conv')

lemma map_of_gdel [simp, go_map]:
  "map_of (AList.delete k al) k' = (if k' = k then None else map_of al k')"
  by (simp add: delete_conv')

lemma map_of_filter_key [go_map]:
  "map_of (filter (\<lambda>(k, v). P k) al) k' = (if P k' then map_of al k' else None)"
  by (induction al) auto

lemma distinct_fst_filter: "distinct (map fst al) \<Longrightarrow> distinct (map fst (filter P al))"
  by (induction al) auto

lemma length_delete_member:
  assumes "distinct (map fst al)" and "map_of al k \<noteq> None"
  shows "Suc (length (AList.delete k al)) = length al"
  using assms
proof (induction al)
  case (Cons p al)
  show ?case
  proof (cases "fst p = k")
    case True
    with Cons.prems have "k \<notin> fst ` set al" by auto
    with True show ?thesis by (cases p) (simp add: delete_id)
  next
    case False
    with Cons show ?thesis by (cases p) auto
  qed
qed simp

lemma length_delete_less: "map_of al k \<noteq> None \<Longrightarrow> length (AList.delete k al) < length al"
proof (induction al)
  case (Cons p al)
  have "length (AList.delete k al) \<le> length al" by (rule length_delete_le)
  with Cons show ?case by (cases p) auto
qed simp

section \<open>Lists in lexicographic order, words as naturals\<close>

lemma less_append_same_length:
  fixes xs ys :: "'a::linorder list"
  assumes "length xs = length ys"
  shows "xs @ us < ys @ vs \<longleftrightarrow> xs < ys \<or> xs = ys \<and> us < vs"
  using assms by (induction xs ys rule: list_induct2) auto

lemma nat_less_div_mod:
  fixes a b m :: nat
  assumes "0 < m"
  shows "a < b \<longleftrightarrow> a div m < b div m \<or> a div m = b div m \<and> a mod m < b mod m"
proof (cases "a div m" "b div m" rule: linorder_cases)
  case less
  then have "a < b" by (meson div_le_mono leD leI)
  with less show ?thesis by simp
next
  case equal
  have "a = m * (b div m) + a mod m" "b = m * (b div m) + b mod m"
    using equal mult_div_mod_eq [of m a] mult_div_mod_eq [of m b] by simp_all
  then have "a < b \<longleftrightarrow> a mod m < b mod m" by linarith
  with equal show ?thesis by simp
next
  case greater
  then have "b < a" by (meson div_le_mono leD leI)
  with greater show ?thesis by simp
qed

lemma nat_div_mod_eq_iff: "a mod m = b mod m \<and> a div m = b div m \<longleftrightarrow> a = b" for a b m :: nat
proof
  assume eq: "a mod m = b mod m \<and> a div m = b div m"
  have "a = a div m * m + a mod m" by (rule div_mult_mod_eq [symmetric])
  also have "\<dots> = b div m * m + b mod m" using eq by simp
  also have "\<dots> = b" by (rule div_mult_mod_eq)
  finally show "a = b" .
qed simp

lemma less_round_up:
  fixes m n :: nat
  assumes "0 < m"
  shows "n < m * ((n + (m - 1)) div m) \<longleftrightarrow> n mod m \<noteq> 0"
proof -
  have "n + (m - 1) = m * (n div m) + (n mod m + (m - 1))" by simp
  then have "(n + (m - 1)) div m = n div m + (n mod m + (m - 1)) div m"
    using assms by (simp only: div_mult_self4)
  moreover have "(n mod m + (m - 1)) div m = (if n mod m = 0 then 0 else 1)"
  proof (cases "n mod m = 0")
    case False
    have "n mod m < m" using assms by simp
    then obtain r where r: "n mod m = Suc r" "r < m" using False by (cases "n mod m") auto
    then have "n mod m + (m - 1) = m + r" using assms by simp
    then have "(n mod m + (m - 1)) div m = (m + r) div m" by (rule arg_cong)
    also have "\<dots> = 1" using r assms by (simp add: div_add_self1)
    finally show ?thesis using False by simp
  qed (use assms in simp)
  ultimately have up: "m * ((n + (m - 1)) div m) = m * (n div m) + (if n mod m = 0 then 0 else m)"
    by (simp add: distrib_left)
  have n: "m * (n div m) + n mod m = n" by (rule mult_div_mod_eq)
  have "n mod m < m" using assms by simp
  show ?thesis
  proof (cases "n mod m = 0")
    case True
    have "m * ((n + (m - 1)) div m) = n" using up [unfolded if_P [OF True]] n True by linarith
    then show ?thesis by (simp only: True less_irrefl simp_thms)
  next
    case False
    have "n < m * ((n + (m - 1)) div m)"
      using up [unfolded if_not_P [OF False]] n \<open>n mod m < m\<close> by linarith
    then show ?thesis using False by (simp only: simp_thms)
  qed
qed

lemma unat_ucast_u8: "unat w < 256 \<Longrightarrow> unat (ucast w :: u8) = unat w"
  by (simp add: unsigned_ucast_eq take_bit_eq_mod)

lemma unat_ucast_u64 [simp]: "unat (ucast (b :: u8) :: u64) = unat b"
proof -
  have "unat b < 2 ^ LENGTH(8)" by (rule unsigned_less)
  then have "unat b < 2 ^ 64" by simp
  then show ?thesis by (simp add: unsigned_ucast_eq take_bit_nat_eq_self)
qed

lemma unat_small_add:
  fixes a b :: "'a::len word"
  assumes "unat a + unat b < 2 ^ LENGTH('a)"
  shows "unat (a + b) = unat a + unat b"
  using assms by (simp add: unat_word_ariths)

lemma unat_incr:
  fixes a b :: "'a::len word"
  assumes "a < b"
  shows "unat (a + 1) = Suc (unat a)"
proof -
  have "unat a < unat b" using assms by (simp add: word_less_nat_alt)
  moreover have "unat b < 2 ^ LENGTH('a)" by (rule unsigned_less)
  moreover have "unat (1 :: 'a word) = 1" by simp
  ultimately have "unat a + unat (1 :: 'a word) < 2 ^ LENGTH('a)" by linarith
  from unat_small_add [OF this] show ?thesis by simp
qed

section \<open>Little-endian integers\<close>

fun le_put :: "nat \<Rightarrow> 'a::len word \<Rightarrow> bytes" where
  "le_put 0 w = []"
| "le_put (Suc n) w = ucast w # le_put n (drop_bit 8 w)"

fun le_get :: "bytes \<Rightarrow> 'a::len word" where
  "le_get [] = 0"
| "le_get (b # bs) = ucast b OR push_bit 8 (le_get bs)"

lemma length_le_put [simp]: "length (le_put n w) = n"
  by (induction n arbitrary: w) auto

lemma le_get_put_take_bit: "le_get (le_put n w) = take_bit (8 * n) w"
proof (induction n arbitrary: w)
  case (Suc n)
  show ?case
    by (rule bit_word_eqI)
      (auto simp: Suc.IH bit_or_iff bit_push_bit_iff bit_take_bit_iff bit_drop_bit_eq
        bit_unsigned_iff bit_ucast_iff not_less add.commute)
qed simp

lemma le_get_put [simp, codec]:
  assumes "LENGTH('a::len) \<le> 8 * n"
  shows "le_get (le_put n w) = (w :: 'a word)"
proof -
  have "take_bit (8 * n) w = w"
    by (rule bit_word_eqI) (use assms in \<open>auto simp: bit_take_bit_iff\<close>)
  then show ?thesis by (simp add: le_get_put_take_bit)
qed

text \<open>\<open>binary.LittleEndian.PutUintN\<close> and \<open>UintN\<close>; reading too short a slice panics.\<close>

definition PutUint16 :: "u16 \<Rightarrow> bytes" where "PutUint16 v = le_put 2 v"
definition PutUint32 :: "u32 \<Rightarrow> bytes" where "PutUint32 v = le_put 4 v"
definition PutUint64 :: "u64 \<Rightarrow> bytes" where "PutUint64 v = le_put 8 v"

definition le_read :: "nat \<Rightarrow> bytes \<Rightarrow> ('a::len) word res" where
  "le_read n b = (if length b < n then Inl (Panic ''index out of range'')
                  else Inr (le_get (take n b)))"

definition Uint16 :: "bytes \<Rightarrow> u16 res" where "Uint16 b = le_read 2 b"
definition Uint32 :: "bytes \<Rightarrow> u32 res" where "Uint32 b = le_read 4 b"
definition Uint64 :: "bytes \<Rightarrow> u64 res" where "Uint64 b = le_read 8 b"

lemma length_PutUint [simp]:
  "length (PutUint16 v) = 2" "length (PutUint32 w) = 4" "length (PutUint64 x) = 8"
  by (simp_all add: PutUint16_def PutUint32_def PutUint64_def)

lemma Uint16_Put [simp, codec]: "Uint16 (PutUint16 v @ r) = Inr v"
  by (simp add: Uint16_def PutUint16_def le_read_def)

lemma Uint32_Put [simp, codec]: "Uint32 (PutUint32 v @ r) = Inr v"
  by (simp add: Uint32_def PutUint32_def le_read_def)

lemma Uint64_Put [simp, codec]: "Uint64 (PutUint64 v @ r) = Inr v"
  by (simp add: Uint64_def PutUint64_def le_read_def)

text \<open>The slice expression \<open>b[i:j]\<close>.\<close>

definition gslice :: "'a list \<Rightarrow> nat \<Rightarrow> nat \<Rightarrow> 'a list res" where
  "gslice b i j = (if i \<le> j \<and> j \<le> length b then Inr (take (j - i) (drop i b))
                  else Inl (Panic ''slice bounds out of range''))"

lemma gslice_middle [simp]: "gslice (p @ m @ r) (length p) (length p + length m) = Inr m"
  by (simp add: gslice_def)

end
