(* ===== verification/Lexinum.thy ===== *)
theory Lexinum
  imports Prelude "HOL-Library.While_Combinator"
begin

text \<open>
  The package \<open>internal/lexinum\<close>: an order-preserving byte encoding of \<open>uint64\<close>, used in the
  keys of the block store.
\<close>

section \<open>Definitions\<close>

definition maxSmall :: u64 where
  "maxSmall = 8258175"

text \<open>\<open>pow\<close>: exponentiation by squaring in wrapping arithmetic.\<close>

function pow_loop :: "u64 \<Rightarrow> u64 \<Rightarrow> u64 \<Rightarrow> u64" where
  "pow_loop a b n =
     (if b > 0
      then pow_loop (a * a) (drop_bit 1 b) (if b AND 1 \<noteq> 0 then n * a else n)
      else n)"
  by pat_completeness auto
termination
proof (relation "measure (\<lambda>(a, b, n). unat b)", goal_cases)
  case (2 a b n)
  then have "0 < unat b" by (simp add: unat_gt_0 word_greater_zero_iff)
  then have "unat b div 2 < unat b" by simp
  then show ?case by (simp add: drop_bit_eq_div unat_div)
qed simp

declare pow_loop.simps [simp del]

definition pow :: "u64 \<Rightarrow> u64 \<Rightarrow> u64" where
  "pow a b = pow_loop a b 1"

fun Decode_big :: "bytes \<Rightarrow> u64 \<Rightarrow> (u64 \<times> u64) res" where
  "Decode_big [] v = Inr (v, 0)"
| "Decode_big (char # rest) v =
     (if char = 1
      then (case rest of [] \<Rightarrow> Inl (Panic ''index out of range'')
            | r # _ \<Rightarrow> Inr (v, ucast r))
      else Decode_big rest (v + (v * 252 + ucast (char - 2))))"

definition Decode :: "bytes \<Rightarrow> u64 res" where
  "Decode d =
     (if length d < 2 then Inl (Err ''lexinum: received too small a slice to decode'')
      else if d ! 0 < 0x80
      then Inl (Err ''lexinum: only support for positive numbers have been implemented'')
      else if d ! 0 = 0xff
      then bindE (Decode_big (drop 2 d) 0) (\<lambda>(v, rem). Inr (v * 255 + rem + maxSmall))
      else if length d < 3
      then Inl (Err ''lexinum: received too small a slice to decode a small positive integer'')
      else Inr ((ucast (d ! 0 - 128) * 255 + ucast (d ! 1 - 1)) * 255 + ucast (d ! 2 - 1)))"

text \<open>
  \<open>for lead/pow(253, n) > 0 { n++ }\<close>. The loop need not end for every \<open>lead\<close>, so its model
  may be \<open>None\<close>.
\<close>

definition Encode_width :: "u64 \<Rightarrow> u64 option" where
  "Encode_width lead = while_option (\<lambda>n. lead div pow 253 n > 0) (\<lambda>n. n + 1) 1"

text \<open>The loop that collects the base-253 digits of \<open>lead\<close>, least significant first.\<close>

function Encode_chars :: "u64 \<Rightarrow> bytes" where
  "Encode_chars lead =
     (if lead = 0 then [] else ucast (lead mod 253 + 2) # Encode_chars (lead div 253))"
  by pat_completeness auto
termination
proof (relation "measure unat", goal_cases)
  case (2 lead)
  then have "0 < unat lead" by (simp add: unat_gt_0)
  then have "unat lead div 253 < unat lead" by simp
  then show ?case by (simp add: unat_div)
qed simp

declare Encode_chars.simps [simp del]

definition Encode_loop :: "u64 \<Rightarrow> bytes option" where
  "Encode_loop v =
     (if v = 0 then Some [0x80, 0x01, 0x01]
      else if v < maxSmall
      then let div1 = v div 255; mod1 = v mod 255; enc2 = ucast (mod1 + 1) in
           if div1 > 0
           then let div2 = div1 div 255; mod2 = div1 mod 255; enc1 = ucast (mod2 + 1) in
                if div2 > 0 then Some [ucast (div2 + 128), enc1, enc2]
                else Some [0x80, enc1, enc2]
           else Some [0x80, 0x01, enc2]
      else let v' = v - maxSmall; lead = v' div 255; rem = v' mod 255 in
           (case Encode_width lead of None \<Rightarrow> None
            | Some n \<Rightarrow> Some ([0xff, ucast n + 1] @ rev (Encode_chars lead) @
                              (if rem > 0 then [0x01, ucast rem] else []))))"

text \<open>\<open>Encode\<close> returns for every argument (see \<open>Encode_loop_returns\<close>).\<close>

definition Encode :: "u64 \<Rightarrow> bytes" where
  "Encode v = the (Encode_loop v)"

section \<open>The helper pow is modular exponentiation\<close>

lemma even_unat_word: "even (b :: u64) \<longleftrightarrow> even (unat b)"
  by transfer (simp add: even_nat_iff)

lemma pow_loop_eq: "pow_loop a b n = n * a ^ unat b"
proof (induction a b n rule: pow_loop.induct)
  case (1 a b n)
  show ?case
  proof (cases "b > 0")
    case True
    have half: "unat (drop_bit 1 b) = unat b div 2"
      by (simp add: drop_bit_eq_div unat_div)
    have odd: "b AND 1 \<noteq> 0 \<longleftrightarrow> odd (unat b)"
      by (simp add: and_one_eq mod_2_eq_odd even_unat_word)
    have split: "unat b = 2 * (unat b div 2) + (if odd (unat b) then 1 else 0)"
      by simp
    have "a ^ unat b = (a * a) ^ (unat b div 2) * (if odd (unat b) then a else 1)"
      by (subst split) (simp add: power_add power_mult power2_eq_square)
    with 1 [OF True] True odd half show ?thesis
      by (simp add: pow_loop.simps [of a b n] mult_ac)
  next
    case False
    then have "b = 0" by (simp add: word_greater_zero_iff)
    then show ?thesis by (simp add: pow_loop.simps)
  qed
qed

corollary pow_eq_power: "pow a b = a ^ unat b"
  by (simp add: pow_def pow_loop_eq)

lemma len64: "(2::nat) ^ LENGTH(64) = 2 ^ 64"
  by simp

lemma unat_word_of_nat: "n < 2 ^ 64 \<Longrightarrow> unat (word_of_nat n :: u64) = n"
  by (simp only: unsigned_of_nat take_bit_nat_eq_self len64 of_nat_id)

lemma unat_pow253:
  assumes "k \<le> 8"
  shows "unat (pow 253 (word_of_nat k)) = 253 ^ k"
proof -
  have "(253::nat) ^ k \<le> 253 ^ 8" using assms by (intro power_increasing) simp_all
  also have "\<dots> < 2 ^ 64" by simp
  finally have lim: "(253::nat) ^ k < 2 ^ 64" .
  have "k < 2 ^ 64" using assms by simp
  then have "unat (word_of_nat k :: u64) = k" by (rule unat_word_of_nat)
  then have "pow 253 (word_of_nat k) = word_of_nat (253 ^ k)"
    by (simp only: pow_eq_power of_nat_power of_nat_numeral)
  with unat_word_of_nat [OF lim] show ?thesis by simp
qed

section \<open>Encode returns\<close>

lemma Encode_chars_0 [simp]: "Encode_chars 0 = []"
  by (simp add: Encode_chars.simps)

lemma length_Encode_chars_le: "length (Encode_chars x) \<le> k \<longleftrightarrow> unat x < 253 ^ k"
proof (induction k arbitrary: x)
  case 0
  then show ?case by (simp add: Encode_chars.simps [of x] unat_eq_0)
next
  case (Suc k)
  show ?case
  proof (cases "x = 0")
    case False
    then have "length (Encode_chars x) \<le> Suc k \<longleftrightarrow> unat (x div 253) < 253 ^ k"
      by (simp add: Encode_chars.simps [of x] Suc.IH)
    then show ?thesis by (simp add: unat_div div_less_iff_less_mult mult.commute)
  qed simp
qed

lemma width_guard:
  assumes "k \<le> 8"
  shows "x div pow 253 (of_nat k) > 0 \<longleftrightarrow> k < length (Encode_chars x)"
proof -
  have "x div pow 253 (of_nat k) > 0 \<longleftrightarrow> unat x div 253 ^ k > 0"
    by (simp add: word_less_nat_alt unat_div unat_pow253 [OF assms])
  also have "\<dots> \<longleftrightarrow> \<not> unat x < 253 ^ k" by (simp add: div_greater_zero_iff not_less)
  finally show ?thesis by (simp flip: length_Encode_chars_le add: not_le)
qed

lemma Encode_width_from:
  assumes "k \<le> m" and "m \<le> 8" and "length (Encode_chars x) \<le> m"
    and "\<And>j. k \<le> j \<Longrightarrow> j < m \<Longrightarrow> j < length (Encode_chars x)"
  shows "while_option (\<lambda>n. x div pow 253 n > 0) (\<lambda>n. n + 1) (of_nat k) = Some (of_nat m)"
  using assms
proof (induction "m - k" arbitrary: k)
  case 0
  then have "k = m" by simp
  with 0 show ?case by (subst while_option_unfold) (simp add: width_guard)
next
  case (Suc d)
  then have "k < m" and "k < length (Encode_chars x)" by auto
  moreover have "while_option (\<lambda>n. x div pow 253 n > 0) (\<lambda>n. n + 1) (of_nat (Suc k)) = Some (of_nat m)"
    by (rule Suc.hyps(1)) (use Suc in auto)
  ultimately show ?case
    using Suc.prems by (subst while_option_unfold) (simp add: width_guard add.commute)
qed

lemma Encode_width_eq:
  assumes "unat x < 253 ^ 8"
  shows "Encode_width x = Some (word_of_nat (max 1 (length (Encode_chars x))))"
proof -
  let ?m = "max 1 (length (Encode_chars x))"
  have le8: "length (Encode_chars x) \<le> 8"
    unfolding length_Encode_chars_le by (rule assms)
  have "while_option (\<lambda>n. x div pow 253 n > 0) (\<lambda>n. n + 1) (word_of_nat 1) = Some (word_of_nat ?m)"
    by (rule Encode_width_from) (use le8 in linarith)+
  then show ?thesis by (simp only: Encode_width_def of_nat_1)
qed

lemma lead_bound: "unat ((v :: u64) div 255) < 253 ^ 8"
proof -
  have "unat v < 2 ^ 64" using unsigned_less [of v] by simp
  also have "(2::nat) ^ 64 < 253 ^ 8 * 255" by simp
  finally have "unat v div 255 < 253 ^ 8" by (rule less_mult_imp_div_less)
  then show ?thesis by (simp only: unat_div unat_numeral) simp
qed

definition big_tail :: "u64 \<Rightarrow> bytes" where
  "big_tail rem = (if rem > 0 then [0x01, ucast rem] else [])"

definition small_code :: "u64 \<Rightarrow> bytes" where
  "small_code v = [ucast (v div 255 div 255 + 128), ucast (v div 255 mod 255 + 1), ucast (v mod 255 + 1)]"

definition digit_count :: "u64 \<Rightarrow> nat" where
  "digit_count x = max 1 (length (Encode_chars x))"

definition big_code :: "u64 \<Rightarrow> bytes" where
  "big_code w = [0xff, ucast (word_of_nat (digit_count (w div 255)) :: u64) + 1] @
     rev (Encode_chars (w div 255)) @ big_tail (w mod 255)"

lemma Encode_loop_eq:
  "Encode_loop v = Some (if v < maxSmall then small_code v else big_code (v - maxSmall))"
proof (cases "v < maxSmall")
  case True
  then show ?thesis
    by (auto simp: Encode_loop_def Let_def small_code_def word_greater_zero_iff)
next
  case False
  then have "v \<noteq> 0" by (auto simp: maxSmall_def)
  with False show ?thesis
    by (simp add: Encode_loop_def Let_def Encode_width_eq [OF lead_bound] big_code_def big_tail_def
      digit_count_def)
qed

lemma Encode_eq: "Encode v = (if v < maxSmall then small_code v else big_code (v - maxSmall))"
  by (simp add: Encode_def Encode_loop_eq)

section \<open>The bytes of an encoding\<close>

lemma unat_mod_byte:
  assumes "0 < unat m" and "unat m + unat k \<le> 256"
  shows "unat (ucast (x mod m + k :: u64) :: u8) = unat x mod unat m + unat k"
proof -
  have "unat x mod unat m < unat m" using assms(1) by simp
  then have "unat (x mod m + k) = unat x mod unat m + unat k"
    using assms(2) by (subst unat_small_add) (simp_all add: unat_mod)
  with \<open>unat x mod unat m < unat m\<close> assms(2) show ?thesis by (simp add: unat_ucast_u8)
qed

lemma unat_digit: "unat (ucast (x mod 253 + 2 :: u64) :: u8) = unat x mod 253 + 2"
  using unat_mod_byte [of 253 2 x] by simp

lemma unat_low_byte: "unat (ucast (x mod 255 + 1 :: u64) :: u8) = unat x mod 255 + 1"
  using unat_mod_byte [of 255 1 x] by simp

lemma unat_rem: "unat (ucast (x mod 255 :: u64) :: u8) = unat x mod 255"
  using unat_mod_byte [of 255 0 x] by simp

lemma small_high: "v < maxSmall \<Longrightarrow> unat (v div 255 div 255) < 127"
proof -
  assume "v < maxSmall"
  then have "unat v < 8258175" by (simp add: maxSmall_def word_less_nat_alt)
  then have "unat v div 255 div 255 < 127" by linarith
  then show ?thesis by (simp add: unat_div)
qed

lemma unat_high_byte:
  assumes "v < maxSmall"
  shows "unat (ucast (v div 255 div 255 + 128 :: u64) :: u8) = unat v div 255 div 255 + 128"
proof -
  have "unat v div 255 div 255 < 127" using small_high [OF assms] by (simp add: unat_div)
  then have "unat (v div 255 div 255 + 128) = unat v div 255 div 255 + 128"
    by (subst unat_small_add) (simp_all add: unat_div)
  with \<open>unat v div 255 div 255 < 127\<close> show ?thesis by (simp add: unat_ucast_u8)
qed

lemma Encode_chars_range: "c \<in> set (Encode_chars x) \<Longrightarrow> 2 \<le> unat c"
proof (induction x rule: Encode_chars.induct)
  case (1 x)
  then show ?case
    by (cases "x = 0") (auto simp: Encode_chars.simps [of x] unat_digit)
qed

lemma digit_count_le: "digit_count (w div 255) \<le> 8"
proof -
  have "length (Encode_chars (w div 255)) \<le> 8"
    unfolding length_Encode_chars_le by (rule lead_bound)
  then show ?thesis by (simp add: digit_count_def)
qed

lemma width_byte:
  "unat (ucast (word_of_nat (digit_count (w div 255)) :: u64) + 1 :: u8) = digit_count (w div 255) + 1"
proof -
  let ?m = "digit_count (w div 255)"
  have m: "?m \<le> 8" by (rule digit_count_le)
  then have um: "unat (word_of_nat ?m :: u64) = ?m" by (intro unat_word_of_nat) simp
  with m have "unat (ucast (word_of_nat ?m :: u64) :: u8) = ?m" by (simp add: unat_ucast_u8)
  with m show ?thesis by (subst unat_small_add) simp_all
qed

text \<open>No byte of an encoding is zero, so \<open>0x00\<close> separates the parts of a key.\<close>

lemma Encode_no_zero: "0 \<notin> set (Encode v)"
proof -
  have pos: "c \<in> set (Encode v) \<Longrightarrow> 0 < unat c" for c
  proof (cases "v < maxSmall")
    case True
    moreover assume "c \<in> set (Encode v)"
    ultimately show ?thesis
      by (auto simp: Encode_eq small_code_def unat_high_byte unat_low_byte)
  next
    case False
    moreover assume "c \<in> set (Encode v)"
    ultimately show ?thesis
      by (auto simp: Encode_eq big_code_def big_tail_def width_byte unat_rem word_less_nat_alt unat_mod
        dest!: Encode_chars_range split: if_splits)
  qed
  then show ?thesis by fastforce
qed

section \<open>Round trip\<close>

lemma Decode_big_append:
  "1 \<notin> set xs \<Longrightarrow>
   Decode_big (xs @ ys) v = Decode_big ys (foldl (\<lambda>v c. v + (v * 252 + ucast (c - 2))) v xs)"
  by (induction xs arbitrary: v) auto

lemma byte_minus:
  assumes "unat c = unat (x :: u64) + unat k"
  shows "ucast (c - k :: u8) = x"
proof -
  have "unat (c - k) = unat x"
    using assms by (subst unat_sub) (simp_all add: word_le_nat_alt)
  then show ?thesis by (simp add: word_unat_eq_iff)
qed

lemma digit_minus: "ucast (ucast (x mod 253 + 2 :: u64) - 2 :: u8) = x mod 253"
  by (rule byte_minus) (simp add: unat_digit unat_mod)

lemma low_minus: "ucast (ucast (x mod 255 + 1 :: u64) - 1 :: u8) = x mod 255"
  by (rule byte_minus) (simp add: unat_low_byte unat_mod)

lemma high_minus:
  "v < maxSmall \<Longrightarrow> ucast (ucast (v div 255 div 255 + 128 :: u64) - 128 :: u8) = v div 255 div 255"
  by (rule byte_minus) (simp add: unat_high_byte unat_div)

lemma foldl_digits:
  "foldl (\<lambda>v c. v + (v * 252 + ucast (c - 2))) 0 (rev (Encode_chars x)) = x"
proof (induction x rule: Encode_chars.induct)
  case (1 x)
  show ?case
  proof (cases "x = 0")
    case False
    have "foldl (\<lambda>v c. v + (v * 252 + ucast (c - 2))) 0 (rev (Encode_chars x))
        = x div 253 + (x div 253 * 252 + x mod 253)"
      using 1 [OF False] False by (simp add: Encode_chars.simps [of x] digit_minus)
    also have "\<dots> = x div 253 * 253 + x mod 253" by (simp add: algebra_simps)
    also have "\<dots> = x" by (rule div_mult_mod_eq)
    finally show ?thesis .
  qed simp
qed

lemma Decode_small:
  assumes "v < maxSmall"
  shows "Decode (small_code v) = Inr v"
proof -
  let ?h = "ucast (v div 255 div 255 + 128) :: u8"
  have "unat ?h = unat v div 255 div 255 + 128" by (rule unat_high_byte [OF assms])
  moreover have "unat v div 255 div 255 < 127" using small_high [OF assms] by (simp add: unat_div)
  ultimately have "\<not> ?h < 0x80" and "?h \<noteq> 0xff"
    by (auto simp: word_less_nat_alt word_unat_eq_iff)
  then have "Decode (small_code v)
      = Inr ((v div 255 div 255 * 255 + v div 255 mod 255) * 255 + v mod 255)"
    using high_minus [OF assms] by (simp add: Decode_def small_code_def low_minus)
  then show ?thesis by (simp only: div_mult_mod_eq)
qed

lemma Decode_big_code:
  assumes "\<not> v < maxSmall"
  shows "Decode (big_code (v - maxSmall)) = Inr v"
proof -
  let ?w = "v - maxSmall"
  have no1: "1 \<notin> set (rev (Encode_chars (?w div 255)))"
    by (auto dest: Encode_chars_range)
  have tail: "Decode_big (big_tail (?w mod 255)) x = Inr (x, ?w mod 255)" for x
  proof (cases "?w mod 255 = 0")
    case False
    have "ucast (ucast (?w mod 255) :: u8) = ?w mod 255"
      using byte_minus [of "ucast (?w mod 255)" "?w mod 255" 0] by (simp add: unat_rem unat_mod)
    with False show ?thesis by (simp add: big_tail_def word_greater_zero_iff)
  qed (simp add: big_tail_def)
  have "Decode_big (rev (Encode_chars (?w div 255)) @ big_tail (?w mod 255)) 0
      = Inr (?w div 255, ?w mod 255)"
    by (simp only: Decode_big_append [OF no1] foldl_digits tail)
  then have "Decode (big_code ?w) = Inr (?w div 255 * 255 + ?w mod 255 + maxSmall)"
    by (simp add: Decode_def big_code_def)
  then show ?thesis by (simp only: div_mult_mod_eq) simp
qed

lemma Decode_Encode_raw [codec]: "Decode (Encode v) = Inr v"
  by (simp add: Encode_eq Decode_small Decode_big_code)

section \<open>The encoding preserves the order\<close>

lemma Encode_chars_Cons:
  "x \<noteq> 0 \<Longrightarrow> Encode_chars x = ucast (x mod 253 + 2) # Encode_chars (x div 253)"
  by (simp add: Encode_chars.simps [of x])

lemma Encode_chars_eq_Nil [simp]: "Encode_chars x = [] \<longleftrightarrow> x = 0"
  by (cases "x = 0") (simp_all add: Encode_chars_Cons)

lemma Encode_chars_inj: "Encode_chars a = Encode_chars b \<longleftrightarrow> a = b"
proof
  assume eq: "Encode_chars a = Encode_chars b"
  have "a = foldl (\<lambda>v c. v + (v * 252 + ucast (c - 2))) 0 (rev (Encode_chars a))"
    by (rule foldl_digits [symmetric])
  also have "\<dots> = b" unfolding eq by (rule foldl_digits)
  finally show "a = b" .
qed simp

lemma digit_less:
  "(ucast (a mod 253 + 2 :: u64) :: u8) < ucast (b mod 253 + 2 :: u64) \<longleftrightarrow> unat a mod 253 < unat b mod 253"
  by (simp add: word_less_nat_alt unat_digit)

lemma word_less_div_mod253:
  "(a :: u64) < b \<longleftrightarrow> a div 253 < b div 253 \<or> a div 253 = b div 253 \<and> unat a mod 253 < unat b mod 253"
proof -
  have "unat (x div 253 :: u64) = unat x div 253" for x by (simp add: unat_div)
  then show ?thesis
    using nat_less_div_mod [of 253 "unat a" "unat b"]
    by (simp only: word_less_nat_alt word_unat_eq_iff)
qed

lemma digits_order:
  "length (Encode_chars a) = length (Encode_chars b) \<Longrightarrow>
   rev (Encode_chars a) < rev (Encode_chars b) \<longleftrightarrow> a < b"
proof (induction a arbitrary: b rule: Encode_chars.induct)
  case (1 a)
  show ?case
  proof (cases "a = 0")
    case True
    with 1(2) have "b = 0" by simp
    with True show ?thesis by simp
  next
    case False
    with 1(2) have "b \<noteq> 0" by auto
    have len: "length (Encode_chars (a div 253)) = length (Encode_chars (b div 253))"
      using 1(2) False \<open>b \<noteq> 0\<close> by (simp add: Encode_chars_Cons)
    have "rev (Encode_chars a) < rev (Encode_chars b) \<longleftrightarrow>
        rev (Encode_chars (a div 253)) < rev (Encode_chars (b div 253)) \<or>
        a div 253 = b div 253 \<and> unat a mod 253 < unat b mod 253"
      using len by (simp add: Encode_chars_Cons [OF False] Encode_chars_Cons [OF \<open>b \<noteq> 0\<close>]
        less_append_same_length Encode_chars_inj digit_less)
    also have "\<dots> \<longleftrightarrow> a < b"
      unfolding 1(1) [OF False len] by (rule word_less_div_mod253 [symmetric])
    finally show ?thesis .
  qed
qed

lemma Encode_chars_length_mono:
  assumes "a \<le> b" shows "length (Encode_chars a) \<le> length (Encode_chars b)"
proof -
  have "unat b < 253 ^ length (Encode_chars b)" by (simp flip: length_Encode_chars_le)
  with assms show ?thesis
    unfolding length_Encode_chars_le word_le_nat_alt by (rule le_less_trans)
qed

lemma big_tail_less:
  assumes "a mod 255 < b mod 255" shows "big_tail (a mod 255) < big_tail (b mod 255)"
proof -
  have "unat a mod 255 < unat b mod 255" using assms by (simp add: word_less_nat_alt unat_mod)
  then have "(ucast (a mod 255) :: u8) < ucast (b mod 255)"
    by (simp only: word_less_nat_alt unat_rem)
  moreover have "b mod 255 > 0" using assms by (rule le_less_trans [rotated]) simp
  ultimately show ?thesis by (simp add: big_tail_def)
qed

lemma big_tail_less_digit:
  assumes "b \<noteq> 0" and "length (Encode_chars b) = 1"
  shows "big_tail r < rev (Encode_chars b) @ t"
proof -
  have "Encode_chars (b div 253) = []" using assms by (simp add: Encode_chars_Cons)
  then have chars: "Encode_chars b = [ucast (b mod 253 + 2)]" and "b div 253 = 0"
    using Encode_chars_Cons [OF assms(1)] by simp_all
  then have "unat (b div 253) = 0" by simp
  then have "unat b div 253 = 0" by (simp add: unat_div)
  moreover have "unat b \<noteq> 0" using assms(1) by (simp add: unat_eq_0)
  ultimately have "unat b mod 253 \<noteq> 0" using div_mult_mod_eq [of "unat b" 253] by simp
  then have "1 < (ucast (b mod 253 + 2) :: u8)" by (simp add: word_less_nat_alt unat_digit)
  with chars show ?thesis by (simp add: big_tail_def)
qed

lemma big_lead_less:
  assumes "a < b" and "length (Encode_chars b) \<le> digit_count a"
  shows "rev (Encode_chars a) @ big_tail r < rev (Encode_chars b) @ t"
proof (cases "a = 0")
  case True
  with assms have "b \<noteq> 0" and "length (Encode_chars b) \<le> 1" by (auto simp: digit_count_def)
  then have "length (Encode_chars b) = 1"
    by (metis Encode_chars_eq_Nil One_nat_def le_Suc_eq le_zero_eq length_0_conv)
  with \<open>b \<noteq> 0\<close> True show ?thesis by (simp add: big_tail_less_digit)
next
  case False
  then have "length (Encode_chars a) \<noteq> 0" by simp
  with assms(2) Encode_chars_length_mono [of a b] assms(1)
  have "length (Encode_chars a) = length (Encode_chars b)" by (simp add: digit_count_def)
  with assms(1) show ?thesis by (simp add: less_append_same_length digits_order)
qed

lemma word_less_div_mod255:
  "(a :: u64) < b \<longleftrightarrow> a div 255 < b div 255 \<or> a div 255 = b div 255 \<and> a mod 255 < b mod 255"
proof -
  have "unat (x div 255 :: u64) = unat x div 255" "unat (x mod 255 :: u64) = unat x mod 255" for x
    by (simp_all add: unat_div unat_mod)
  then show ?thesis
    using nat_less_div_mod [of 255 "unat a" "unat b"]
    by (simp only: word_less_nat_alt word_unat_eq_iff)
qed

lemma big_code_less:
  assumes "a < b" shows "big_code a < big_code b"
proof (cases "a div 255 = b div 255")
  case True
  with assms have "a mod 255 < b mod 255" using word_less_div_mod255 [of a b] by auto
  with True show ?thesis by (simp add: big_code_def less_append_same_length big_tail_less)
next
  case False
  with assms have lead: "a div 255 < b div 255" using word_less_div_mod255 [of a b] by auto
  have le: "digit_count (a div 255) \<le> digit_count (b div 255)"
    using Encode_chars_length_mono [OF less_imp_le [OF lead]] by (simp add: digit_count_def)
  show ?thesis
  proof (cases "digit_count (a div 255) = digit_count (b div 255)")
    case True
    then have "length (Encode_chars (b div 255)) \<le> digit_count (a div 255)"
      by (simp add: digit_count_def)
    with True lead show ?thesis by (simp add: big_code_def big_lead_less)
  next
    case False
    with le have "unat (ucast (word_of_nat (digit_count (a div 255)) :: u64) + 1 :: u8)
        < unat (ucast (word_of_nat (digit_count (b div 255)) :: u64) + 1 :: u8)"
      by (simp only: width_byte)
    then show ?thesis by (simp add: big_code_def word_less_nat_alt)
  qed
qed

lemma small_code_less:
  assumes "a < b" and "b < maxSmall" shows "small_code a < small_code b"
proof -
  from assms have a: "a < maxSmall" by simp
  have "unat a < unat b" using assms(1) by (simp add: word_less_nat_alt)
  then show ?thesis
    using nat_less_div_mod [of 255 "unat a" "unat b"]
      nat_less_div_mod [of 255 "unat a div 255" "unat b div 255"]
    by (auto simp: small_code_def word_less_nat_alt word_unat_eq_iff unat_high_byte [OF a]
      unat_high_byte [OF assms(2)] unat_low_byte unat_div)
qed

lemma small_code_less_big:
  assumes "a < maxSmall" shows "small_code a < big_code b"
proof -
  have "unat (ucast (a div 255 div 255 + 128) :: u8) < 255"
    using small_high [OF assms] by (simp add: unat_high_byte [OF assms] unat_div)
  then show ?thesis by (simp add: small_code_def big_code_def word_less_nat_alt)
qed

lemma Encode_strict_mono:
  assumes "a < b" shows "Encode a < Encode b"
proof (cases "b < maxSmall")
  case True
  with assms have "a < maxSmall" by simp
  with True assms show ?thesis by (simp add: Encode_eq small_code_less)
next
  case False
  show ?thesis
  proof (cases "a < maxSmall")
    case True
    with False show ?thesis by (simp add: Encode_eq small_code_less_big)
  next
    case False': False
    have "a - maxSmall < b - maxSmall"
      using assms False False' by (simp add: word_less_nat_alt unat_sub word_le_nat_alt not_less)
    with False False' show ?thesis by (simp add: Encode_eq big_code_less)
  qed
qed

section \<open>The interface the key builders rely on\<close>

text \<open>
  Keys are encodings followed by the separator \<open>0x00\<close> and more bytes. What their users need:
  decoding inverts encoding, the order is kept, and the separator does not occur in a code.
\<close>

lemma separated_less:
  fixes xs ys :: bytes
  assumes "0 \<notin> set xs" and "0 \<notin> set ys"
  shows "xs @ 0 # us < ys @ 0 # vs \<longleftrightarrow> xs < ys \<or> xs = ys \<and> us < vs"
  using assms
proof (induction xs arbitrary: ys)
  case Nil
  then show ?case by (cases ys) (auto simp: word_greater_zero_iff)
next
  case (Cons x xs)
  then show ?case by (cases ys) auto
qed

lemma separated_eq:
  fixes xs ys :: bytes
  assumes "0 \<notin> set xs" and "0 \<notin> set ys"
  shows "xs @ 0 # us = ys @ 0 # vs \<longleftrightarrow> xs = ys \<and> us = vs"
  using assms
proof (induction xs arbitrary: ys)
  case Nil
  then show ?case by (cases ys) auto
next
  case (Cons x xs)
  then show ?case by (cases ys) auto
qed

locale order_codec =
  fixes enc :: "'a::linorder \<Rightarrow> bytes"
    and dec :: "bytes \<Rightarrow> 'a res"
  assumes dec_enc: "dec (enc v) = Inr v"
    and enc_mono: "a < b \<Longrightarrow> enc a < enc b"
    and enc_nonzero: "0 \<notin> set (enc v)"
begin

lemma enc_eq_iff: "enc a = enc b \<longleftrightarrow> a = b"
proof
  assume "enc a = enc b"
  then have "dec (enc a) = dec (enc b)" by simp
  then show "a = b" by (simp add: dec_enc)
qed simp

lemma enc_less_iff: "enc a < enc b \<longleftrightarrow> a < b"
  by (cases a b rule: linorder_cases) (auto dest: enc_mono)

lemma key_less_iff: "enc a @ 0 # us < enc b @ 0 # vs \<longleftrightarrow> a < b \<or> a = b \<and> us < vs"
  by (simp add: separated_less enc_nonzero enc_less_iff enc_eq_iff)

lemma key_eq_iff: "enc a @ 0 # us = enc b @ 0 # vs \<longleftrightarrow> a = b \<and> us = vs"
  by (simp add: separated_eq enc_nonzero enc_eq_iff)

lemma takeWhile_key: "takeWhile (\<lambda>c. c \<noteq> 0) (enc a @ 0 # us) = enc a"
  by (subst takeWhile_append2) (use enc_nonzero [of a] in auto)

lemma dropWhile_key: "dropWhile (\<lambda>c. c \<noteq> 0) (enc a @ 0 # us) = 0 # us"
  by (subst dropWhile_append2) (use enc_nonzero [of a] in auto)

end

interpretation lexinum: order_codec Encode Decode
  by unfold_locales (rule Decode_Encode_raw Encode_strict_mono Encode_no_zero; assumption)+

section \<open>Properties\<close>

text \<open>
  C13. For every \<open>uint64\<close>, \<open>Encode\<close> returns (its width loop ends although \<open>pow\<close> wraps) and
  \<open>Decode\<close> of the result is the number itself.
\<close>

theorem lexinum_roundtrip: "Encode_loop v = Some (Encode v) \<and> Decode (Encode v) = Inr v"
  by (simp add: Encode_loop_eq Encode_eq Decode_small Decode_big_code)

text \<open>
  C12. The encoded form is comparable in numeric order: the byte-wise lexicographic order of two
  encodings is the order of the numbers, for all \<open>uint64\<close>.
\<close>

theorem lexinum_order: "Encode a < Encode b \<longleftrightarrow> a < b"
  by (rule lexinum.enc_less_iff)

lemma Decode_big_panics:
  "Decode_big d v = Inl e \<longleftrightarrow>
   e = Panic ''index out of range'' \<and> dropWhile (\<lambda>c. c \<noteq> 1) d = [1]"
  by (induction d arbitrary: v) (auto split: list.splits)

text \<open>
  \<open>Decode\<close> panics exactly on the slices of at least two bytes that start with \<open>0xff\<close> and
  whose first \<open>0x01\<close> after the two header bytes is the last byte.
\<close>

theorem lexinum_decode_panic:
  "(\<exists>s. Decode d = Inl (Panic s)) \<longleftrightarrow>
   2 \<le> length d \<and> d ! 0 = 0xff \<and> dropWhile (\<lambda>c. c \<noteq> 1) (drop 2 d) = [1]"
proof (cases "length d < 2 \<or> d ! 0 \<noteq> 0xff")
  case True
  then show ?thesis by (auto simp: Decode_def)
next
  case False
  then show ?thesis by (auto simp: Decode_def bindE_eq_Inl Decode_big_panics not_less)
qed

end
