(* ===== verification/Strconv.thy ===== *)
theory Strconv
  imports Prelude
begin

text \<open>
  What the program uses of the packages \<open>strconv\<close> and \<open>fmt\<close>: decimal and upper-case hexadecimal
  output of unsigned integers and bytes, and \<open>ParseUint\<close> in base 10 for 64 bits.
\<close>

section \<open>Definitions\<close>

definition digit_char :: "nat \<Rightarrow> char" where
  "digit_char d = char_of (48 + d)"

fun dec_digits :: "nat \<Rightarrow> string" where
  "dec_digits n = (if n < 10 then [digit_char n] else dec_digits (n div 10) @ [digit_char (n mod 10)])"

declare dec_digits.simps [simp del]

definition FormatUint :: "'a::len word \<Rightarrow> string" where
  "FormatUint v = dec_digits (unat v)"

definition hexUpper :: string where
  "hexUpper = ''0123456789ABCDEF''"

definition hex_byte :: "u8 \<Rightarrow> string" where
  "hex_byte c = [hexUpper ! unat (drop_bit 4 c), hexUpper ! unat (c AND 0x0f)]"

definition is_digit :: "char \<Rightarrow> bool" where
  "is_digit c \<longleftrightarrow> 48 \<le> (of_char c :: nat) \<and> (of_char c :: nat) \<le> 57"

definition char_value :: "char \<Rightarrow> nat" where
  "char_value c = of_char c - 48"

fun dec_value :: "nat \<Rightarrow> string \<Rightarrow> nat" where
  "dec_value acc [] = acc"
| "dec_value acc (c # cs) = dec_value (acc * 10 + char_value c) cs"

definition ParseUint :: "string \<Rightarrow> u64 res" where
  "ParseUint s =
     (if s = [] \<or> \<not> list_all is_digit s then Inl (Err ''invalid syntax'')
      else if dec_value 0 s < 2 ^ 64 then Inr (word_of_nat (dec_value 0 s))
      else Inl (Err ''value out of range''))"

section \<open>Parsing inverts printing\<close>

lemma of_char_digit: "d < 10 \<Longrightarrow> (of_char (digit_char d) :: nat) = 48 + d"
  by (simp add: digit_char_def)

lemma is_digit_digit [simp]: "d < 10 \<Longrightarrow> is_digit (digit_char d)"
  by (simp add: is_digit_def of_char_digit)

lemma char_value_digit [simp]: "d < 10 \<Longrightarrow> char_value (digit_char d) = d"
  by (simp add: char_value_def of_char_digit)

lemma dec_digits_not_Nil [simp]: "dec_digits n \<noteq> []"
  by (subst dec_digits.simps) simp

lemma dec_digits_all: "list_all is_digit (dec_digits n)"
proof (induction n rule: dec_digits.induct)
  case (1 n)
  then show ?case by (subst dec_digits.simps) simp
qed

lemma dec_value_append: "dec_value acc (xs @ ys) = dec_value (dec_value acc xs) ys"
  by (induction xs arbitrary: acc) auto

lemma dec_value_digits: "dec_value 0 (dec_digits n) = n"
proof (induction n rule: dec_digits.induct)
  case (1 n)
  show ?case
  proof (cases "n < 10")
    case True
    then show ?thesis by (subst dec_digits.simps) simp
  next
    case False
    then have "dec_value 0 (dec_digits n) = n div 10 * 10 + n mod 10"
      using 1 by (subst dec_digits.simps) (simp add: dec_value_append)
    then show ?thesis by simp
  qed
qed

lemma ParseUint_dec_digits: "n < 2 ^ 64 \<Longrightarrow> ParseUint (dec_digits n) = Inr (word_of_nat n)"
  by (simp add: ParseUint_def dec_digits_all dec_value_digits)

lemma ParseUint_FormatUint [simp, codec]: "ParseUint (FormatUint (v :: u64)) = Inr v"
proof -
  have "unat v < 2 ^ LENGTH(64)" by (rule unsigned_less)
  then show ?thesis by (simp add: FormatUint_def ParseUint_dec_digits)
qed

end
