(* ===== verification/Messages.thy ===== *)
theory Messages
  imports Strconv
begin

text \<open>
  The packages \<open>blockmania/messages\<close> and \<open>blockmania/states\<close> and the data types of
  \<open>blockmania/blockmania.go\<close>: the five protocol messages, the keys of an interpreter state, and
  block identifiers.
\<close>

section \<open>Block identifiers\<close>

record BlockID =
  Hash :: bytes
  Node :: u64
  Round :: u64

definition Valid :: "BlockID \<Rightarrow> bool" where
  "Valid b \<longleftrightarrow> Hash b \<noteq> []"

abbreviation zeroID :: BlockID where
  "zeroID \<equiv> \<lparr>Hash = [], Node = 0, Round = 0\<rparr>"

record Dep =
  dBlock :: BlockID
  dDeps :: "BlockID list"
  dPrev :: BlockID

record BlockGraph =
  gBlock :: BlockID
  gDeps :: "Dep list"
  gPrev :: BlockID

record Interpreted =
  iBlocks :: "BlockID list"
  iConsumed :: u64
  iRound :: u64

text \<open>\<open>BlockID.String\<close>: the loop reads the bytes 6 to 11 of a non-empty hash.\<close>

definition BlockID_String :: "BlockID \<Rightarrow> string res" where
  "BlockID_String b =
     (let v = FormatUint (Node b) @ '' | '' @ FormatUint (Round b) in
      if Hash b = [] then Inr v
      else if length (Hash b) < 12 then Inl (Panic ''index out of range'')
      else Inr (v @ '' | '' @ concat (map (\<lambda>i. hex_byte (Hash b ! i)) [6..<12])))"

section \<open>Protocol messages\<close>

datatype PrePrepare = PrePrepare (ppHash: bytes) (ppNode: u64) (ppRound: u64) (ppView: u32)

text \<open>The arguments of the other messages are the hash, the node, the round, the sender and the view.\<close>

datatype Message =
    PP PrePrepare
  | Prepare bytes u64 u64 u64 u32
  | Commit bytes u64 u64 u64 u32
  | ViewChange bytes u64 u64 u64 u32
  | NewView bytes u64 u64 u64 u32

type_synonym MessageKind = u8

definition UnknownMsg :: MessageKind where "UnknownMsg = 0"
definition PrePrepareMsg :: MessageKind where "PrePrepareMsg = 1"
definition PrepareMsg :: MessageKind where "PrepareMsg = 2"
definition CommitMsg :: MessageKind where "CommitMsg = 3"
definition ViewChangedMsg :: MessageKind where "ViewChangedMsg = 4"
definition NewViewMsg :: MessageKind where "NewViewMsg = 5"

lemmas message_kinds = UnknownMsg_def PrePrepareMsg_def PrepareMsg_def CommitMsg_def ViewChangedMsg_def NewViewMsg_def

definition MessageKind_String :: "MessageKind \<Rightarrow> string res" where
  "MessageKind_String m =
     (if m = CommitMsg then Inr ''commit''
      else if m = NewViewMsg then Inr ''new-view''
      else if m = PrepareMsg then Inr ''prepare''
      else if m = PrePrepareMsg then Inr ''pre-prepare''
      else if m = UnknownMsg then Inr ''unknown''
      else if m = ViewChangedMsg then Inr ''view-change''
      else Inl (Panic (''blockmania: unknown message kind: '' @ FormatUint m)))"

fun Kind :: "Message \<Rightarrow> MessageKind" where
  "Kind (PP p) = PrePrepareMsg"
| "Kind (Prepare h n r s v) = PrepareMsg"
| "Kind (Commit h n r s v) = CommitMsg"
| "Kind (ViewChange h n r s v) = ViewChangedMsg"
| "Kind (NewView h n r s v) = NewViewMsg"

fun NodeRound :: "Message \<Rightarrow> u64 \<times> u64" where
  "NodeRound (PP (PrePrepare h n r v)) = (n, r)"
| "NodeRound (Prepare h n r s v) = (n, r)"
| "NodeRound (Commit h n r s v) = (n, r)"
| "NodeRound (ViewChange h n r s v) = (n, r)"
| "NodeRound (NewView h n r s v) = (n, r)"

text \<open>The methods \<open>Pre\<close> of \<open>Prepare\<close> and \<open>Commit\<close>; the other messages have none.\<close>

fun Pre :: "Message \<Rightarrow> PrePrepare option" where
  "Pre (Prepare h n r s v) = Some (PrePrepare h n r v)"
| "Pre (Commit h n r s v) = Some (PrePrepare h n r v)"
| "Pre _ = None"

definition fmtHash :: "bytes \<Rightarrow> string res" where
  "fmtHash v = (if v = [] then Inr '''' else
     bindE (gslice v 6 12) (\<lambda>b. Inr (concat (map hex_byte b))))"

definition fmt_fields :: "string \<Rightarrow> u64 \<Rightarrow> u64 \<Rightarrow> u32 \<Rightarrow> bytes \<Rightarrow> string \<Rightarrow> string res" where
  "fmt_fields name n r v h rest =
     bindE (fmtHash h) (\<lambda>hash. Inr (name @ ''{node: '' @ FormatUint n @ '', round: '' @ FormatUint r @
       '', view: '' @ FormatUint v @ '', hash: '' @ [CHR 39] @ hash @ [CHR 39] @ rest @ ''}''))"

definition PrePrepare_String :: "PrePrepare \<Rightarrow> string res" where
  "PrePrepare_String p = fmt_fields ''pre-prepare'' (ppNode p) (ppRound p) (ppView p) (ppHash p) []"

definition Prepare_String :: "bytes \<Rightarrow> u64 \<Rightarrow> u64 \<Rightarrow> u64 \<Rightarrow> u32 \<Rightarrow> string res" where
  "Prepare_String h n r s v = fmt_fields ''prepare'' n r v h ('', sender: '' @ FormatUint s)"

definition Commit_String :: "bytes \<Rightarrow> u64 \<Rightarrow> u64 \<Rightarrow> u64 \<Rightarrow> u32 \<Rightarrow> string res" where
  "Commit_String h n r s v = fmt_fields ''commit'' n r v h ('', sender: '' @ FormatUint s)"

definition ViewChange_String :: "bytes \<Rightarrow> u64 \<Rightarrow> u64 \<Rightarrow> u64 \<Rightarrow> u32 \<Rightarrow> string res" where
  "ViewChange_String h n r s v = fmt_fields ''view-change'' n r v h ('', sender: '' @ FormatUint s)"

definition NewView_String :: "bytes \<Rightarrow> u64 \<Rightarrow> u64 \<Rightarrow> u64 \<Rightarrow> u32 \<Rightarrow> string res" where
  "NewView_String h n r s v = fmt_fields ''new-view'' n r v h ('', sender: '' @ FormatUint s)"

fun Message_String :: "Message \<Rightarrow> string res" where
  "Message_String (PP p) = PrePrepare_String p"
| "Message_String (Prepare h n r s v) = Prepare_String h n r s v"
| "Message_String (Commit h n r s v) = Commit_String h n r s v"
| "Message_String (ViewChange h n r s v) = ViewChange_String h n r s v"
| "Message_String (NewView h n r s v) = NewView_String h n r s v"

section \<open>Keys of the interpreter state\<close>

datatype StateData =
    Final u64 u64
  | HNV u64 u64 u32
  | Prepared u64 u64 u32
  | PrePrepared u64 u64 u32
  | View u64 u64
  | ViewChanged u64 u64 u32

type_synonym StateDataKind = u8

definition UnknownState :: StateDataKind where "UnknownState = 0"
definition FinalState :: StateDataKind where "FinalState = 1"
definition HNVState :: StateDataKind where "HNVState = 2"
definition PreparedState :: StateDataKind where "PreparedState = 3"
definition PrePreparedState :: StateDataKind where "PrePreparedState = 4"
definition ViewState :: StateDataKind where "ViewState = 5"
definition ViewChangedState :: StateDataKind where "ViewChangedState = 6"

lemmas state_kinds = UnknownState_def FinalState_def HNVState_def PreparedState_def PrePreparedState_def
  ViewState_def ViewChangedState_def

fun GetRound :: "StateData \<Rightarrow> u64" where
  "GetRound (Final n r) = r"
| "GetRound (HNV n r v) = r"
| "GetRound (Prepared n r v) = r"
| "GetRound (PrePrepared n r v) = r"
| "GetRound (View n r) = r"
| "GetRound (ViewChanged n r v) = r"

fun SdKind :: "StateData \<Rightarrow> StateDataKind" where
  "SdKind (Final n r) = FinalState"
| "SdKind (HNV n r v) = HNVState"
| "SdKind (Prepared n r v) = PreparedState"
| "SdKind (PrePrepared n r v) = PrePreparedState"
| "SdKind (View n r) = ViewState"
| "SdKind (ViewChanged n r v) = ViewChangedState"

definition StateDataKind_String :: "StateDataKind \<Rightarrow> string res" where
  "StateDataKind_String s =
     (if s = FinalState then Inr ''final''
      else if s = HNVState then Inr ''hnv''
      else if s = PreparedState then Inr ''prepared''
      else if s = PrePreparedState then Inr ''preprepared''
      else if s = UnknownState then Inr ''unknown''
      else if s = ViewState then Inr ''viewState''
      else if s = ViewChangedState then Inr ''viewchanged''
      else Inl (Panic (''blockmania: unknown status data kind: '' @ FormatUint s)))"

section \<open>Lemmas\<close>

lemma fmtHash_panics: "(\<exists>e. fmtHash v = Inl e) \<longleftrightarrow> v \<noteq> [] \<and> length v < 12"
  by (auto simp: fmtHash_def gslice_def not_less)

lemma Pre_NodeRound: "Pre m = Some p \<Longrightarrow> NodeRound (PP p) = NodeRound m"
  by (cases m) auto

lemma MessageKind_String_Kind: "\<exists>t. MessageKind_String (Kind m) = Inr t"
  by (cases m) (auto simp: MessageKind_String_def message_kinds)

lemma StateDataKind_String_SdKind: "\<exists>t. StateDataKind_String (SdKind k) = Inr t"
  by (cases k) (auto simp: StateDataKind_String_def state_kinds)

fun msg_hash :: "Message \<Rightarrow> bytes" where
  "msg_hash (PP p) = ppHash p"
| "msg_hash (Prepare h _ _ _ _) = h"
| "msg_hash (Commit h _ _ _ _) = h"
| "msg_hash (ViewChange h _ _ _ _) = h"
| "msg_hash (NewView h _ _ _ _) = h"

lemma Message_String_panics:
  "(\<exists>e. Message_String m = Inl e) \<longleftrightarrow> msg_hash m \<noteq> [] \<and> length (msg_hash m) < 12"
proof -
  have "(\<exists>e. fmt_fields name n r v h rest = Inl e) \<longleftrightarrow> h \<noteq> [] \<and> length h < 12" for name n r v h rest
    using fmtHash_panics [of h] by (auto simp: fmt_fields_def bindE_eq_Inl)
  then show ?thesis
    by (cases m) (simp_all add: PrePrepare_String_def Prepare_String_def Commit_String_def
      ViewChange_String_def NewView_String_def)
qed

end
