(* ===== verification/Bitset.thy ===== *)
theory Bitset
  imports Prelude
begin

text \<open>
  The file \<open>blockmania/bitset.go\<close>: two bit arrays that record which nodes have sent a prepare and
  which a commit for one pre-prepare. Each array implements a set of node ids with a count; the
  contract is the locale \<open>vote_set\<close>, interpreted for the commits and for the prepares.
\<close>

section \<open>Definitions\<close>

record bitset =
  commits :: "u64 list"
  prepares :: "u64 list"

text \<open>\<open>bits.OnesCount64\<close> of the standard library.\<close>

definition OnesCount64 :: "u64 \<Rightarrow> nat" where
  "OnesCount64 w = length (filter (bit w) [0..<64])"

definition word_index :: "u64 \<Rightarrow> nat" where
  "word_index v = unat (drop_bit 6 v)"

definition word_mask :: "u64 \<Rightarrow> u64" where
  "word_mask v = push_bit (unat (v AND 63)) 1"

definition clone_bitset :: "bitset \<Rightarrow> bitset" where
  "clone_bitset b = \<lparr>commits = commits b, prepares = prepares b\<rparr>"

fun count_words :: "u64 list \<Rightarrow> nat" where
  "count_words [] = 0"
| "count_words (word # ws) = OnesCount64 word + count_words ws"

definition commitCount :: "bitset \<Rightarrow> nat" where
  "commitCount b = count_words (commits b)"

definition test_words :: "u64 list \<Rightarrow> u64 \<Rightarrow> bool res" where
  "test_words ws v =
     (if word_index v < length ws then Inr (ws ! word_index v AND word_mask v \<noteq> 0)
      else Inl (Panic ''index out of range''))"

definition hasCommit :: "bitset \<Rightarrow> u64 \<Rightarrow> bool res" where
  "hasCommit b v = test_words (commits b) v"

definition hasPrepare :: "bitset \<Rightarrow> u64 \<Rightarrow> bool res" where
  "hasPrepare b v = test_words (prepares b) v"

definition prepareCount :: "bitset \<Rightarrow> nat" where
  "prepareCount b = count_words (prepares b)"

definition set_words :: "u64 list \<Rightarrow> u64 \<Rightarrow> u64 list res" where
  "set_words ws v =
     (if word_index v < length ws
      then Inr (ws[word_index v := ws ! word_index v OR word_mask v])
      else Inl (Panic ''index out of range''))"

definition setCommit :: "bitset \<Rightarrow> u64 \<Rightarrow> bitset res" where
  "setCommit b v = bindE (set_words (commits b) v) (\<lambda>ws. Inr (b\<lparr>commits := ws\<rparr>))"

definition setPrepare :: "bitset \<Rightarrow> u64 \<Rightarrow> bitset res" where
  "setPrepare b v = bindE (set_words (prepares b) v) (\<lambda>ws. Inr (b\<lparr>prepares := ws\<rparr>))"

definition newBitset :: "nat \<Rightarrow> bitset" where
  "newBitset sz =
     (let words = drop_bit 6 (sz + 63)
      in \<lparr>commits = replicate words 0, prepares = replicate words 0\<rparr>)"

section \<open>A word array as a set of node ids\<close>

definition word_bits :: "u64 list \<Rightarrow> nat set" where
  "word_bits ws = {k. k div 64 < length ws \<and> bit (ws ! (k div 64)) (k mod 64)}"

definition votes :: "u64 list \<Rightarrow> u64 set" where
  "votes ws = {v. unat v \<in> word_bits ws}"

lemma word_index_eq: "word_index v = unat v div 64"
  by (simp add: word_index_def drop_bit_eq_div unat_div)

lemma mask_exponent: "unat (v AND 63) = unat v mod 64" for v :: u64
proof -
  have "v AND 63 = take_bit 6 v"
    using take_bit_eq_mask [of 6 v] by (simp add: mask_eq_exp_minus_1)
  then show ?thesis by (simp add: take_bit_eq_mod unat_mod)
qed

lemma word_mask_bit: "bit (word_mask v) k \<longleftrightarrow> k = unat v mod 64"
proof -
  have "unat v mod 64 < 64" by simp
  then show ?thesis
    by (auto simp: word_mask_def mask_exponent bit_exp_iff)
qed

lemma and_mask_nonzero: "w AND word_mask v \<noteq> 0 \<longleftrightarrow> bit w (unat v mod 64)"
proof -
  have "w AND word_mask v = 0 \<longleftrightarrow> (\<forall>n. \<not> bit (w AND word_mask v) n)"
    by (auto intro: bit_word_eqI)
  then show ?thesis by (simp add: bit_and_iff word_mask_bit)
qed

lemma OnesCount64_card: "OnesCount64 w = card {k. k < 64 \<and> bit w k}"
proof -
  have "OnesCount64 w = card (set (filter (bit w) [0..<64]))"
    unfolding OnesCount64_def by (rule distinct_card [symmetric]) simp
  also have "set (filter (bit w) [0..<64]) = {k. k < 64 \<and> bit w k}" by auto
  finally show ?thesis .
qed

lemma word_bits_Cons: "word_bits (w # ws) = {k. k < 64 \<and> bit w k} \<union> (\<lambda>k. k + 64) ` word_bits ws"
proof (intro equalityI subsetI)
  fix k assume k: "k \<in> word_bits (w # ws)"
  show "k \<in> {k. k < 64 \<and> bit w k} \<union> (\<lambda>k. k + 64) ` word_bits ws"
  proof (cases "k < 64")
    case True
    with k show ?thesis by (simp add: word_bits_def)
  next
    case False
    then obtain j where "k = j + 64" by (metis add.commute le_Suc_ex not_less)
    with k have "j \<in> word_bits ws" by (simp add: word_bits_def div_add_self2)
    with \<open>k = j + 64\<close> show ?thesis by blast
  qed
qed (auto simp: word_bits_def div_add_self2)

lemma finite_word_bits [simp]: "finite (word_bits ws)"
  by (induction ws) (simp_all add: word_bits_Cons, simp add: word_bits_def)

lemma count_words_card: "count_words ws = card (word_bits ws)"
proof (induction ws)
  case Nil
  then show ?case by (simp add: word_bits_def)
next
  case (Cons w ws)
  have "card ((\<lambda>k. k + 64) ` word_bits ws) = card (word_bits ws)"
    by (rule card_image) simp
  moreover have "{k. k < 64 \<and> bit w k} \<inter> (\<lambda>k. k + 64) ` word_bits ws = {}" by auto
  ultimately show ?case
    using Cons.IH by (simp add: word_bits_Cons OnesCount64_card card_Un_disjoint)
qed

lemma votes_image: "length ws \<le> 2 ^ 58 \<Longrightarrow> unat ` votes ws = word_bits ws"
proof (intro equalityI subsetI)
  fix k assume len: "length ws \<le> 2 ^ 58" and k: "k \<in> word_bits ws"
  then have "k < 2 ^ 64" by (auto simp: word_bits_def)
  then have "unat (word_of_nat k :: u64) = k" by (simp add: unsigned_of_nat take_bit_nat_eq_self)
  with k show "k \<in> unat ` votes ws"
    by (intro image_eqI [of _ _ "word_of_nat k"]) (simp_all add: votes_def)
qed (auto simp: votes_def)

lemma count_words_votes:
  assumes "length ws \<le> 2 ^ 58"
  shows "count_words ws = card (votes ws)"
proof -
  have "inj_on unat (votes ws)" by (simp add: inj_on_def word_unat_eq_iff)
  then have "card (unat ` votes ws) = card (votes ws)" by (rule card_image)
  with assms show ?thesis by (simp add: votes_image count_words_card)
qed

lemma votes_set_words:
  assumes "word_index v < length ws"
  shows "votes (ws[word_index v := ws ! word_index v OR word_mask v]) = insert v (votes ws)"
proof (rule set_eqI)
  fix x
  have eq: "x = v \<longleftrightarrow> unat x mod 64 = unat v mod 64 \<and> unat x div 64 = unat v div 64"
    unfolding word_unat_eq_iff by (rule nat_div_mod_eq_iff [symmetric])
  show "x \<in> votes (ws[word_index v := ws ! word_index v OR word_mask v]) \<longleftrightarrow> x \<in> insert v (votes ws)"
  proof (cases "unat x div 64 = unat v div 64")
    case True
    with assms eq show ?thesis
      by (simp add: votes_def word_bits_def word_index_eq bit_or_iff word_mask_bit disj_commute)
  next
    case False
    with eq show ?thesis by (simp add: votes_def word_bits_def word_index_eq)
  qed
qed

lemma count_words_mono: "count_words ws \<le> count_words (ws[i := ws ! i OR m])"
proof (cases "i < length ws")
  case True
  then have "word_bits ws \<subseteq> word_bits (ws[i := ws ! i OR m])"
    by (auto simp: word_bits_def nth_list_update bit_or_iff)
  then show ?thesis by (simp add: count_words_card card_mono)
qed (simp add: list_update_beyond)

section \<open>The contract of a vote set\<close>

text \<open>
  \<open>members\<close> is the set a bitset stands for and \<open>cap\<close> the number of ids it has room for: an id at or
  beyond \<open>cap\<close> panics, on every other id the operations are those of a finite set.
\<close>

locale vote_set =
  fixes members :: "'b \<Rightarrow> u64 set"
    and cap :: "'b \<Rightarrow> nat"
    and has :: "'b \<Rightarrow> u64 \<Rightarrow> bool res"
    and add :: "'b \<Rightarrow> u64 \<Rightarrow> 'b res"
    and count :: "'b \<Rightarrow> nat"
  assumes has_in: "unat v < cap b \<Longrightarrow> has b v = Inr (v \<in> members b)"
    and has_out: "\<not> unat v < cap b \<Longrightarrow> has b v = Inl (Panic ''index out of range'')"
    and add_in: "unat v < cap b \<Longrightarrow>
      \<exists>b'. add b v = Inr b' \<and> members b' = insert v (members b) \<and> cap b' = cap b"
    and add_out: "\<not> unat v < cap b \<Longrightarrow> add b v = Inl (Panic ''index out of range'')"
    and count_card: "cap b \<le> 2 ^ 64 \<Longrightarrow> count b = card (members b)"
begin

lemma add_ok:
  assumes "add b v = Inr b'"
  shows "unat v < cap b" and "members b' = insert v (members b)" and "cap b' = cap b"
  using assms add_in [of v b] add_out [of v b] by (cases "unat v < cap b"; auto)+

lemma add_count:
  assumes "add b v = Inr b'" and "cap b \<le> 2 ^ 64"
  shows "count b' = (if v \<in> members b then count b else count b + 1)"
  using add_ok [OF assms(1)] assms(2) by (simp add: count_card insert_absorb)

lemma add_has:
  assumes "add b v = Inr b'" and "unat x < cap b"
  shows "has b' x = Inr (x = v \<or> x \<in> members b)"
  using add_ok [OF assms(1)] assms(2) by (simp add: has_in)

lemma add_again:
  assumes "add b v = Inr b'" and "add b' v = Inr b''"
  shows "members b'' = members b'"
  using add_ok [OF assms(1)] add_ok [OF assms(2)] by auto

end

abbreviation commit_cap :: "bitset \<Rightarrow> nat" where
  "commit_cap b \<equiv> 64 * length (commits b)"

abbreviation prepare_cap :: "bitset \<Rightarrow> nat" where
  "prepare_cap b \<equiv> 64 * length (prepares b)"

lemma word_index_less: "word_index v < n \<longleftrightarrow> unat v < 64 * n"
  by (simp add: word_index_eq div_less_iff_less_mult mult.commute)

lemma test_words_votes:
  "test_words ws v = (if unat v < 64 * length ws then Inr (v \<in> votes ws)
                      else Inl (Panic ''index out of range''))"
  by (simp add: test_words_def word_index_less and_mask_nonzero votes_def word_bits_def
    word_index_eq div_less_iff_less_mult mult.commute)

lemma set_words_votes:
  "set_words ws v = (if unat v < 64 * length ws
     then Inr (ws[word_index v := ws ! word_index v OR word_mask v])
     else Inl (Panic ''index out of range''))"
  by (simp add: set_words_def word_index_less)

interpretation commit_votes: vote_set "\<lambda>b. votes (commits b)" commit_cap hasCommit setCommit commitCount
  by unfold_locales
    (auto simp: hasCommit_def setCommit_def commitCount_def test_words_votes set_words_votes
      votes_set_words word_index_less count_words_votes)

interpretation prepare_votes: vote_set "\<lambda>b. votes (prepares b)" prepare_cap hasPrepare setPrepare prepareCount
  by unfold_locales
    (auto simp: hasPrepare_def setPrepare_def prepareCount_def test_words_votes set_words_votes
      votes_set_words word_index_less count_words_votes)

lemma votes_replicate [simp]: "votes (replicate n 0) = {}"
  by (auto simp: votes_def word_bits_def)

lemma newBitset_caps:
  "commit_cap (newBitset n) = 64 * ((n + 63) div 64)" "prepare_cap (newBitset n) = 64 * ((n + 63) div 64)"
  by (simp_all add: newBitset_def Let_def drop_bit_eq_div)

lemma newBitset_lengths:
  "length (commits (newBitset n)) = (n + 63) div 64" "length (prepares (newBitset n)) = (n + 63) div 64"
  by (simp_all add: newBitset_def Let_def drop_bit_eq_div)

lemma newBitset_votes [simp]:
  "votes (commits (newBitset n)) = {}" "votes (prepares (newBitset n)) = {}"
  by (simp_all add: newBitset_def Let_def)

section \<open>Properties\<close>

text \<open>Recording a sequence of senders, as the interpreter does message by message.\<close>

definition setCommits :: "bitset \<Rightarrow> u64 list \<Rightarrow> bitset res" where
  "setCommits b vs = foldl (\<lambda>r v. bindE r (\<lambda>b. setCommit b v)) (Inr b) vs"

lemma setCommits_append: "setCommits b (vs @ [v]) = bindE (setCommits b vs) (\<lambda>b. setCommit b v)"
  by (simp add: setCommits_def)

lemma setCommits_ok:
  assumes "\<forall>v\<in>set vs. unat v < commit_cap b"
  shows "\<exists>b'. setCommits b vs = Inr b' \<and> commit_cap b' = commit_cap b \<and>
    votes (commits b') = set vs \<union> votes (commits b)"
  using assms
proof (induction vs rule: rev_induct)
  case Nil
  then show ?case by (simp add: setCommits_def)
next
  case (snoc v vs)
  then obtain b' where b': "setCommits b vs = Inr b'" "commit_cap b' = commit_cap b"
      "votes (commits b') = set vs \<union> votes (commits b)" by auto
  with snoc.prems have "unat v < commit_cap b'" by simp
  from commit_votes.add_in [OF this] b' show ?case by (auto simp: setCommits_append)
qed

text \<open>
  C14. A bitset counts distinct senders: after any sequence of \<open>setCommit\<close> calls with ids it has
  room for, \<open>commitCount\<close> is the number of different ids and \<open>hasCommit\<close> answers membership.
\<close>

theorem bitset_counts_distinct_senders:
  assumes "\<forall>v\<in>set vs. unat v < 64 * ((n + 63) div 64)" and "n \<le> 2 ^ 32"
  shows "\<exists>b. setCommits (newBitset n) vs = Inr b \<and> commitCount b = card (set vs) \<and>
    (\<forall>v. unat v < 64 * ((n + 63) div 64) \<longrightarrow> hasCommit b v = Inr (v \<in> set vs))"
proof -
  obtain b where b: "setCommits (newBitset n) vs = Inr b"
      "commit_cap b = 64 * ((n + 63) div 64)" "votes (commits b) = set vs"
    using setCommits_ok [of vs "newBitset n"] assms(1) by (auto simp: newBitset_caps)
  moreover have "64 * ((n + 63) div 64) \<le> 2 ^ 64" using assms(2) by simp
  ultimately show ?thesis
    using commit_votes.count_card [of b] commit_votes.has_in [of _ b] by auto
qed

theorem bitset_counts_distinct_senders_witness:
  "(4 :: nat) \<le> 2 ^ 32 \<and>
   (\<exists>b. setCommits (newBitset 4) [1, 3, 1] = Inr b \<and> commitCount b = card (set [1, 3, 1 :: u64]))"
  using bitset_counts_distinct_senders [of "[1, 3, 1]" 4] by auto

text \<open>
  C15. The nodes of a network of \<open>n\<close> peers have the ids 1 to \<open>n\<close>. A bitset made for \<open>n\<close> peers has
  room for all of them exactly when \<open>n\<close> is not a multiple of 64; otherwise recording node \<open>n\<close>
  panics.
\<close>

theorem bitset_room_for_peers:
  assumes "0 < n" and "n < 2 ^ 64"
  shows "(\<forall>v. 1 \<le> unat v \<and> unat v \<le> n \<longrightarrow> (\<exists>b. setPrepare (newBitset n) v = Inr b)) \<longleftrightarrow> n mod 64 \<noteq> 0"
proof -
  have ok: "(\<exists>b. setPrepare (newBitset n) v = Inr b) \<longleftrightarrow> unat v < 64 * ((n + 63) div 64)" for v
    using prepare_votes.add_in [of v "newBitset n"] prepare_votes.add_out [of v "newBitset n"]
    by (cases "unat v < 64 * ((n + 63) div 64)") (auto simp: newBitset_caps)
  have top: "n < 64 * ((n + 63) div 64) \<longleftrightarrow> n mod 64 \<noteq> 0"
    using less_round_up [of 64 n] by simp
  have "unat (word_of_nat n :: u64) = n"
    using assms(2) by (simp add: unsigned_of_nat take_bit_nat_eq_self)
  then have "(\<forall>v :: u64. 1 \<le> unat v \<and> unat v \<le> n \<longrightarrow> unat v < 64 * ((n + 63) div 64)) \<longleftrightarrow>
      n < 64 * ((n + 63) div 64)"
    using assms(1) by (auto dest: spec [of _ "word_of_nat n"] intro: le_less_trans)
  then show ?thesis by (simp only: ok top)
qed

theorem bitset_room_for_peers_witness:
  "(0 :: nat) < 64 \<and> (64 :: nat) < 2 ^ 64 \<and>
   (\<exists>v. 1 \<le> unat v \<and> unat v \<le> 64 \<and> (\<forall>b. setPrepare (newBitset 64) v \<noteq> Inr b))"
  using bitset_room_for_peers [of 64] by simp

end
