(* ===== verification/State.thy ===== *)
theory State
  imports Messages Bitset
begin

text \<open>
  The file \<open>blockmania/state.go\<close>: the state the interpreter attaches to a block. Two kinds of
  objects are shared between a state and its clones in the Go program, and live in heaps here:
  the maps stored under \<open>ViewChanged\<close> keys (a reference \<open>VVcs\<close>) and the backing arrays of the
  timeout slices. Everything else a clone copies.
\<close>

section \<open>Slices with shared backing arrays\<close>

text \<open>
  A slice is nil or an array address with a length; all slices of the program start at offset 0.
  An array is a list of its whole capacity. \<open>grow\<close> is the capacity the runtime chooses when an
  append does not fit: the language leaves it open, so it is a parameter; the new array has room
  for the appended element in any case.
\<close>

datatype slice = NilSlice | Slice nat nat

fun slice_len :: "slice \<Rightarrow> nat" where
  "slice_len NilSlice = 0"
| "slice_len (Slice a l) = l"

fun slice_cap :: "'a list list \<Rightarrow> slice \<Rightarrow> nat" where
  "slice_cap h NilSlice = 0"
| "slice_cap h (Slice a l) = length (h ! a)"

fun slice_list :: "'a list list \<Rightarrow> slice \<Rightarrow> 'a list" where
  "slice_list h NilSlice = []"
| "slice_list h (Slice a l) = take l (h ! a)"

fun slice_ok :: "'a list list \<Rightarrow> slice \<Rightarrow> bool" where
  "slice_ok h NilSlice \<longleftrightarrow> True"
| "slice_ok h (Slice a l) \<longleftrightarrow> a < length h \<and> l \<le> length (h ! a)"

fun slice_append :: "(nat \<Rightarrow> nat) \<Rightarrow> 'a \<Rightarrow> 'a list list \<Rightarrow> slice \<Rightarrow> 'a \<Rightarrow> 'a list list \<times> slice" where
  "slice_append grow z h s x =
     (if slice_len s < slice_cap h s
      then (case s of NilSlice \<Rightarrow> (h, s)
            | Slice a l \<Rightarrow> (h[a := (h ! a)[l := x]], Slice a (Suc l)))
      else let n = slice_len s; c = max (Suc n) (grow (slice_cap h s))
           in (h @ [slice_list h s @ [x] @ replicate (c - Suc n) z], Slice (length h) (Suc n)))"

lemma slice_append_list:
  assumes "slice_ok h s" and "slice_append grow z h s x = (h', s')"
  shows "slice_ok h' s'" and "slice_list h' s' = slice_list h s @ [x]"
  using assms
  by (cases s; auto simp: Let_def nth_append take_Suc_conv_app_nth split: if_splits)+

lemma slice_append_heap_length:
  "slice_append grow z h s x = (h', s') \<Longrightarrow> length h \<le> length h'"
  by (cases s) (auto simp: Let_def split: if_splits)

lemma slice_append_keeps_ok:
  assumes "slice_append grow z h s x = (h', s')" and "slice_ok h t"
  shows "slice_ok h' t"
proof -
  have "length (h[a := (h ! a)[l := x]] ! b) = length (h ! b)" if "b < length h" for a b l
    using that by (cases "a = b") auto
  with assms show ?thesis by (cases s; cases t) (auto simp: Let_def nth_append split: if_splits)
qed

section \<open>Data\<close>

text \<open>The values the code stores in the \<open>interface{}\<close> map \<open>state.data\<close>.\<close>

datatype sval = VU32 u32 | VStr bytes | VMsg PrePrepare | VVcs nat | VBool bool

record timeout =
  tNode :: u64
  tRound :: u64
  tView :: u32

type_synonym nodeRound = "u64 \<times> u64"

record state =
  s_bitsets :: "(PrePrepare, bitset) gmap option"
  s_data :: "(StateData, sval) gmap option"
  s_delay :: "(u64, u64) gmap option"
  s_final :: "(nodeRound, bytes) gmap option"
  s_out :: "Message list"
  s_timeout :: u64
  s_timeouts :: "(u64, slice) gmap"

definition empty_state :: state where
  "empty_state = \<lparr>s_bitsets = None, s_data = None, s_delay = None, s_final = None,
     s_out = [], s_timeout = 0, s_timeouts = []\<rparr>"

section \<open>Operations\<close>

definition clone :: "state option \<Rightarrow> u64 \<Rightarrow> state" where
  "clone st minround = (case st of None \<Rightarrow> empty_state
     | Some s \<Rightarrow> \<lparr>
         s_bitsets = map_option (\<lambda>m. map (\<lambda>(k, v). (k, clone_bitset v))
             (filter (\<lambda>(k, v). \<not> ppRound k < minround) m)) (s_bitsets s),
         s_data = map_option (filter (\<lambda>(k, v). \<not> GetRound k < minround)) (s_data s),
         s_delay = s_delay s,
         s_final = map_option (filter (\<lambda>(k, v). \<not> snd k < minround)) (s_final s),
         s_out = filter (\<lambda>msg. \<not> snd (NodeRound msg) < minround) (s_out s),
         s_timeout = s_timeout s,
         s_timeouts = filter (\<lambda>(k, v). \<not> k < minround) (s_timeouts s)\<rparr>)"

text \<open>
  \<open>getBitset\<close> returns a pointer into the map. The model returns the bitset and the state that
  holds it; a write through the pointer is \<open>putBitset\<close>.
\<close>

definition getBitset :: "nat \<Rightarrow> PrePrepare \<Rightarrow> state \<Rightarrow> bitset \<times> state" where
  "getBitset sz pp s = (case nget (s_bitsets s) pp of
       Some b \<Rightarrow> (b, s)
     | None \<Rightarrow> (let b = newBitset sz in (b, s\<lparr>s_bitsets := nput pp b (s_bitsets s)\<rparr>)))"

definition putBitset :: "PrePrepare \<Rightarrow> bitset \<Rightarrow> state \<Rightarrow> state" where
  "putBitset pp b s = s\<lparr>s_bitsets := nput pp b (s_bitsets s)\<rparr>"

definition getOutput :: "state option \<Rightarrow> Message list" where
  "getOutput st = (case st of None \<Rightarrow> [] | Some s \<Rightarrow> s_out s)"

definition putData :: "StateData \<Rightarrow> sval \<Rightarrow> state \<Rightarrow> state" where
  "putData k v s = s\<lparr>s_data := nput k v (s_data s)\<rparr>"

abbreviation getData :: "state \<Rightarrow> StateData \<Rightarrow> sval option" where
  "getData s k \<equiv> nget (s_data s) k"

definition getView :: "u64 \<Rightarrow> u64 \<Rightarrow> state \<Rightarrow> (u32 \<times> state) res" where
  "getView node round s = (case getData s (View node round) of
       Some (VU32 v) \<Rightarrow> Inr (v, s)
     | Some _ \<Rightarrow> Inl (Panic ''interface conversion'')
     | None \<Rightarrow> Inr (0, putData (View node round) (VU32 0) s))"

definition diff :: "u64 \<Rightarrow> u64 \<Rightarrow> u64" where
  "diff a b = (if a \<ge> b then a - b else b - a)"

section \<open>Lemmas\<close>

lemma getData_putData [simp, go_map]:
  "getData (putData k v s) k' = (if k' = k then Some v else getData s k')"
  by (simp add: putData_def)

lemma putData_frame [simp]:
  "s_bitsets (putData k v s) = s_bitsets s" "s_final (putData k v s) = s_final s"
  "s_out (putData k v s) = s_out s" "s_timeouts (putData k v s) = s_timeouts s"
  "s_delay (putData k v s) = s_delay s" "s_timeout (putData k v s) = s_timeout s"
  by (simp_all add: putData_def)

lemma putBitset_frame [simp]:
  "s_data (putBitset p b s) = s_data s" "s_final (putBitset p b s) = s_final s"
  "s_out (putBitset p b s) = s_out s" "s_timeouts (putBitset p b s) = s_timeouts s"
  "s_delay (putBitset p b s) = s_delay s" "s_timeout (putBitset p b s) = s_timeout s"
  by (simp_all add: putBitset_def)

lemma getBitset_frame:
  assumes "getBitset sz pp s = (b, s')"
  shows "s_data s' = s_data s" "s_final s' = s_final s" "s_out s' = s_out s"
    "s_timeouts s' = s_timeouts s" "s_delay s' = s_delay s" "s_timeout s' = s_timeout s"
  using assms by (auto simp: getBitset_def Let_def split: option.splits)

lemma nget_map_value [go_map]:
  "nget (map_option (map (\<lambda>(k, v). (k, f v))) m) k = map_option f (nget m k)"
  by (cases m) (auto simp: map_of_map)

lemma clone_getData [simp, go_map]:
  "getData (clone (Some s) r) k = (if GetRound k < r then None else getData s k)"
  by (cases "s_data s") (auto simp: clone_def map_of_filter_key)

lemma clone_final [simp, go_map]:
  "nget (s_final (clone (Some s) r)) k = (if snd k < r then None else nget (s_final s) k)"
  by (cases "s_final s") (auto simp: clone_def map_of_filter_key [where P = "\<lambda>k. \<not> snd k < r"])

lemma clone_timeouts [simp, go_map]:
  "map_of (s_timeouts (clone (Some s) r)) k = (if k < r then None else map_of (s_timeouts s) k)"
  by (simp add: clone_def map_of_filter_key)

lemma clone_bitset_id [simp]: "clone_bitset b = b"
  by (simp add: clone_bitset_def)

lemma clone_bitsets [simp, go_map]:
  "nget (s_bitsets (clone (Some s) r)) k = (if ppRound k < r then None else nget (s_bitsets s) k)"
  by (cases "s_bitsets s") (auto simp: clone_def map_of_filter_key)

lemma diff_commute: "diff a b = diff b a"
  by (auto simp: diff_def)

lemma unat_diff: "unat (diff a b) = (if unat b \<le> unat a then unat a - unat b else unat b - unat a)"
  by (auto simp: diff_def unat_sub word_le_nat_alt)

end
