(* ===== verification/Graph.thy ===== *)
theory Graph
  imports State
begin

text \<open>
  The file \<open>blockmania/graph.go\<close>: the consensus interpreter. A \<open>Graph\<close> runs in one goroutine that
  takes block graphs off a channel; \<open>run_step\<close> is one iteration of that loop. Every operation
  passes the graph explicitly and returns the updated graph, or the panic or fatal log call that
  ends the process. The calls of the delivery callback are recorded in \<open>g_delivered\<close>.
\<close>

section \<open>Data\<close>

record entry =
  e_block :: BlockID
  e_deps :: "BlockID list"
  e_prev :: BlockID

record blockInfo =
  bi_data :: BlockGraph
  bi_max :: u64

record Config =
  LastInterpreted :: u64
  Peers :: "u64 list"
  SelfID :: u64
  TotalNodes :: u64

record Graph =
  g_blocks :: "blockInfo list"
  g_delivered :: "Interpreted list"
  g_max :: "(BlockID, u64) gmap"
  g_peerCount :: nat
  g_peers :: "u64 list"
  g_quorumf1 :: nat
  g_quorum2f :: nat
  g_quorum2f1 :: nat
  g_resolved :: "(u64, (u64, bytes) gmap) gmap"
  g_round :: u64
  g_self :: u64
  g_statess :: "(BlockID, state) gmap"
  g_totalNodes :: u64
  g_vcs :: "(u64, bytes) gmap list"
  g_slices :: "timeout list list"
  g_grow :: "nat \<Rightarrow> nat"

section \<open>Delivery\<close>

text \<open>The loop of \<open>deliverRound\<close> over \<open>graph.blocks\<close>, up to the first block that is still needed.\<close>

definition forget :: "BlockID \<Rightarrow> Graph \<Rightarrow> Graph" where
  "forget b g = g\<lparr>g_max := AList.delete b (g_max g), g_statess := AList.delete b (g_statess g)\<rparr>"

fun consume_blocks :: "u64 \<Rightarrow> blockInfo list \<Rightarrow> u64 \<Rightarrow> Graph \<Rightarrow> blockInfo list \<times> u64 \<times> Graph" where
  "consume_blocks round [] consumed g = ([], consumed, g)"
| "consume_blocks round (info # infos) consumed g =
     (if bi_max info > round then (info # infos, consumed, g)
      else consume_blocks round infos (consumed + 1)
             (fold (\<lambda>dep. forget (dBlock dep)) (gDeps (bi_data info)) (forget (gBlock (bi_data info)) g)))"

lemma forget_frame [simp]:
  "g_resolved (forget b g) = g_resolved g" "g_round (forget b g) = g_round g"
  "g_delivered (forget b g) = g_delivered g" "g_peerCount (forget b g) = g_peerCount g"
  "g_blocks (forget b g) = g_blocks g" "g_vcs (forget b g) = g_vcs g"
  "g_slices (forget b g) = g_slices g" "g_quorum2f1 (forget b g) = g_quorum2f1 g"
  "g_peers (forget b g) = g_peers g" "g_quorum2f (forget b g) = g_quorum2f g"
  by (simp_all add: forget_def)

lemma forget_statess: "map_of (g_statess (forget b g)) k = (if k = b then None else map_of (g_statess g) k)"
  by (simp add: forget_def)

text \<open>What deleting entries of \<open>max\<close> and \<open>statess\<close> keeps.\<close>

definition forgets :: "Graph \<Rightarrow> Graph \<Rightarrow> bool" where
  "forgets g g' \<longleftrightarrow> g_resolved g' = g_resolved g \<and> g_round g' = g_round g \<and>
     g_delivered g' = g_delivered g \<and> g_peerCount g' = g_peerCount g \<and> g_blocks g' = g_blocks g \<and>
     g_vcs g' = g_vcs g \<and> g_slices g' = g_slices g \<and> g_quorum2f1 g' = g_quorum2f1 g \<and>
     g_peers g' = g_peers g \<and> g_quorum2f g' = g_quorum2f g \<and> map_of (g_statess g') \<subseteq>\<^sub>m map_of (g_statess g)"

lemma forgets_refl [simp]: "forgets g g"
  by (simp add: forgets_def)

lemma forgets_trans: "forgets g g' \<Longrightarrow> forgets g' g'' \<Longrightarrow> forgets g g''"
  by (auto simp: forgets_def intro: map_le_trans)

lemma forgets_forget: "forgets g (forget b g)"
  by (auto simp: forgets_def map_le_def forget_statess split: if_splits)

lemma forgets_fold: "forgets g (fold (\<lambda>d. forget (f d)) ds g)"
  by (induction ds arbitrary: g) (auto intro: forgets_trans [OF forgets_forget])

lemma consume_blocks_forgets:
  "consume_blocks r infos c g = (infos', c', g') \<Longrightarrow> forgets g g'"
  by (induction infos arbitrary: c g)
    (auto split: if_splits intro: forgets_trans [OF forgets_trans [OF forgets_forget forgets_fold]])

text \<open>The blocks of a round in delivery order: those with a hash, sorted by it.\<close>

definition round_blocks :: "u64 \<Rightarrow> (u64, bytes) gmap \<Rightarrow> BlockID list" where
  "round_blocks round hashes =
     sort_key Hash (map (\<lambda>(node, hash). \<lparr>Hash = hash, Node = node, Round = round\<rparr>)
       (filter (\<lambda>(node, hash). hash \<noteq> []) hashes))"

text \<open>The body of \<open>deliverRound\<close> up to the callback.\<close>

definition deliver_one :: "u64 \<Rightarrow> (u64, bytes) gmap \<Rightarrow> Graph \<Rightarrow> Graph res" where
  "deliver_one round hashes g =
     (let blocks = round_blocks round hashes;
          g1 = g\<lparr>g_resolved := AList.delete round (g_resolved g)\<rparr> in
      (case g_blocks g1 of [] \<Rightarrow> Inl (Panic ''index out of range [0] with length 0'')
       | info # _ \<Rightarrow>
           (let (rest, consumed, g2) =
              consume_blocks round (g_blocks g1) (Round (gBlock (bi_data info)) - 1) g1
            in Inr (g2\<lparr>g_blocks := rest, g_round := g_round g2 + 1,
                 g_delivered := g_delivered g2 @
                   [\<lparr>iBlocks = blocks, iConsumed = consumed, iRound = round\<rparr>]\<rparr>))))"

lemma deliver_one_resolved:
  "deliver_one round hashes g = Inr g' \<Longrightarrow> g_resolved g' = AList.delete round (g_resolved g)"
  by (auto simp: deliver_one_def Let_def forgets_def split: list.splits prod.splits
    dest!: consume_blocks_forgets simp del: consume_blocks.simps)

function deliverRound :: "u64 \<Rightarrow> (u64, bytes) gmap \<Rightarrow> Graph \<Rightarrow> Graph res" where
  "deliverRound round hashes g =
     bindE (deliver_one round hashes g) (\<lambda>g'.
       case map_of (g_resolved g') (round + 1) of
         None \<Rightarrow> Inr g'
       | Some hashes' \<Rightarrow>
           if length hashes' = g_peerCount g' then deliverRound (round + 1) hashes' g' else Inr g')"
  by pat_completeness auto
termination
proof (relation "measure (\<lambda>(round, hashes, g).
    length (g_resolved g) + (if map_of (g_resolved g) round = None then 1 else 0))", goal_cases)
  case (2 round hashes g g' hashes')
  then have r: "g_resolved g' = AList.delete round (g_resolved g)" by (simp add: deliver_one_resolved)
  have "length (AList.delete round (g_resolved g)) \<le> length (g_resolved g)" by (rule length_delete_le)
  with 2(2) r length_delete_less [of "g_resolved g" round] show ?case by auto
qed simp

declare deliverRound.simps [simp del]

definition deliver :: "u64 \<Rightarrow> u64 \<Rightarrow> bytes \<Rightarrow> Graph \<Rightarrow> Graph res" where
  "deliver node round hash g =
     (if round < g_round g then Inr g
      else bindE
        (case map_of (g_resolved g) round of
           Some hashes \<Rightarrow>
             (case map_of hashes node of
                Some curhash \<Rightarrow>
                  if curhash \<noteq> hash then Inl (Fatal ''Mismatching block hash for delivery'')
                  else Inr hashes
              | None \<Rightarrow> Inr (AList.update node hash hashes))
         | None \<Rightarrow> Inr [(node, hash)])
        (\<lambda>hashes.
           let g1 = g\<lparr>g_resolved := AList.update round hashes (g_resolved g)\<rparr> in
           if round \<noteq> g_round g1 then Inr g1
           else if length hashes = g_peerCount g1 then deliverRound round hashes g1
           else Inr g1))"

section \<open>The handlers of the protocol messages\<close>

text \<open>The assignment \<open>s.data[k] = v\<close> without a check for nil.\<close>

definition setData :: "StateData \<Rightarrow> sval \<Rightarrow> state \<Rightarrow> state res" where
  "setData k v s = (case s_data s of None \<Rightarrow> Inl (Panic ''assignment to entry in nil map'')
     | Some m \<Rightarrow> Inr (s\<lparr>s_data := Some (AList.update k v m)\<rparr>))"

type_synonym outcome = "(Graph \<times> state \<times> Message option) res"

definition onPrePrepare :: "Graph \<Rightarrow> state \<Rightarrow> u32 \<Rightarrow> u64 \<Rightarrow> u64 \<Rightarrow> PrePrepare \<Rightarrow> outcome" where
  "onPrePrepare g s v sender receiver m =
     (let node = ppNode m; round = ppRound m; pp = PrePrepared node round (ppView m) in
      if v \<noteq> ppView m then Inr (g, s, None)
      else if getData s pp \<noteq> None then Inr (g, s, None)
      else (let (b, s1) = getBitset (g_peerCount g) m s in
        bindE (setPrepare b sender) (\<lambda>b1.
        bindE (setPrepare b1 receiver) (\<lambda>b2.
        Inr (g, putData pp (VMsg m) (putBitset m b2 s1),
             Some (Prepare (ppHash m) node round receiver (ppView m)))))))"

definition onPrepare :: "Graph \<Rightarrow> state \<Rightarrow> u32 \<Rightarrow> u64 \<Rightarrow> PrePrepare \<Rightarrow> u64 \<Rightarrow> outcome" where
  "onPrepare g s v receiver pre m_Sender =
     (let node = ppNode pre; round = ppRound pre in
      if v > ppView pre then Inr (g, s, None)
      else (let (b, s1) = getBitset (g_peerCount g) pre s in
        bindE (setPrepare b m_Sender) (\<lambda>b1.
        let s2 = putBitset pre b1 s1 in
        if v < ppView pre then Inr (g, s2, None)
        else if prepareCount b1 \<noteq> g_quorum2f1 g then Inr (g, s2, None)
        else bindE (hasCommit b1 receiver) (\<lambda>has.
          if has then Inr (g, s2, None)
          else bindE (setCommit b1 receiver) (\<lambda>b2.
            let s3 = putBitset pre b2 s2;
                p = Prepared node round (ppView pre);
                s4 = (if getData s3 p = None then putData p (VStr (ppHash pre)) s3 else s3)
            in Inr (g, s4, Some (Commit (ppHash pre) node round receiver (ppView pre))))))))"

definition onCommit :: "Graph \<Rightarrow> state \<Rightarrow> u32 \<Rightarrow> PrePrepare \<Rightarrow> u64 \<Rightarrow> outcome" where
  "onCommit g s v pre m_Sender =
     (let node = ppNode pre; round = ppRound pre in
      if v < ppView pre then Inr (g, s, None)
      else (let (b, s1) = getBitset (g_peerCount g) pre s in
        bindE (setCommit b m_Sender) (\<lambda>b1.
        let s2 = putBitset pre b1 s1 in
        if commitCount b1 \<noteq> g_quorum2f1 g then Inr (g, s2, None)
        else if nget (s_final s2) (node, round) \<noteq> None then Inr (g, s2, None)
        else let s3 = s2\<lparr>s_final := nput (node, round) (ppHash pre) (s_final s2)\<rparr> in
          bindE (deliver node round (ppHash pre) g) (\<lambda>g'. Inr (g', s3, None)))))"

text \<open>The loop over the values of \<open>vcs\<close> that looks for the one hash prepared before the view change.\<close>

fun merge_hashes :: "bytes list \<Rightarrow> bytes \<Rightarrow> bytes res" where
  "merge_hashes [] hash = Inr hash"
| "merge_hashes (hval # hvals) hash =
     (if hval \<noteq> [] then
        if hash \<noteq> [] \<and> hval \<noteq> hash then Inl (Fatal ''Got multiple hashes in a view change'')
        else merge_hashes hvals hval
      else merge_hashes hvals hash)"

text \<open>The map \<open>vcs\<close> of a view change: its address, allocated when the key is new.\<close>

definition getVcs :: "StateData \<Rightarrow> Graph \<Rightarrow> state \<Rightarrow> (nat \<times> Graph \<times> state) res" where
  "getVcs key g s = (case getData s key of
       Some (VVcs a) \<Rightarrow> Inr (a, g, s)
     | Some _ \<Rightarrow> Inl (Panic ''interface conversion'')
     | None \<Rightarrow> (let a = length (g_vcs g) in Inr (a, g\<lparr>g_vcs := g_vcs g @ [[]]\<rparr>, putData key (VVcs a) s)))"

definition onViewChange ::
  "Graph \<Rightarrow> state \<Rightarrow> u32 \<Rightarrow> u64 \<Rightarrow> bytes \<Rightarrow> u64 \<Rightarrow> u64 \<Rightarrow> u64 \<Rightarrow> u32 \<Rightarrow> outcome" where
  "onViewChange g s v receiver m_Hash node round m_Sender m_View =
     (if v > m_View then Inr (g, s, None)
      else bindE (getVcs (ViewChanged node round v) g s) (\<lambda>(a, g1, s1).
        let vcs = AList.update m_Sender m_Hash (g_vcs g1 ! a);
            g2 = g1\<lparr>g_vcs := (g_vcs g1)[a := vcs]\<rparr>
        in if length vcs \<noteq> g_quorum2f1 g then Inr (g2, s1, None)
           else bindE (setData (View node round) (VU32 m_View) s1) (\<lambda>s2.
             bindE (merge_hashes (map snd vcs) []) (\<lambda>hash.
             Inr (g2, s2, Some (NewView hash node round receiver m_View))))))"

text \<open>The assignment \<open>s.timeouts[k] = append(s.timeouts[k], t)\<close>.\<close>

definition add_timeout :: "u64 \<Rightarrow> timeout \<Rightarrow> Graph \<Rightarrow> state \<Rightarrow> Graph \<times> state" where
  "add_timeout k t g s =
     (let sl = (case map_of (s_timeouts s) k of None \<Rightarrow> NilSlice | Some sl \<Rightarrow> sl);
          (h, sl') = slice_append (g_grow g) \<lparr>tNode = 0, tRound = 0, tView = 0\<rparr> (g_slices g) sl t
      in (g\<lparr>g_slices := h\<rparr>, s\<lparr>s_timeouts := AList.update k sl' (s_timeouts s)\<rparr>))"

definition onNewView ::
  "Graph \<Rightarrow> state \<Rightarrow> u32 \<Rightarrow> BlockID \<Rightarrow> bytes \<Rightarrow> u64 \<Rightarrow> u64 \<Rightarrow> u32 \<Rightarrow> outcome" where
  "onNewView g s v origin m_Hash node round m_View =
     (let key = HNV node round m_View in
      if v > m_View then Inr (g, s, None)
      else if getData s key \<noteq> None then Inr (g, s, None)
      else let s1 = (if s_data s = None then s\<lparr>s_data := Some []\<rparr> else s) in
        bindE (setData (View node round) (VU32 m_View) s1) (\<lambda>s2.
        let tval = Round origin + s_timeout s2 + 5;
            (g1, s3) = add_timeout tval \<lparr>tNode = node, tRound = round, tView = m_View\<rparr> g s2
        in bindE (setData key (VBool True) s3) (\<lambda>s4.
          Inr (g1, s4, Some (PP (PrePrepare m_Hash node round m_View))))))"

definition processMessage ::
  "Graph \<Rightarrow> state \<Rightarrow> u64 \<Rightarrow> u64 \<Rightarrow> BlockID \<Rightarrow> Message \<Rightarrow> outcome" where
  "processMessage g s sender receiver origin msg =
     (let (node, round) = NodeRound msg in
      if getData s (Final node round) \<noteq> None then Inr (g, s, None)
      else bindE (getView node round s) (\<lambda>(v, s).
        case msg of
          PP m \<Rightarrow> onPrePrepare g s v sender receiver m
        | Prepare h n r sd vw \<Rightarrow> onPrepare g s v receiver (PrePrepare h n r vw) sd
        | Commit h n r sd vw \<Rightarrow> onCommit g s v (PrePrepare h n r vw) sd
        | ViewChange h n r sd vw \<Rightarrow> onViewChange g s v receiver h n r sd vw
        | NewView h n r sd vw \<Rightarrow> onNewView g s v origin h n r vw))"

section \<open>The loops over messages\<close>

text \<open>
  A response is of a later phase of the protocol than the message that caused it, so the second
  loop of \<open>processMessages\<close>, which also handles the responses it appends, ends.
\<close>

fun msg_rank :: "Message \<Rightarrow> nat" where
  "msg_rank (ViewChange _ _ _ _ _) = 5"
| "msg_rank (NewView _ _ _ _ _) = 4"
| "msg_rank (PP _) = 3"
| "msg_rank (Prepare _ _ _ _ _) = 2"
| "msg_rank (Commit _ _ _ _ _) = 1"

lemma onPrePrepare_resp:
  "onPrePrepare g s v sender receiver m = Inr (g', s', Some resp) \<Longrightarrow>
   resp = Prepare (ppHash m) (ppNode m) (ppRound m) receiver (ppView m)"
  by (auto simp: onPrePrepare_def Let_def bindE_eq_Inr split: prod.splits if_splits)

lemma onPrepare_resp:
  "onPrepare g s v receiver pre m_Sender = Inr (g', s', Some resp) \<Longrightarrow>
   resp = Commit (ppHash pre) (ppNode pre) (ppRound pre) receiver (ppView pre)"
  by (auto simp: onPrepare_def Let_def bindE_eq_Inr split: prod.splits if_splits)

lemma onCommit_resp:
  "onCommit g s v pre m_Sender = Inr (g', s', resp) \<Longrightarrow> resp = None"
  by (auto simp: onCommit_def Let_def bindE_eq_Inr split: prod.splits if_splits)

lemma onViewChange_resp:
  "onViewChange g s v receiver h n r sd vw = Inr (g', s', Some resp) \<Longrightarrow>
   \<exists>hash. resp = NewView hash n r receiver vw"
  by (auto simp: onViewChange_def Let_def bindE_eq_Inr split: prod.splits if_splits)

lemma onNewView_resp:
  "onNewView g s v origin h n r vw = Inr (g', s', Some resp) \<Longrightarrow> resp = PP (PrePrepare h n r vw)"
  by (auto simp: onNewView_def Let_def bindE_eq_Inr split_beta split: if_splits)

lemma processMessage_cases:
  assumes "processMessage g s sender receiver origin msg = Inr (g', s', resp)"
  obtains (final) "g' = g" "s' = s" "resp = None" "getData s (Final (fst (NodeRound msg)) (snd (NodeRound msg))) \<noteq> None"
  | (pp) m v s1 where "msg = PP m" "getView (ppNode m) (ppRound m) s = Inr (v, s1)"
      "onPrePrepare g s1 v sender receiver m = Inr (g', s', resp)"
  | (prepare) h n r sd vw v s1 where "msg = Prepare h n r sd vw" "getView n r s = Inr (v, s1)"
      "onPrepare g s1 v receiver (PrePrepare h n r vw) sd = Inr (g', s', resp)"
  | (commit) h n r sd vw v s1 where "msg = Commit h n r sd vw" "getView n r s = Inr (v, s1)"
      "onCommit g s1 v (PrePrepare h n r vw) sd = Inr (g', s', resp)"
  | (vc) h n r sd vw v s1 where "msg = ViewChange h n r sd vw" "getView n r s = Inr (v, s1)"
      "onViewChange g s1 v receiver h n r sd vw = Inr (g', s', resp)"
  | (nv) h n r sd vw v s1 where "msg = NewView h n r sd vw" "getView n r s = Inr (v, s1)"
      "onNewView g s1 v origin h n r vw = Inr (g', s', resp)"
proof (cases "getData s (Final (fst (NodeRound msg)) (snd (NodeRound msg))) = None")
  case False
  with assms show ?thesis by (intro final) (auto simp: processMessage_def split: prod.splits)
next
  case True
  obtain node round where nr: "NodeRound msg = (node, round)" by (cases "NodeRound msg")
  from assms True nr obtain v s1 where v: "getView node round s = Inr (v, s1)"
    by (auto simp: processMessage_def bindE_eq_Inr)
  show ?thesis
  proof (cases msg)
    case (PP m)
    then have "ppNode m = node" "ppRound m = round" using nr by (cases m; simp)+
    with PP assms True v nr show ?thesis by (intro pp) (auto simp: processMessage_def)
  next
    case Prepare
    with assms True v nr show ?thesis by (intro prepare) (auto simp: processMessage_def)
  next
    case Commit
    with assms True v nr show ?thesis by (intro commit) (auto simp: processMessage_def)
  next
    case ViewChange
    with assms True v nr show ?thesis by (intro vc) (auto simp: processMessage_def)
  next
    case NewView
    with assms True v nr show ?thesis by (intro nv) (auto simp: processMessage_def)
  qed
qed

lemma processMessage_response:
  assumes "processMessage g s sender receiver origin msg = Inr (g', s', Some resp)"
  shows "msg_rank resp < msg_rank msg \<and> NodeRound resp = NodeRound msg"
  using assms
proof (cases rule: processMessage_cases)
  case (pp m v s1)
  then show ?thesis by (cases m) (auto dest: onPrePrepare_resp)
qed (auto dest!: onPrepare_resp onCommit_resp onViewChange_resp onNewView_resp)

text \<open>The first loop of \<open>processMessages\<close>.\<close>

fun process_given :: "u64 \<Rightarrow> u64 \<Rightarrow> BlockID \<Rightarrow> Message list \<Rightarrow> Graph \<Rightarrow> state \<Rightarrow> Message set \<Rightarrow>
    Message list \<Rightarrow> (Graph \<times> state \<times> Message set \<times> Message list) res" where
  "process_given sender receiver origin [] g s processed out = Inr (g, s, processed, out)"
| "process_given sender receiver origin (msg # msgs) g s processed out =
     (if msg \<in> processed then process_given sender receiver origin msgs g s processed out
      else bindE (processMessage g s sender receiver origin msg) (\<lambda>(g', s', resp).
        process_given sender receiver origin msgs g' s' (insert msg processed)
          (case resp of None \<Rightarrow> out | Some r \<Rightarrow> out @ [r])))"

lemma msg_rank_pos: "0 < msg_rank m"
  by (cases m) auto

lemma drop_rank: "i < length out \<Longrightarrow> sum_list (map msg_rank (drop i out)) =
    msg_rank (out ! i) + sum_list (map msg_rank (drop (Suc i) out))"
  by (simp add: Cons_nth_drop_Suc [symmetric])

text \<open>The second loop, from the index \<open>i\<close> on.\<close>

function process_responses :: "u64 \<Rightarrow> u64 \<Rightarrow> BlockID \<Rightarrow> nat \<Rightarrow> Graph \<Rightarrow> state \<Rightarrow> Message set \<Rightarrow>
    Message list \<Rightarrow> (Graph \<times> state \<times> Message set \<times> Message list) res" where
  "process_responses sender receiver origin i g s processed out =
     (if i < length out then
        let msg = out ! i in
        if msg \<in> processed then process_responses sender receiver origin (Suc i) g s processed out
        else bindE (processMessage g s sender receiver origin msg) (\<lambda>(g', s', resp).
          process_responses sender receiver origin (Suc i) g' s' (insert msg processed)
            (case resp of None \<Rightarrow> out | Some r \<Rightarrow> out @ [r]))
      else Inr (g, s, processed, out))"
  by pat_completeness auto

termination
proof (relation "measure (\<lambda>(sender, receiver, origin, i, g, s, processed, out).
    sum_list (map msg_rank (drop i out)))", goal_cases)
  case (2 sender receiver origin i g s processed out msg)
  then show ?case using drop_rank [of i out] msg_rank_pos [of "out ! i"] by simp
next
  case (3 sender receiver origin i g s processed out msg x g' y s' resp)
  then show ?case using drop_rank [of i out] msg_rank_pos [of "out ! i"]
    by (cases resp) (auto dest!: processMessage_response)
qed simp

declare process_responses.simps [simp del]

definition processMessages :: "Graph \<Rightarrow> state \<Rightarrow> Message set \<Rightarrow> u64 \<Rightarrow> u64 \<Rightarrow> BlockID \<Rightarrow> Message list \<Rightarrow>
    (Graph \<times> state \<times> Message set \<times> Message list) res" where
  "processMessages g s processed sender receiver origin msgs =
     bindE (process_given sender receiver origin msgs g s processed [])
       (\<lambda>(g, s, processed, out). process_responses sender receiver origin 0 g s processed out)"

section \<open>Interpreting a block\<close>

definition findOrCreateState :: "entry \<Rightarrow> Graph \<Rightarrow> state" where
  "findOrCreateState e g =
     (if Valid (e_prev e) then clone (map_of (g_statess g) (e_prev e)) (g_round g) else empty_state)"

definition record_delays :: "u64 \<Rightarrow> BlockID list \<Rightarrow> state \<Rightarrow> state" where
  "record_delays round deps s =
     (if deps = [] then s
      else s\<lparr>s_delay := Some (fold (\<lambda>dep. AList.update (Node dep) (diff round (Round dep) * 10)) deps
                (case s_delay s of None \<Rightarrow> [] | Some d \<Rightarrow> d))\<rparr>)"

definition delay_values :: "state \<Rightarrow> u64 list" where
  "delay_values s = map snd (case s_delay s of None \<Rightarrow> [] | Some d \<Rightarrow> d)"

definition timeout_value :: "Graph \<Rightarrow> state \<Rightarrow> u64 res" where
  "timeout_value g s =
     (let vals = delay_values s; tval = 10 in
      if length vals > g_quorum2f1 g then
        (if g_quorum2f g < length vals then
           let xval = sort vals ! g_quorum2f g in Inr (if xval > tval then xval else tval)
         else Inl (Panic ''index out of range''))
      else Inr (fold (\<lambda>val tval. if val > tval then val else tval) vals tval))"

definition schedule_timeouts :: "u64 \<Rightarrow> u64 \<Rightarrow> Graph \<Rightarrow> state \<Rightarrow> Graph \<times> state" where
  "schedule_timeouts tround round g s =
     fold (\<lambda>xnode (g, s). add_timeout tround \<lparr>tNode = xnode, tRound = round, tView = 0\<rparr> g s)
       (g_peers g) (g, s)"

text \<open>The loop over the timeouts of the block's round.\<close>

definition fire_timeout :: "u64 \<Rightarrow> timeout \<Rightarrow> state \<Rightarrow> (state \<times> Message list) res" where
  "fire_timeout node tmout s =
     (if getData s (Final (tNode tmout) (tRound tmout)) \<noteq> None then Inr (s, [])
      else let skey = View (tNode tmout) (tRound tmout) in
        bindE (case getData s skey of None \<Rightarrow> Inr 0 | Some (VU32 v) \<Rightarrow> Inr v
               | Some _ \<Rightarrow> Inl (Panic ''interface conversion'')) (\<lambda>v.
        if v > tView tmout then Inr (s, [])
        else bindE (case getData s (Prepared (tNode tmout) (tRound tmout) (tView tmout)) of
                 None \<Rightarrow> Inr [] | Some (VStr h) \<Rightarrow> Inr h
               | Some _ \<Rightarrow> Inl (Panic ''interface conversion'')) (\<lambda>hval.
          Inr (putData skey (VU32 (v + 1)) s,
               [ViewChange hval (tNode tmout) (tRound tmout) node (tView tmout + 1)]))))"

fun fire_timeouts :: "u64 \<Rightarrow> timeout list \<Rightarrow> state \<Rightarrow> Message list \<Rightarrow> (state \<times> Message list) res" where
  "fire_timeouts node [] s out = Inr (s, out)"
| "fire_timeouts node (tmout # tmouts) s out =
     bindE (fire_timeout node tmout s) (\<lambda>(s', vc). fire_timeouts node tmouts s' (out @ vc))"

text \<open>The loop over the dependencies.\<close>

fun process_deps :: "BlockID \<Rightarrow> BlockID list \<Rightarrow> Graph \<Rightarrow> state \<Rightarrow> Message set \<Rightarrow> Message list \<Rightarrow>
    (Graph \<times> state \<times> Message list) res" where
  "process_deps block [] g s processed out = Inr (g, s, out)"
| "process_deps block (dep # deps) g s processed out =
     bindE (processMessages g s processed (Node dep) (Node block) block
              (getOutput (map_of (g_statess g) dep)))
       (\<lambda>(g', s', processed', new). process_deps block deps g' s' processed' (out @ new))"

definition process :: "entry \<Rightarrow> Graph \<Rightarrow> Graph res" where
  "process ntry g =
     (let s0 = findOrCreateState ntry g;
          node = Node (e_block ntry); round = Round (e_block ntry); hash = Hash (e_block ntry);
          out = [PP (PrePrepare hash node round 0)];
          s1 = record_delays round (e_deps ntry) s0
      in bindE (timeout_value g s1) (\<lambda>tval.
        let (g2, s2) = schedule_timeouts (round + tval) round g (s1\<lparr>s_timeout := tval\<rparr>);
            due = (case map_of (s_timeouts s2) round of None \<Rightarrow> [] | Some sl \<Rightarrow> slice_list (g_slices g2) sl)
        in bindE (fire_timeouts node due s2 out) (\<lambda>(s3, out).
          bindE (processMessages g2 s3 {} node node (e_block ntry) out) (\<lambda>(g4, s4, processed, new).
          bindE (process_deps (e_block ntry) (e_deps ntry) g4 s4 processed (out @ new)) (\<lambda>(g5, s5, out).
          Inr (g5\<lparr>g_statess := AList.update (e_block ntry) (s5\<lparr>s_out := out\<rparr>) (g_statess g5)\<rparr>))))))"

section \<open>The main loop\<close>

text \<open>The comparison of a block's \<open>max\<close> with that of a block it refers to.\<close>

definition link_max :: "Graph \<Rightarrow> BlockID \<Rightarrow> u64 \<times> bool \<Rightarrow> u64 \<times> bool" where
  "link_max g link = (\<lambda>(depMax, rcheck). case map_of (g_max g) link of
       None \<Rightarrow> (depMax, True)
     | Some linkMax \<Rightarrow> (if linkMax > depMax then linkMax else depMax, rcheck))"

definition dep_entry :: "Dep \<Rightarrow> entry" where
  "dep_entry dep = \<lparr>e_block = dBlock dep,
     e_deps = (if Round (dBlock dep) \<noteq> 1 then dPrev dep # dDeps dep else dDeps dep),
     e_prev = dPrev dep\<rparr>"

definition dep_max :: "Graph \<Rightarrow> Dep \<Rightarrow> u64" where
  "dep_max g dep =
     (let a = (Round (dBlock dep), False);
          b = (if Round (dBlock dep) \<noteq> 1 then link_max g (dPrev dep) a else a);
          (depMax, rcheck) = fold (link_max g) (dDeps dep) b
      in if rcheck \<and> g_round g > depMax then g_round g else depMax)"

fun note_deps :: "Dep list \<Rightarrow> u64 \<Rightarrow> Graph \<Rightarrow> u64 \<times> Graph" where
  "note_deps [] mx g = (mx, g)"
| "note_deps (dep # deps) mx g =
     (let depMax = dep_max g dep in
      note_deps deps (if depMax > mx then depMax else mx)
        (g\<lparr>g_max := AList.update (dBlock dep) depMax (g_max g)\<rparr>))"

text \<open>The part of an iteration under the mutex.\<close>

definition note_block :: "BlockGraph \<Rightarrow> Graph \<Rightarrow> Graph" where
  "note_block bg g =
     (let (mx, g1) = note_deps (gDeps bg) (Round (gBlock bg)) g;
          (mx', rcheck) = (if Round (gBlock bg) \<noteq> 1 then link_max g1 (gPrev bg) (mx, False) else (mx, False));
          mx'' = (if rcheck \<and> g_round g > mx' then g_round g else mx')
      in g1\<lparr>g_max := AList.update (gBlock bg) mx'' (g_max g1),
           g_blocks := g_blocks g1 @ [\<lparr>bi_data = bg, bi_max = mx''\<rparr>]\<rparr>)"

definition self_entry :: "BlockGraph \<Rightarrow> entry" where
  "self_entry bg = \<lparr>e_block = gBlock bg, e_deps = gPrev bg # map dBlock (gDeps bg), e_prev = gPrev bg\<rparr>"

definition run_step :: "BlockGraph \<Rightarrow> Graph \<Rightarrow> Graph res" where
  "run_step bg g = foldE process (map dep_entry (gDeps bg) @ [self_entry bg]) (note_block bg g)"

text \<open>
  \<open>New\<close>, with the runtime's growth policy for slices. \<open>len(cfg.Peers) - 1\<close> is -1 without peers, and Go's
  division truncates it to 0, as the subtraction on naturals does. A run of the loop over the block
  graphs that \<open>Add\<close> sends is \<open>run_all\<close>.
\<close>

definition New :: "(nat \<Rightarrow> nat) \<Rightarrow> Config \<Rightarrow> Graph" where
  "New grow cfg =
     (let f = (length (Peers cfg) - 1) div 3 in
      \<lparr>g_blocks = [], g_delivered = [], g_max = [], g_peerCount = length (Peers cfg), g_peers = Peers cfg,
       g_quorumf1 = f + 1, g_quorum2f = 2 * f, g_quorum2f1 = 2 * f + 1, g_resolved = [],
       g_round = LastInterpreted cfg + 1, g_self = SelfID cfg, g_statess = [],
       g_totalNodes = TotalNodes cfg, g_vcs = [], g_slices = [], g_grow = grow\<rparr>)"

definition run_all :: "BlockGraph list \<Rightarrow> Graph \<Rightarrow> Graph res" where
  "run_all bgs g = foldE run_step bgs g"

end
