(* ===== verification/Actions.thy ===== *)
theory Actions
  imports Graph
begin

text \<open>
  The interpreter as a system of atomic actions. \<open>act V\<close> is a step relation on a graph and the state
  of the block being interpreted: one constructor per write the handlers of \<open>graph.go\<close> make, with
  the guards under which they make it; \<open>V\<close> is the set of the nodes that vote. The handlers refine it: each successful call is a sequence
  of actions. Invariants of the interpreter are proved on the actions by rule induction.
\<close>

section \<open>The actions\<close>

inductive act :: "u64 set \<Rightarrow> Graph \<times> state \<Rightarrow> Graph \<times> state \<Rightarrow> bool"
  for V where
  view_zero: "getData s (View n r) = None \<Longrightarrow> act V (g, s) (g, putData (View n r) (VU32 0) s)"
| view_raise: "getData s (View n r) = Some (VU32 v) \<Longrightarrow> v \<le> w \<Longrightarrow>
    act V (g, s) (g, putData (View n r) (VU32 w) s)"
| preprepared: "getData s (PrePrepared n r v) = None \<Longrightarrow>
    act V (g, s) (g, putData (PrePrepared n r v) (VMsg (PrePrepare h n r v)) s)"
| prepared: "getData s (Prepared n r v) = None \<Longrightarrow> nget (s_bitsets s) (PrePrepare h n r v) = Some b \<Longrightarrow>
    prepareCount b = g_quorum2f1 g \<Longrightarrow> act V (g, s) (g, putData (Prepared n r v) (VStr h) s)"
| has_new_view: "getData s (HNV n r v) = None \<Longrightarrow> act V (g, s) (g, putData (HNV n r v) (VBool True) s)"
| vcs_new: "getData s (ViewChanged n r v) = None \<Longrightarrow>
    act V (g, s) (g\<lparr>g_vcs := g_vcs g @ [[]]\<rparr>, putData (ViewChanged n r v) (VVcs (length (g_vcs g))) s)"
| vcs_put: "getData s (ViewChanged n r v) = Some (VVcs a) \<Longrightarrow>
    act V (g, s) (g\<lparr>g_vcs := (g_vcs g)[a := AList.update x h (g_vcs g ! a)]\<rparr>, s)"
| bitset_new: "nget (s_bitsets s) pp = None \<Longrightarrow>
    act V (g, s) (g, putBitset pp (newBitset (g_peerCount g)) s)"
| vote_prepare: "nget (s_bitsets s) pp = Some b \<Longrightarrow> x \<in> V \<Longrightarrow> setPrepare b x = Inr b' \<Longrightarrow>
    act V (g, s) (g, putBitset pp b' s)"
| vote_commit: "nget (s_bitsets s) pp = Some b \<Longrightarrow> x \<in> V \<Longrightarrow> setCommit b x = Inr b' \<Longrightarrow>
    act V (g, s) (g, putBitset pp b' s)"
| timer: "add_timeout k t g s = (g', s') \<Longrightarrow> act V (g, s) (g', s')"
| finalise: "nget (s_final s) (n, r) = None \<Longrightarrow> nget (s_bitsets s) (PrePrepare h n r v) = Some b \<Longrightarrow>
    commitCount b = g_quorum2f1 g \<Longrightarrow>
    act V (g, s) (g, s\<lparr>s_final := nput (n, r) h (s_final s)\<rparr>)"
| deliver_final: "nget (s_final s) (n, r) = Some h \<Longrightarrow> deliver n r h g = Inr g' \<Longrightarrow> act V (g, s) (g', s)"

abbreviation acts :: "u64 set \<Rightarrow> Graph \<times> state \<Rightarrow> Graph \<times> state \<Rightarrow> bool" where
  "acts V \<equiv> (act V)\<^sup>*\<^sup>*"

lemmas acts_step = converse_rtranclp_into_rtranclp [of "act V" for V]

text \<open>The node whose vote a message carries.\<close>

fun voters :: "Message \<Rightarrow> u64 set" where
  "voters (PP _) = {}"
| "voters (Prepare _ _ _ sd _) = {sd}"
| "voters (Commit _ _ _ sd _) = {sd}"
| "voters (ViewChange _ _ _ sd _) = {sd}"
| "voters (NewView _ _ _ sd _) = {sd}"

definition msgs_in :: "u64 set \<Rightarrow> Message list \<Rightarrow> bool" where
  "msgs_in V msgs \<longleftrightarrow> (\<forall>m\<in>set msgs. voters m \<subseteq> V)"

lemma msgs_in_simps [simp]:
  "msgs_in V []" "msgs_in V (m # ms) \<longleftrightarrow> voters m \<subseteq> V \<and> msgs_in V ms"
  "msgs_in V (ms @ ms') \<longleftrightarrow> msgs_in V ms \<and> msgs_in V ms'" "msgs_in UNIV ms"
  by (auto simp: msgs_in_def)

lemma msgs_in_nth: "msgs_in V ms \<Longrightarrow> i < length ms \<Longrightarrow> voters (ms ! i) \<subseteq> V"
  by (simp add: msgs_in_def)

section \<open>The handlers refine the actions\<close>

lemma getBitset_acts:
  assumes "getBitset (g_peerCount g) pp s = (b, s')"
  shows "acts V (g, s) (g, s')" and "nget (s_bitsets s') pp = Some b"
    and "\<And>n r. nget (s_final s') (n, r) = nget (s_final s) (n, r)" and "s_data s' = s_data s"
  using assms
  by (auto simp: getBitset_def Let_def split: option.splits
      intro: r_into_rtranclp bitset_new [unfolded putBitset_def])

lemma nget_putBitset [simp, go_map]:
  "nget (s_bitsets (putBitset pp b s)) pp' = (if pp' = pp then Some b else nget (s_bitsets s) pp')"
  by (simp add: putBitset_def)

lemma getData_not_nil: "getData s k = Some v \<Longrightarrow> s_data s \<noteq> None"
  by (cases "s_data s") auto

lemma getView_acts:
  assumes "getView n r s = Inr (v, s')"
  shows "acts V (g, s) (g, s')" and "getData s' (View n r) = Some (VU32 v)"
  using assms
  by (auto simp: getView_def putData_def split: option.splits sval.splits
      intro: r_into_rtranclp view_zero [unfolded putData_def])

lemma setData_putData: "setData k v s = Inr s' \<Longrightarrow> s' = putData k v s"
  by (auto simp: setData_def putData_def nput_def split: option.splits)

lemma setData_ok: "s_data s \<noteq> None \<Longrightarrow> setData k v s = Inr (putData k v s)"
  by (auto simp: setData_def putData_def nput_def)

lemma onPrePrepare_acts:
  assumes "onPrePrepare g s v sender receiver m = Inr (g', s', resp)" and V: "sender \<in> V" "receiver \<in> V"
  shows "acts V (g, s) (g', s')"
proof (cases "v \<noteq> ppView m \<or> getData s (PrePrepared (ppNode m) (ppRound m) (ppView m)) \<noteq> None")
  case False
  obtain b s1 where b: "getBitset (g_peerCount g) m s = (b, s1)" by fastforce
  with assms False obtain b1 b2 where b12: "setPrepare b sender = Inr b1" "setPrepare b1 receiver = Inr b2"
    and r: "g' = g" "s' = putData (PrePrepared (ppNode m) (ppRound m) (ppView m)) (VMsg m) (putBitset m b2 s1)"
    by (auto simp: onPrePrepare_def Let_def bindE_eq_Inr)
  note gb = getBitset_acts [OF b]
  have "acts V (g, s) (g, s1)" by (rule gb)
  also have "act V (g, s1) (g, putBitset m b1 s1)" using gb b12 V by (intro vote_prepare)
  also have "act V (g, putBitset m b1 s1) (g, putBitset m b2 (putBitset m b1 s1))"
    using b12 V by (intro vote_prepare) auto
  also have "putBitset m b2 (putBitset m b1 s1) = putBitset m b2 s1"
    by (cases "s_bitsets s1") (simp_all add: putBitset_def nput_def)
  also have "act V (g, putBitset m b2 s1) (g', s')"
    using preprepared [of "putBitset m b2 s1" "ppNode m" "ppRound m" "ppView m" V g "ppHash m"] gb False
    by (simp add: r)
  finally show ?thesis .
qed (use assms in \<open>auto simp: onPrePrepare_def Let_def split: if_splits\<close>)

lemma onPrepare_acts:
  assumes "onPrepare g s v receiver pre sd = Inr (g', s', resp)" and V: "sd \<in> V" "receiver \<in> V"
  shows "acts V (g, s) (g', s')"
proof (cases "v > ppView pre")
  case True
  with assms show ?thesis by (auto simp: onPrepare_def)
next
  case False
  obtain b s1 where b: "getBitset (g_peerCount g) pre s = (b, s1)" by fastforce
  with assms False obtain b1 where b1: "setPrepare b sd = Inr b1"
    by (auto simp: onPrepare_def Let_def bindE_eq_Inr)
  note gb = getBitset_acts [OF b]
  have "acts V (g, s) (g, s1)" by (rule gb)
  also have "act V (g, s1) (g, putBitset pre b1 s1)" using gb b1 V by (intro vote_prepare)
  finally have a2: "acts V (g, s) (g, putBitset pre b1 s1)" .
  define s2 where "s2 = putBitset pre b1 s1"
  show ?thesis
  proof (cases "resp")
    case None
    with assms False b b1 a2 show ?thesis
      by (auto simp: onPrepare_def Let_def bindE_eq_Inr split: if_splits)
  next
    case (Some rm)
    with assms False b b1 obtain b2 where b2: "setCommit b1 receiver = Inr b2" "g' = g"
      and count: "prepareCount b1 = g_quorum2f1 g"
      and s': "s' = (let s3 = putBitset pre b2 s2; p = Prepared (ppNode pre) (ppRound pre) (ppView pre)
                 in if getData s3 p = None then putData p (VStr (ppHash pre)) s3 else s3)"
      by (auto simp: onPrepare_def Let_def bindE_eq_Inr s2_def split: if_splits)
    have "act V (g, s2) (g, putBitset pre b2 s2)"
      using b2 V by (intro vote_commit) (auto simp: s2_def)
    moreover have "prepareCount b2 = prepareCount b1"
      using b2 by (auto simp: setCommit_def prepareCount_def bindE_eq_Inr)
    then have "acts V (g, putBitset pre b2 s2) (g', s')"
      using prepared [of "putBitset pre b2 s2" "ppNode pre" "ppRound pre" "ppView pre" "ppHash pre" b2 g] count b2(2)
      by (auto simp: s' Let_def)
    ultimately show ?thesis using a2 by (auto simp: s2_def intro: rtranclp_trans)
  qed
qed

lemma onCommit_acts:
  assumes "onCommit g s v pre sd = Inr (g', s', resp)" and V: "sd \<in> V"
  shows "acts V (g, s) (g', s')"
proof (cases "v < ppView pre")
  case True
  with assms show ?thesis by (auto simp: onCommit_def)
next
  case False
  obtain b s1 where b: "getBitset (g_peerCount g) pre s = (b, s1)" by fastforce
  with assms False obtain b1 where b1: "setCommit b sd = Inr b1"
    by (auto simp: onCommit_def Let_def bindE_eq_Inr)
  define s2 where "s2 = putBitset pre b1 s1"
  note gb = getBitset_acts [OF b]
  have "acts V (g, s) (g, s1)" by (rule gb)
  also have "act V (g, s1) (g, s2)" unfolding s2_def using gb b1 V by (intro vote_commit)
  finally have a2: "acts V (g, s) (g, s2)" .
  show ?thesis
  proof (cases "commitCount b1 \<noteq> g_quorum2f1 g \<or> nget (s_final s2) (ppNode pre, ppRound pre) \<noteq> None")
    case True
    with assms False b b1 a2 show ?thesis
      by (auto simp: onCommit_def Let_def s2_def split: if_splits)
  next
    case not: False
    define s3 where "s3 = s2\<lparr>s_final := nput (ppNode pre, ppRound pre) (ppHash pre) (s_final s2)\<rparr>"
    from assms False b b1 not have d: "deliver (ppNode pre) (ppRound pre) (ppHash pre) g = Inr g'" "s' = s3"
      by (auto simp: onCommit_def Let_def bindE_eq_Inr s2_def s3_def split: if_splits)
    note a2
    also have "act V (g, s2) (g, s3)" unfolding s3_def
      using not by (intro finalise [where b = b1 and v = "ppView pre"]) (auto simp: s2_def)
    also have "act V (g, s3) (g', s')" unfolding d(2)
      using d(1) by (intro deliver_final) (auto simp: s3_def)
    finally show ?thesis .
  qed
qed

lemma onViewChange_acts:
  assumes "onViewChange g s v receiver h n r sd vw = Inr (g', s', resp)"
    and "getData s (View n r) = Some (VU32 v)"
  shows "acts V (g, s) (g', s')"
proof (cases "v > vw")
  case True
  with assms show ?thesis by (auto simp: onViewChange_def)
next
  case False
  with assms(1) obtain a g1 s1 where vcs: "getVcs (ViewChanged n r v) g s = Inr (a, g1, s1)"
    by (auto simp: onViewChange_def bindE_eq_Inr)
  define g2 where "g2 = g1\<lparr>g_vcs := (g_vcs g1)[a := AList.update sd h (g_vcs g1 ! a)]\<rparr>"
  from vcs have a1: "acts V (g, s) (g1, s1)" and key: "getData s1 (ViewChanged n r v) = Some (VVcs a)"
    and vw: "getData s1 (View n r) = Some (VU32 v)"
    using assms(2) vcs_new [of s n r v V g]
    by (auto simp: getVcs_def Let_def split: option.splits sval.splits)
  note a1
  also from vcs_put [OF key] have "act V (g1, s1) (g2, s1)" by (simp add: g2_def)
  finally have a2: "acts V (g, s) (g2, s1)" .
  have "act V (g2, s1) (g2, putData (View n r) (VU32 vw) s1)"
    using vw False by (intro view_raise) auto
  with a2 have a3: "acts V (g, s) (g2, putData (View n r) (VU32 vw) s1)" by (rule rtranclp.rtrancl_into_rtrancl)
  have "(g', s') = (g2, s1) \<or> (g', s') = (g2, putData (View n r) (VU32 vw) s1)"
    using assms(1) vcs False
    by (auto simp: onViewChange_def Let_def bindE_eq_Inr g2_def dest: setData_putData split: if_splits)
  then show ?thesis using a2 a3 by auto
qed

lemma onNewView_acts:
  assumes "onNewView g s v origin h n r vw = Inr (g', s', resp)"
    and "getData s (View n r) = Some (VU32 v)"
  shows "acts V (g, s) (g', s')"
proof (cases "v > vw \<or> getData s (HNV n r vw) \<noteq> None")
  case True
  with assms show ?thesis by (auto simp: onNewView_def Let_def split: if_splits)
next
  case False
  define s2 where "s2 = putData (View n r) (VU32 vw) s"
  obtain g1 s3 where at: "add_timeout (Round origin + s_timeout s + 5)
      \<lparr>tNode = n, tRound = r, tView = vw\<rparr> g s2 = (g1, s3)" by fastforce
  have s3: "s_data s3 = s_data s2" using at by (auto simp: add_timeout_def Let_def split: prod.splits)
  have r: "g' = g1" "s' = putData (HNV n r vw) (VBool True) s3"
    using assms False at getData_not_nil [OF assms(2)]
    by (auto simp: onNewView_def Let_def bindE_eq_Inr setData_ok s2_def [symmetric] dest!: setData_putData)
  have "acts V (g, s) (g, s2)"
    unfolding s2_def using assms(2) False by (intro r_into_rtranclp view_raise) auto
  also have "act V (g, s2) (g1, s3)" by (rule timer [OF at])
  also have "act V (g1, s3) (g', s')" unfolding r
    using False by (intro has_new_view) (simp add: s3, simp add: s2_def)
  finally show ?thesis by simp
qed

lemma processMessage_acts:
  assumes "processMessage g s sender receiver origin msg = Inr (g', s', resp)"
    and "sender \<in> V" "receiver \<in> V" "voters msg \<subseteq> V"
  shows "acts V (g, s) (g', s')"
  using assms(1)
  by (cases rule: processMessage_cases)
    (use assms(2-4) in \<open>auto intro: rtranclp_trans [OF getView_acts(1)]
      dest: onPrePrepare_acts onPrepare_acts onCommit_acts
        onViewChange_acts [OF _ getView_acts(2)] onNewView_acts [OF _ getView_acts(2)]\<close>)

lemma processMessage_voters:
  assumes "processMessage g s sender receiver origin msg = Inr (g', s', Some resp)" and "receiver \<in> V"
  shows "voters resp \<subseteq> V"
  using assms(1)
  by (cases rule: processMessage_cases)
    (use assms(2) in \<open>auto dest!: onPrePrepare_resp onPrepare_resp onCommit_resp onViewChange_resp onNewView_resp\<close>)

lemma processMessages_Nil [simp]:
  "processMessages g s processed sender receiver origin [] = Inr (g, s, processed, [])"
  by (simp add: processMessages_def process_responses.simps)

section \<open>The message loops refine the actions\<close>

lemma process_given_acts:
  assumes "sender \<in> V" "receiver \<in> V"
  shows "process_given sender receiver origin msgs g s processed out = Inr (g', s', processed', out') \<Longrightarrow>
   msgs_in V msgs \<Longrightarrow> msgs_in V out \<Longrightarrow> acts V (g, s) (g', s') \<and> msgs_in V out'"
proof (induction msgs arbitrary: g s processed out)
  case (Cons msg msgs)
  show ?case
  proof (cases "msg \<in> processed")
    case True
    with Cons show ?thesis by auto
  next
    case False
    with Cons.prems obtain g1 s1 resp where
      pm: "processMessage g s sender receiver origin msg = Inr (g1, s1, resp)"
      and rest: "process_given sender receiver origin msgs g1 s1 (insert msg processed)
        (case resp of None \<Rightarrow> out | Some r \<Rightarrow> out @ [r]) = Inr (g', s', processed', out')"
      by (auto simp: bindE_eq_Inr)
    have "acts V (g, s) (g1, s1)" using processMessage_acts [OF pm assms] Cons.prems by simp
    moreover have "msgs_in V (case resp of None \<Rightarrow> out | Some r \<Rightarrow> out @ [r])"
      using Cons.prems processMessage_voters [OF _ assms(2)] pm by (cases resp) auto
    ultimately show ?thesis using Cons.IH [OF rest] Cons.prems by auto
  qed
qed simp

lemma process_responses_acts:
  assumes "sender \<in> V" "receiver \<in> V"
  shows "process_responses sender receiver origin i g s processed out = Inr (g', s', processed', out') \<Longrightarrow>
   msgs_in V out \<Longrightarrow> acts V (g, s) (g', s') \<and> msgs_in V out'"
  using assms
proof (induction sender receiver origin i g s processed out rule: process_responses.induct)
  case (1 sender receiver origin i g s processed out)
  note step = process_responses.simps [of sender receiver origin i g s processed out]
  show ?case
  proof (cases "i < length out")
    case False
    with 1 step show ?thesis by simp
  next
    case len: True
    show ?thesis
    proof (cases "out ! i \<in> processed")
      case True
      with len 1(1) [OF len refl True] 1(3-) step show ?thesis by simp
    next
      case False
      with len 1(3) step obtain g1 s1 resp where
        pm: "processMessage g s sender receiver origin (out ! i) = Inr (g1, s1, resp)"
        and rest: "process_responses sender receiver origin (Suc i) g1 s1 (insert (out ! i) processed)
           (case resp of None \<Rightarrow> out | Some r \<Rightarrow> out @ [r]) = Inr (g', s', processed', out')"
        by (auto simp: bindE_eq_Inr Let_def)
      have "msgs_in V (case resp of None \<Rightarrow> out | Some r \<Rightarrow> out @ [r])"
        using 1(4,6) processMessage_voters pm by (cases resp) auto
      from 1(2) [OF len refl False pm refl refl rest this 1(5,6)]
        processMessage_acts [OF pm 1(5,6) msgs_in_nth [OF 1(4) len]]
      show ?thesis by auto
    qed
  qed
qed

lemma processMessages_acts:
  assumes "processMessages g s processed sender receiver origin msgs = Inr (g', s', processed', out)"
    and "sender \<in> V" "receiver \<in> V" "msgs_in V msgs"
  shows "acts V (g, s) (g', s') \<and> msgs_in V out"
  using assms
  by (auto simp: processMessages_def bindE_eq_Inr
    dest!: process_given_acts [rotated 2] process_responses_acts [rotated 2] intro: rtranclp_trans)

text \<open>The stored states belong to blocks of \<open>V\<close>, and their outputs carry votes of \<open>V\<close> only.\<close>

definition outs_in :: "u64 set \<Rightarrow> Graph \<Rightarrow> bool" where
  "outs_in V g \<longleftrightarrow> (\<forall>b s. map_of (g_statess g) b = Some s \<longrightarrow> Node b \<in> V \<and> msgs_in V (s_out s))"

lemma outs_in_UNIV [simp]: "outs_in UNIV g"
  by (simp add: outs_in_def)

lemma outs_in_le: "outs_in V g \<Longrightarrow> map_of (g_statess g') \<subseteq>\<^sub>m map_of (g_statess g) \<Longrightarrow> outs_in V g'"
  unfolding outs_in_def map_le_def dom_def by (metis (mono_tags) mem_Collect_eq option.simps(3))

lemma schedule_timeouts_acts:
  assumes "schedule_timeouts tround round g s = (g', s')"
  shows "acts V (g, s) (g', s')"
proof -
  have "fold (\<lambda>xnode (g, s). add_timeout tround \<lparr>tNode = xnode, tRound = round, tView = 0\<rparr> g s) ps (g, s) = (g', s')
    \<Longrightarrow> acts V (g, s) (g', s')" for ps
  proof (induction ps arbitrary: g s)
    case (Cons p ps)
    obtain g1 s1 where "add_timeout tround \<lparr>tNode = p, tRound = round, tView = 0\<rparr> g s = (g1, s1)" by fastforce
    with Cons show ?case by (auto intro: acts_step [OF timer])
  qed simp
  with assms show ?thesis by (simp add: schedule_timeouts_def)
qed

lemma fire_timeouts_voters:
  "fire_timeouts node tms s out = Inr (s', out') \<Longrightarrow> node \<in> V \<Longrightarrow> msgs_in V out \<Longrightarrow> msgs_in V out'"
  by (induction tms arbitrary: s out)
    (auto simp: bindE_eq_Inr fire_timeout_def Let_def split: if_splits)

end
