(* ===== verification/GraphInv.thy ===== *)
theory GraphInv
  imports Actions
begin

text \<open>
  Two kinds of invariants of the interpreter, each a locale: \<open>graph_invariant\<close> for the delivery
  part of a \<open>Graph\<close>, and \<open>state_invariant\<close> for the states attached to the blocks. An instance is
  checked against the actions (and \<open>deliver\<close>); the locales carry it over \<open>processMessages\<close>,
  \<open>process\<close> and the main loop.
\<close>

section \<open>What delivery keeps\<close>

lemma deliver_one_forgets:
  assumes "deliver_one round hashes g = Inr g'"
  shows "map_of (g_statess g') \<subseteq>\<^sub>m map_of (g_statess g)"
    "g_vcs g' = g_vcs g" "g_slices g' = g_slices g" "g_peerCount g' = g_peerCount g"
    "g_quorum2f1 g' = g_quorum2f1 g" "g_quorum2f g' = g_quorum2f g"
  using assms
  by (auto simp: deliver_one_def Let_def forgets_def split: list.splits prod.splits
    dest!: consume_blocks_forgets simp del: consume_blocks.simps)

text \<open>The heaps of shared objects only grow, and the parameters of the graph are constant.\<close>

definition heap_le :: "Graph \<Rightarrow> Graph \<Rightarrow> bool" where
  "heap_le g g' \<longleftrightarrow> g_peerCount g' = g_peerCount g \<and> g_quorum2f1 g' = g_quorum2f1 g \<and>
     length (g_vcs g) \<le> length (g_vcs g') \<and> (\<forall>sl. slice_ok (g_slices g) sl \<longrightarrow> slice_ok (g_slices g') sl)"

lemma heap_le_refl [simp]: "heap_le g g"
  by (simp add: heap_le_def)

lemma heap_le_trans [trans]: "heap_le g g' \<Longrightarrow> heap_le g' g'' \<Longrightarrow> heap_le g g''"
  by (auto simp: heap_le_def)

definition evolves :: "Graph \<Rightarrow> Graph \<Rightarrow> bool" where
  "evolves g g' \<longleftrightarrow> heap_le g g' \<and> map_of (g_statess g') \<subseteq>\<^sub>m map_of (g_statess g)"

lemma evolves_refl [simp]: "evolves g g"
  by (simp add: evolves_def)

lemma evolves_trans [trans]: "evolves g g' \<Longrightarrow> evolves g' g'' \<Longrightarrow> evolves g g''"
  by (auto simp: evolves_def intro: heap_le_trans map_le_trans)

text \<open>A property that every delivered round keeps is kept by \<open>deliver\<close>.\<close>

lemma deliverRound_keeps:
  assumes "\<And>round hashes g g'. P g \<Longrightarrow> deliver_one round hashes g = Inr g' \<Longrightarrow> P g'"
  shows "P g \<Longrightarrow> deliverRound round hashes g = Inr g' \<Longrightarrow> P g'"
proof (induction round hashes g rule: deliverRound.induct)
  case (1 round hashes g)
  then obtain g1 where g1: "deliver_one round hashes g = Inr g1"
    by (auto simp: deliverRound.simps [of round] bindE_eq_Inr)
  have "P g1" by (rule assms [OF 1(2) g1])
  with 1(1) [OF g1] 1(3) g1 show ?case
    by (auto simp: deliverRound.simps [of round] split: option.splits if_splits)
qed

lemma deliver_keeps:
  assumes one: "\<And>round hashes g g'. P g \<Longrightarrow> deliver_one round hashes g = Inr g' \<Longrightarrow> P g'"
    and upd: "\<And>g x. P g \<Longrightarrow> P (g\<lparr>g_resolved := x\<rparr>)"
    and g: "P g" and d: "deliver n r h g = Inr g'"
  shows "P g'"
proof (cases "r < g_round g")
  case True
  with g d show ?thesis by (simp add: deliver_def)
next
  case False
  with d obtain hashes where "(let g1 = g\<lparr>g_resolved := AList.update r hashes (g_resolved g)\<rparr> in
      if r \<noteq> g_round g1 then Inr g1 else if length hashes = g_peerCount g1 then deliverRound r hashes g1
      else Inr g1) = Inr g'"
    unfolding deliver_def if_not_P [OF False] bindE_eq_Inr by blast
  moreover have "deliverRound r hashes (g\<lparr>g_resolved := AList.update r hashes (g_resolved g)\<rparr>) = Inr g' \<Longrightarrow> P g'"
    by (rule deliverRound_keeps [where P = P, OF one upd [OF g]])
  ultimately show ?thesis using upd [OF g] by (auto simp: Let_def split: if_splits)
qed

lemma deliver_evolves:
  assumes "deliver n r h g = Inr g'"
  shows "evolves g g'"
  by (rule deliver_keeps [where P = "evolves g", OF _ _ _ assms])
    (auto simp: evolves_def heap_le_def dest: deliver_one_forgets intro: map_le_trans)

lemma add_timeout_evolves:
  assumes "add_timeout k t g s = (g', s')"
  shows "evolves g g'"
proof -
  obtain h sl' where sa: "slice_append (g_grow g) \<lparr>tNode = 0, tRound = 0, tView = 0\<rparr> (g_slices g)
      (case map_of (s_timeouts s) k of None \<Rightarrow> NilSlice | Some sl \<Rightarrow> sl) t = (h, sl')" by fastforce
  with assms have "g' = g\<lparr>g_slices := h\<rparr>" by (auto simp: add_timeout_def Let_def simp del: slice_append.simps)
  with slice_append_keeps_ok [OF sa] show ?thesis by (auto simp: evolves_def heap_le_def)
qed

lemma act_evolves: "act V (g, s) (g', s') \<Longrightarrow> evolves g g'"
  by (erule act.cases) (auto simp: evolves_def heap_le_def
    dest!: deliver_evolves [unfolded evolves_def heap_le_def] add_timeout_evolves [unfolded evolves_def heap_le_def])

lemma acts_evolves: "acts V (g, s) (g', s') \<Longrightarrow> evolves g g'"
proof (induction rule: rtranclp_induct2)
  case (step g1 s1 g2 s2)
  then show ?case by (auto dest: act_evolves intro: evolves_trans)
qed simp

section \<open>Invariants of the states\<close>

definition same_content :: "state \<Rightarrow> state \<Rightarrow> bool" where
  "same_content s s' \<longleftrightarrow> s_bitsets s' = s_bitsets s \<and> s_data s' = s_data s \<and> s_final s' = s_final s \<and>
     s_timeouts s' = s_timeouts s"

definition all_states :: "(Graph \<Rightarrow> state \<Rightarrow> bool) \<Rightarrow> Graph \<Rightarrow> bool" where
  "all_states I g \<longleftrightarrow> (\<forall>b s. map_of (g_statess g) b = Some s \<longrightarrow> I g s)"

lemma note_deps_frame:
  "note_deps deps mx g = (mx', g') \<Longrightarrow> \<exists>m. g' = g\<lparr>g_max := m\<rparr>"
proof (induction deps arbitrary: mx g)
  case Nil
  then show ?case by (auto intro: exI [of _ "g_max g"])
next
  case (Cons dep deps)
  then show ?case by (fastforce simp: Let_def)
qed

lemma note_block_frame: "\<exists>m mx. note_block bg g =
    g\<lparr>g_max := m, g_blocks := g_blocks g @ [\<lparr>bi_data = bg, bi_max = mx\<rparr>]\<rparr>"
proof -
  obtain mx g1 where "note_deps (gDeps bg) (Round (gBlock bg)) g = (mx, g1)" by fastforce
  with note_deps_frame [OF this] show ?thesis
    by (fastforce simp: note_block_def Let_def split: prod.splits)
qed

lemma note_block_evolves: "evolves g (note_block bg g)"
proof -
  obtain m mx where "note_block bg g = g\<lparr>g_max := m, g_blocks := g_blocks g @ [\<lparr>bi_data = bg, bi_max = mx\<rparr>]\<rparr>"
    using note_block_frame by blast
  then show ?thesis by (simp add: evolves_def heap_le_def)
qed

lemma process_deps_acts:
  assumes "process_deps block deps g s processed out = Inr (g', s', out')"
    and "Node block \<in> V" "outs_in V g" "msgs_in V out"
  shows "acts V (g, s) (g', s') \<and> msgs_in V out'"
  using assms
proof (induction deps arbitrary: g s processed out)
  case (Cons dep deps)
  let ?msgs = "getOutput (map_of (g_statess g) dep)"
  from Cons.prems obtain g1 s1 processed1 new where
    pm: "processMessages g s processed (Node dep) (Node block) block ?msgs = Inr (g1, s1, processed1, new)"
    and rest: "process_deps block deps g1 s1 processed1 (out @ new) = Inr (g', s', out')"
    by (auto simp: bindE_eq_Inr)
  have a: "acts V (g, s) (g1, s1) \<and> msgs_in V new"
  proof (cases "map_of (g_statess g) dep")
    case None
    with pm show ?thesis by (simp add: getOutput_def)
  next
    case (Some sd)
    with Cons.prems(3) have "Node dep \<in> V" "msgs_in V ?msgs" by (auto simp: outs_in_def getOutput_def)
    with processMessages_acts [OF pm] Cons.prems(2) show ?thesis by blast
  qed
  then have "outs_in V g1"
    using Cons.prems(3) by (blast dest: acts_evolves [unfolded evolves_def] intro: outs_in_le)
  with Cons.IH [OF rest Cons.prems(2)] a Cons.prems(4) show ?case by auto
qed simp

text \<open>The stages of a successful \<open>process\<close>.\<close>

lemma process_stages:
  assumes "process e g = Inr g'" and V: "Node (e_block e) \<in> V" "outs_in V g"
  obtains s1 tval g2 s2 s3 out3 g4 s4 processed new g5 s5 out due where
    "s1 = (record_delays (Round (e_block e)) (e_deps e) (findOrCreateState e g))\<lparr>s_timeout := tval\<rparr>"
    "schedule_timeouts (Round (e_block e) + tval) (Round (e_block e)) g s1 = (g2, s2)"
    "fire_timeouts (Node (e_block e)) due s2
        [PP (PrePrepare (Hash (e_block e)) (Node (e_block e)) (Round (e_block e)) 0)] = Inr (s3, out3)"
    "processMessages g2 s3 {} (Node (e_block e)) (Node (e_block e)) (e_block e) out3 = Inr (g4, s4, processed, new)"
    "process_deps (e_block e) (e_deps e) g4 s4 processed (out3 @ new) = Inr (g5, s5, out)"
    "acts V (g, s1) (g2, s2)" "acts V (g2, s3) (g4, s4)" "acts V (g4, s4) (g5, s5)" "msgs_in V out"
    "g' = g5\<lparr>g_statess := AList.update (e_block e) (s5\<lparr>s_out := out\<rparr>) (g_statess g5)\<rparr>"
proof -
  let ?s = "record_delays (Round (e_block e)) (e_deps e) (findOrCreateState e g)"
  from assms(1) obtain tval where tv: "timeout_value g ?s = Inr tval"
    by (auto simp: process_def Let_def bindE_eq_Inr)
  obtain g2 s2 where sched: "schedule_timeouts (Round (e_block e) + tval) (Round (e_block e)) g
      (?s\<lparr>s_timeout := tval\<rparr>) = (g2, s2)" by fastforce
  from assms(1) tv sched obtain due s3 out3 g4 s4 processed new g5 s5 out where
    fire: "fire_timeouts (Node (e_block e)) due s2
        [PP (PrePrepare (Hash (e_block e)) (Node (e_block e)) (Round (e_block e)) 0)] = Inr (s3, out3)"
    and own: "processMessages g2 s3 {} (Node (e_block e)) (Node (e_block e)) (e_block e) out3 = Inr (g4, s4, processed, new)"
    and deps: "process_deps (e_block e) (e_deps e) g4 s4 processed (out3 @ new) = Inr (g5, s5, out)"
    and g': "g' = g5\<lparr>g_statess := AList.update (e_block e) (s5\<lparr>s_out := out\<rparr>) (g_statess g5)\<rparr>"
    by (auto simp: process_def Let_def bindE_eq_Inr)
  have "msgs_in V out3" using fire_timeouts_voters [OF fire V(1)] by simp
  with processMessages_acts [OF own V(1,1)] have a: "acts V (g2, s3) (g4, s4)" and "msgs_in V (out3 @ new)" by auto
  moreover have "outs_in V g4"
    using V(2) acts_evolves [OF schedule_timeouts_acts [OF sched]] acts_evolves [OF a]
    by (auto simp: evolves_def intro: outs_in_le)
  ultimately have "acts V (g4, s4) (g5, s5) \<and> msgs_in V out" using process_deps_acts [OF deps V(1)] by blast
  with that [OF refl sched fire own deps schedule_timeouts_acts [OF sched] a _ _ g'] show ?thesis by blast
qed

definition bg_in :: "u64 set \<Rightarrow> BlockGraph \<Rightarrow> bool" where
  "bg_in V bg \<longleftrightarrow> Node (gBlock bg) \<in> V \<and> (\<forall>d\<in>set (gDeps bg). Node (dBlock d) \<in> V)"

lemma bg_in_UNIV [simp]: "bg_in UNIV bg"
  by (simp add: bg_in_def)

lemma process_outs_in:
  assumes "process e g = Inr g'" and V: "Node (e_block e) \<in> V" "outs_in V g"
  shows "outs_in V g'"
  using assms
proof (cases rule: process_stages)
  case (1 s1 tval g2 s2 s3 out3 g4 s4 processed new g5 s5 out due)
  have "outs_in V g5"
    using V(2) 1(6-8) by (blast dest: acts_evolves [unfolded evolves_def] intro: outs_in_le)
  with 1(9,10) V(1) show ?thesis by (auto simp: outs_in_def split: if_splits)
qed


locale state_invariant =
  fixes V :: "u64 set"
    and I :: "Graph \<Rightarrow> state \<Rightarrow> bool"
  assumes empty_I: "I g empty_state"
    and clone_I: "I g s \<Longrightarrow> I g (clone (Some s) r)"
    and act_I: "I g s \<Longrightarrow> act V (g, s) (g', s') \<Longrightarrow> I g' s'"
    and view_I: "I g s \<Longrightarrow> I g (putData (View n r) (VU32 w) s)"
    and content_I: "I g s \<Longrightarrow> same_content s s' \<Longrightarrow> I g s'"
    and grow_I: "I g s \<Longrightarrow> heap_le g g' \<Longrightarrow> I g' s"
begin

lemma acts_I: "acts V (g, s) (g', s') \<Longrightarrow> I g s \<Longrightarrow> I g' s'"
proof (induction rule: rtranclp_induct2)
  case (step g1 s1 g2 s2)
  then show ?case by (auto dest: act_I)
qed simp

lemma fire_timeouts_I: "fire_timeouts node tms s out = Inr (s', out') \<Longrightarrow> I g s \<Longrightarrow> I g s'"
  by (induction tms arbitrary: s out)
    (auto simp: bindE_eq_Inr fire_timeout_def Let_def view_I split: if_splits)

lemma find_I:
  assumes "\<forall>b s. map_of (g_statess g) b = Some s \<longrightarrow> I g s"
  shows "I g (findOrCreateState e g)"
proof (cases "map_of (g_statess g) (e_prev e)")
  case None
  have "clone None r = empty_state" for r by (simp add: clone_def)
  with None show ?thesis by (simp add: findOrCreateState_def empty_I)
qed (use assms in \<open>auto simp: findOrCreateState_def empty_I clone_I\<close>)

lemma stored_evolves: "all_states I g \<Longrightarrow> evolves g g' \<Longrightarrow> all_states I g'"
  unfolding all_states_def evolves_def map_le_def dom_def
  by (metis (mono_tags) grow_I mem_Collect_eq option.simps(3))

lemma process_I:
  assumes "all_states I g \<and> outs_in V g" and "process e g = Inr g'" and V: "Node (e_block e) \<in> V"
  shows "all_states I g' \<and> outs_in V g'"
proof -
  have "outs_in V g" using assms(1) ..
  from assms(2) V this have "all_states I g'"
  proof (cases rule: process_stages)
    case (1 s1 tval g2 s2 s3 out3 g4 s4 processed new g5 s5 out due)
    have "same_content (findOrCreateState e g) s1"
      by (simp add: 1(1) record_delays_def same_content_def)
    with find_I assms(1) have "I g s1" by (auto simp: all_states_def intro: content_I)
    with 1(6) have "I g2 s2" by (rule acts_I)
    with 1(3) have "I g2 s3" by (rule fire_timeouts_I)
    with 1(7,8) have "I g5 s5" by (blast intro: acts_I)
    then have "I g5 (s5\<lparr>s_out := out\<rparr>)" by (rule content_I) (simp add: same_content_def)
    moreover have "all_states I g5"
      using assms(1) 1(6-8) by (blast dest: acts_evolves intro: stored_evolves)
    moreover have "heap_le g5 g'" by (simp add: 1(10) heap_le_def)
    ultimately show ?thesis by (auto simp: all_states_def 1(10) split: if_splits dest: grow_I [of g5])
  qed
  with process_outs_in [OF assms(2) V] assms(1) show ?thesis by blast
qed

lemma note_block_I: "all_states I g \<and> outs_in V g \<Longrightarrow> all_states I (note_block bg g) \<and> outs_in V (note_block bg g)"
  using note_block_evolves [of g bg] by (auto intro: stored_evolves outs_in_le simp: evolves_def)

lemma run_step_I:
  assumes "all_states I g \<and> outs_in V g" and "run_step bg g = Inr g'" and "bg_in V bg"
  shows "all_states I g' \<and> outs_in V g'"
proof -
  have "loop_invariant process (\<lambda>e. Node (e_block e) \<in> V) (\<lambda>g. all_states I g \<and> outs_in V g)"
    by unfold_locales (rule process_I)
  from loop_invariant.foldE_inv [OF this note_block_I [OF assms(1)] _ assms(2) [unfolded run_step_def]] assms(3)
  show ?thesis by (auto simp: bg_in_def dep_entry_def self_entry_def)
qed

lemma run_all_I:
  assumes "run_all bgs (New grow cfg) = Inr g" and "\<forall>bg\<in>set bgs. bg_in V bg"
  shows "all_states I g \<and> outs_in V g"
proof -
  have "loop_invariant run_step (bg_in V) (\<lambda>g. all_states I g \<and> outs_in V g)"
    by unfold_locales (rule run_step_I)
  moreover have "all_states I (New grow cfg) \<and> outs_in V (New grow cfg)"
    by (simp add: all_states_def outs_in_def New_def Let_def)
  ultimately show ?thesis using assms by (auto simp: run_all_def dest: loop_invariant.foldE_inv)
qed

end

section \<open>Invariants of the delivery\<close>

text \<open>What interpreting entries keeps, and, with the law for noting a block, what the main loop keeps.\<close>

locale entry_invariant =
  fixes P :: "Graph \<Rightarrow> bool"
  assumes heap_P: "P g \<Longrightarrow> P (g\<lparr>g_vcs := x\<rparr>)" "P g \<Longrightarrow> P (g\<lparr>g_slices := y\<rparr>)"
      "P g \<Longrightarrow> P (g\<lparr>g_statess := z\<rparr>)"
    and deliver_P: "P g \<Longrightarrow> deliver n r h g = Inr g' \<Longrightarrow> P g'"
begin

lemma act_P: "act V (g, s) (g', s') \<Longrightarrow> P g \<Longrightarrow> P g'"
  by (erule act.cases)
    (auto simp: add_timeout_def Let_def intro: heap_P deliver_P simp del: slice_append.simps split: prod.splits)

lemma acts_P: "acts V (g, s) (g', s') \<Longrightarrow> P g \<Longrightarrow> P g'"
proof (induction rule: rtranclp_induct2)
  case (step g1 s1 g2 s2)
  then show ?case by (auto dest: act_P)
qed simp

lemma process_P:
  assumes "P g" and "process e g = Inr g'"
  shows "P g'"
  using assms(2) UNIV_I outs_in_UNIV
proof (cases rule: process_stages)
  case (1 s1 tval g2 s2 s3 out3 g4 s4 processed new g5 s5 out due)
  then show ?thesis using assms(1) by (auto intro!: heap_P(3) dest!: acts_P)
qed

lemma run_step_from_noted:
  assumes "P (note_block bg g)" and "run_step bg g = Inr g'"
  shows "P g'"
proof -
  have "loop_invariant process (\<lambda>_. True) P" by unfold_locales (rule process_P)
  from loop_invariant.foldE_inv [OF this assms(1)] assms(2) show ?thesis by (simp add: run_step_def)
qed

end

locale graph_invariant = entry_invariant +
  assumes note_P: "P g \<Longrightarrow> P (note_block bg g)"
begin

lemma run_step_P: "P g \<Longrightarrow> run_step bg g = Inr g' \<Longrightarrow> P g'"
  by (rule run_step_from_noted [OF note_P])

lemma run_all_P:
  assumes "P g" and "run_all bgs g = Inr g'"
  shows "P g'"
proof -
  have "loop_invariant run_step (\<lambda>_. True) P" by unfold_locales (rule run_step_P)
  with assms show ?thesis by (auto simp: run_all_def dest: loop_invariant.foldE_inv)
qed

end

end
