(* ===== verification/Samples.thy ===== *)
theory Samples
  imports Graph
begin

text \<open>
  Two concrete runs of the interpreter, evaluated once and shared: a network of one node that
  interprets its first block, and one that sees two different blocks of the same round.
\<close>

definition solo :: Config where
  "solo = \<lparr>LastInterpreted = 0, Peers = [1], SelfID = 1, TotalNodes = 1\<rparr>"

definition solo_block :: "bytes \<Rightarrow> u64 \<Rightarrow> BlockGraph" where
  "solo_block h r = \<lparr>gBlock = \<lparr>Hash = h, Node = 1, Round = r\<rparr>, gDeps = [], gPrev = zeroID\<rparr>"

definition solo_run :: "Graph res" where
  "solo_run = run_all [solo_block [7] 1] (New (\<lambda>n. n) solo)"

definition solo_state :: "Graph \<Rightarrow> state option" where
  "solo_state g = map_of (g_statess g) \<lparr>Hash = [7], Node = 1, Round = 1\<rparr>"

lemma solo_run_values:
  "(case solo_run of Inl e \<Rightarrow> False | Inr g \<Rightarrow>
     (case solo_state g of None \<Rightarrow> False
      | Some s \<Rightarrow> nget (s_final s) (1, 1) = Some [7] \<and> Prepare [7] 1 1 1 0 \<in> set (s_out s)) \<and>
     g_delivered g = [\<lparr>iBlocks = [\<lparr>Hash = [7], Node = 1, Round = 1\<rparr>], iConsumed = 1, iRound = 1\<rparr>] \<and>
     g_blocks g = [])"
  by code_simp

lemma solo_run_ok:
  "\<exists>g s. run_all [solo_block [7] 1] (New (\<lambda>n. n) solo) = Inr g \<and>
     map_of (g_statess g) \<lparr>Hash = [7], Node = 1, Round = 1\<rparr> = Some s \<and>
     nget (s_final s) (1, 1) = Some [7] \<and> Prepare [7] 1 1 1 0 \<in> set (s_out s) \<and>
     g_delivered g = [\<lparr>iBlocks = [\<lparr>Hash = [7], Node = 1, Round = 1\<rparr>], iConsumed = 1, iRound = 1\<rparr>] \<and>
     g_blocks g = []"
  using solo_run_values by (auto simp: solo_run_def solo_state_def split: sum.splits option.splits)

lemma solo_fork_value:
  "(case run_all [solo_block [7] 3, solo_block [8] 3] (New (\<lambda>n. n) solo) of
      Inl e \<Rightarrow> e = Fatal ''Mismatching block hash for delivery'' | Inr g \<Rightarrow> False)"
  by code_simp

lemma solo_fork:
  "run_all [solo_block [7] 3, solo_block [8] 3] (New (\<lambda>n. n) solo) =
     Inl (Fatal ''Mismatching block hash for delivery'')"
  using solo_fork_value by (auto split: sum.splits)

text \<open>A block of round 3, which stays undelivered, and its successor.\<close>

definition chain_entry :: entry where
  "chain_entry = \<lparr>e_block = \<lparr>Hash = [9], Node = 1, Round = 4\<rparr>,
     e_deps = [\<lparr>Hash = [7], Node = 1, Round = 3\<rparr>], e_prev = \<lparr>Hash = [7], Node = 1, Round = 3\<rparr>\<rparr>"

lemma chain_values:
  "(case run_all [solo_block [7] 3] (New (\<lambda>n. n) solo) of Inl e \<Rightarrow> False | Inr g \<Rightarrow>
     (case map_of (g_statess g) \<lparr>Hash = [7], Node = 1, Round = 3\<rparr> of None \<Rightarrow> False
      | Some s \<Rightarrow> Prepare [7] 1 3 1 0 \<in> set (s_out s)) \<and> g_round g = 1 \<and>
     (case process chain_entry g of Inl e \<Rightarrow> False | Inr g' \<Rightarrow>
        (case map_of (g_statess g') \<lparr>Hash = [9], Node = 1, Round = 4\<rparr> of None \<Rightarrow> False | Some s' \<Rightarrow> True)))"
  by code_simp

lemma chain_ok:
  "\<exists>g g' s s'. run_all [solo_block [7] 3] (New (\<lambda>n. n) solo) = Inr g \<and> process chain_entry g = Inr g' \<and>
     map_of (g_statess g) (e_prev chain_entry) = Some s \<and> Prepare [7] 1 3 1 0 \<in> set (s_out s) \<and>
     g_round g = 1 \<and> map_of (g_statess g') (e_block chain_entry) = Some s'"
  using chain_values by (auto simp: chain_entry_def split: sum.splits option.splits)

end
