(* ===== verification/Consensus.thy ===== *)
theory Consensus
  imports GraphInv Samples
begin

text \<open>
  The invariants of the states of the interpreter: the values under each kind of key have the
  type the handlers assert, the heaps have no dangling reference, the vote sets have one size,
  and what a state has finalised or prepared is backed by a quorum of distinct senders.
\<close>

section \<open>Types of the stored values\<close>

fun val_ok :: "nat \<Rightarrow> StateData \<Rightarrow> sval \<Rightarrow> bool" where
  "val_ok n (View _ _) (VU32 _) \<longleftrightarrow> True"
| "val_ok n (Prepared _ _ _) (VStr _) \<longleftrightarrow> True"
| "val_ok n (PrePrepared nd r v) (VMsg m) \<longleftrightarrow> ppNode m = nd \<and> ppRound m = r \<and> ppView m = v"
| "val_ok n (HNV _ _ _) (VBool b) \<longleftrightarrow> b"
| "val_ok n (ViewChanged _ _ _) (VVcs a) \<longleftrightarrow> a < n"
| "val_ok n _ _ \<longleftrightarrow> False"

definition typed :: "Graph \<Rightarrow> state \<Rightarrow> bool" where
  "typed g s \<longleftrightarrow> (\<forall>k v. getData s k = Some v \<longrightarrow> val_ok (length (g_vcs g)) k v) \<and>
     (\<forall>k sl. map_of (s_timeouts s) k = Some sl \<longrightarrow> slice_ok (g_slices g) sl)"

lemma val_ok_mono: "val_ok n k v \<Longrightarrow> n \<le> n' \<Longrightarrow> val_ok n' k v"
  by (induction n k v rule: val_ok.induct) auto

lemma val_ok_simps:
  "val_ok n (View nd r) x \<longleftrightarrow> (\<exists>v. x = VU32 v)" "val_ok n (Prepared nd r w) x \<longleftrightarrow> (\<exists>h. x = VStr h)"
  "val_ok n (ViewChanged nd r w) x \<longleftrightarrow> (\<exists>a. x = VVcs a \<and> a < n)" "\<not> val_ok n (Final nd r) x"
  by (cases x; auto)+

lemma typed_value: "typed g s \<Longrightarrow> getData s k = Some x \<Longrightarrow> val_ok (length (g_vcs g)) k x"
  by (simp add: typed_def)

lemma typed_grow: "typed g s \<Longrightarrow> heap_le g g' \<Longrightarrow> typed g' s"
  by (auto simp: typed_def heap_le_def intro: val_ok_mono)

lemma typed_putData: "typed g s \<Longrightarrow> val_ok (length (g_vcs g)) k v \<Longrightarrow> typed g (putData k v s)"
  by (auto simp: typed_def split: if_splits)

lemma typed_content:
  "typed g s \<Longrightarrow> s_data s' = s_data s \<Longrightarrow> s_timeouts s' = s_timeouts s \<Longrightarrow> typed g s'"
  by (simp add: typed_def)

lemma typed_timer:
  assumes "typed g s" and "add_timeout k t g s = (g', s')"
  shows "typed g' s'"
proof -
  let ?sl = "case map_of (s_timeouts s) k of None \<Rightarrow> NilSlice | Some sl \<Rightarrow> sl"
  obtain h sl' where sa: "slice_append (g_grow g) \<lparr>tNode = 0, tRound = 0, tView = 0\<rparr> (g_slices g) ?sl t = (h, sl')"
    by fastforce
  with assms(2) have r: "g' = g\<lparr>g_slices := h\<rparr>" "s' = s\<lparr>s_timeouts := AList.update k sl' (s_timeouts s)\<rparr>"
    by (auto simp: add_timeout_def Let_def simp del: slice_append.simps)
  have "slice_ok (g_slices g) ?sl" using assms(1) by (auto simp: typed_def split: option.splits)
  from slice_append_list(1) [OF this sa] slice_append_keeps_ok [OF sa] assms(1)
  show ?thesis by (auto simp: r typed_def)
qed

lemma typed_act: "act V (g, s) (g', s') \<Longrightarrow> typed g s \<Longrightarrow> typed g' s'"
proof (induction "(g, s)" "(g', s')" rule: act.induct)
  case (vcs_new n r v)
  then have "typed (g\<lparr>g_vcs := g_vcs g @ [[]]\<rparr>) s" by (auto elim: typed_grow simp: heap_le_def)
  then have "typed (g\<lparr>g_vcs := g_vcs g @ [[]]\<rparr>) (putData (ViewChanged n r v) (VVcs (length (g_vcs g))) s)"
    by (rule typed_putData) simp
  with vcs_new show ?case by simp
next
  case (vcs_put n r v a x h)
  then show ?case by (auto elim: typed_grow simp: heap_le_def)
next
  case (deliver_final n r h)
  then have "heap_le g g'" by (auto dest: deliver_evolves simp: evolves_def)
  with deliver_final show ?case by (auto intro: typed_grow)
qed (auto intro: typed_putData typed_timer intro: typed_content)

lemma typed_clone: "typed g s \<Longrightarrow> typed g (clone (Some s) r)"
  by (simp add: typed_def)

interpretation types: state_invariant V typed for V
  by unfold_locales
    (auto simp: same_content_def intro: typed_clone typed_putData typed_content typed_grow
      dest: typed_act, simp add: typed_def empty_state_def)

section \<open>Quorum certificates\<close>

text \<open>All bitsets of a state were made for the number of peers of the graph.\<close>

definition vote_cap :: "Graph \<Rightarrow> nat" where
  "vote_cap g = 64 * ((g_peerCount g + 63) div 64)"

definition sized :: "Graph \<Rightarrow> state \<Rightarrow> bool" where
  "sized g s \<longleftrightarrow> (\<forall>pp b. nget (s_bitsets s) pp = Some b \<longrightarrow>
     commit_cap b = vote_cap g \<and> prepare_cap b = vote_cap g)"

definition commit_cert :: "Graph \<Rightarrow> state \<Rightarrow> PrePrepare \<Rightarrow> bool" where
  "commit_cert g s pp \<longleftrightarrow> (\<exists>b. nget (s_bitsets s) pp = Some b \<and> g_quorum2f1 g \<le> commitCount b)"

definition prepare_cert :: "Graph \<Rightarrow> state \<Rightarrow> PrePrepare \<Rightarrow> bool" where
  "prepare_cert g s pp \<longleftrightarrow> (\<exists>b. nget (s_bitsets s) pp = Some b \<and> g_quorum2f1 g \<le> prepareCount b)"

definition certified :: "Graph \<Rightarrow> state \<Rightarrow> bool" where
  "certified g s \<longleftrightarrow>
     (\<forall>n r h. nget (s_final s) (n, r) = Some h \<longrightarrow> (\<exists>v. commit_cert g s (PrePrepare h n r v))) \<and>
     (\<forall>n r v h. getData s (Prepared n r v) = Some (VStr h) \<longrightarrow> prepare_cert g s (PrePrepare h n r v))"

lemma setCommit_counts:
  assumes "setCommit b x = Inr b'"
  shows "commitCount b \<le> commitCount b'" and "prepareCount b' = prepareCount b"
    and "commit_cap b' = commit_cap b" and "prepare_cap b' = prepare_cap b"
  using assms
  by (auto simp: setCommit_def set_words_def commitCount_def prepareCount_def bindE_eq_Inr count_words_mono
    split: if_splits)

lemma setPrepare_counts:
  assumes "setPrepare b x = Inr b'"
  shows "prepareCount b \<le> prepareCount b'" and "commitCount b' = commitCount b"
    and "commit_cap b' = commit_cap b" and "prepare_cap b' = prepare_cap b"
  using assms
  by (auto simp: setPrepare_def set_words_def commitCount_def prepareCount_def bindE_eq_Inr count_words_mono
    split: if_splits)

lemma certs_vote:
  assumes "nget (s_bitsets s) pp = Some b" and "commitCount b \<le> commitCount b'"
    and "prepareCount b \<le> prepareCount b'" and "certified g s"
  shows "certified g (putBitset pp b' s)"
proof -
  have "commit_cert g s q \<Longrightarrow> commit_cert g (putBitset pp b' s) q"
    "prepare_cert g s q \<Longrightarrow> prepare_cert g (putBitset pp b' s) q" for q
    using assms(1-3) by (auto simp: commit_cert_def prepare_cert_def)
  with assms(4) show ?thesis unfolding certified_def putBitset_frame by blast
qed

lemma certs_new:
  assumes "nget (s_bitsets s) pp = None" and "certified g s"
  shows "certified g (putBitset pp b s)"
proof -
  have "commit_cert g s q \<Longrightarrow> commit_cert g (putBitset pp b s) q"
    "prepare_cert g s q \<Longrightarrow> prepare_cert g (putBitset pp b s) q" for q
    using assms(1) by (auto simp: commit_cert_def prepare_cert_def)
  with assms(2) show ?thesis unfolding certified_def putBitset_frame by blast
qed

lemma certified_content:
  assumes "certified g s" and "s_bitsets s' = s_bitsets s" and "s_final s' = s_final s"
    and "\<And>n r v. getData s' (Prepared n r v) = getData s (Prepared n r v)"
    and "g_quorum2f1 g' = g_quorum2f1 g"
  shows "certified g' s'"
  using assms by (simp add: certified_def commit_cert_def prepare_cert_def)

lemma add_timeout_frame:
  "add_timeout k t g s = (g', s') \<Longrightarrow> s_bitsets s' = s_bitsets s \<and> s_final s' = s_final s \<and>
    s_data s' = s_data s \<and> s_out s' = s_out s \<and> g_quorum2f1 g' = g_quorum2f1 g \<and> g_peerCount g' = g_peerCount g"
  by (auto simp: add_timeout_def Let_def simp del: slice_append.simps split: prod.splits)

lemma certified_act: "act V (g, s) (g', s') \<Longrightarrow> certified g s \<Longrightarrow> certified g' s'"
proof (induction "(g, s)" "(g', s')" rule: act.induct)
  case (prepared n r v h b)
  then show ?case by (auto simp: certified_def commit_cert_def prepare_cert_def split: if_splits)
next
  case (finalise n r h v b)
  then have "commit_cert g s (PrePrepare h n r v)" by (simp add: commit_cert_def)
  moreover have "commit_cert g (s\<lparr>s_final := f\<rparr>) q = commit_cert g s q"
    "prepare_cert g (s\<lparr>s_final := f\<rparr>) q = prepare_cert g s q" for f q
    by (simp_all add: commit_cert_def prepare_cert_def)
  ultimately show ?case using finalise by (auto simp: certified_def split: if_splits)
next
  case (deliver_final n r h)
  then have "heap_le g g'" by (auto dest: deliver_evolves simp: evolves_def)
  with deliver_final show ?case by (auto intro: certified_content simp: heap_le_def)
next
  case (vote_prepare pp b x b')
  then show ?case using setPrepare_counts [of b x b'] by (auto intro: certs_vote)
next
  case (vote_commit pp b x b')
  then show ?case using setCommit_counts [of b x b'] by (auto intro: certs_vote)
next
  case (timer k t)
  from add_timeout_frame [OF timer(1)] timer(2) show ?case by (auto intro: certified_content)
qed (auto intro: certs_new certified_content)

lemma certified_clone: "certified g s \<Longrightarrow> certified g (clone (Some s) r)"
  by (auto simp: certified_def commit_cert_def prepare_cert_def split: if_splits)

interpretation certs: state_invariant V certified for V
  by unfold_locales
    (auto simp: same_content_def heap_le_def intro: certified_clone certified_content dest: certified_act,
      simp add: certified_def empty_state_def)

lemma sized_act: "act V (g, s) (g', s') \<Longrightarrow> sized g s \<Longrightarrow> sized g' s'"
proof (induction "(g, s)" "(g', s')" rule: act.induct)
  case (deliver_final n r h)
  then show ?case by (auto simp: sized_def vote_cap_def dest!: deliver_evolves simp: evolves_def heap_le_def)
qed (auto simp: sized_def vote_cap_def newBitset_lengths dest: setCommit_counts setPrepare_counts add_timeout_frame
  split: if_splits)

interpretation sizes: state_invariant V sized for V
  by unfold_locales
    (auto simp: same_content_def heap_le_def sized_def vote_cap_def empty_state_def split: if_splits
      dest: sized_act [unfolded sized_def vote_cap_def])

text \<open>Only nodes of \<open>V\<close> have votes.\<close>

definition voted :: "u64 set \<Rightarrow> Graph \<Rightarrow> state \<Rightarrow> bool" where
  "voted V g s \<longleftrightarrow> (\<forall>pp b. nget (s_bitsets s) pp = Some b \<longrightarrow>
     votes (commits b) \<subseteq> V \<and> votes (prepares b) \<subseteq> V)"

lemma setPrepare_commits: "setPrepare b x = Inr b' \<Longrightarrow> commits b' = commits b"
  by (auto simp: setPrepare_def bindE_eq_Inr)

lemma setCommit_prepares: "setCommit b x = Inr b' \<Longrightarrow> prepares b' = prepares b"
  by (auto simp: setCommit_def bindE_eq_Inr)

lemma votedD:
  "voted V g s \<Longrightarrow> nget (s_bitsets s) pp = Some b \<Longrightarrow> votes (commits b) \<subseteq> V \<and> votes (prepares b) \<subseteq> V"
  by (simp add: voted_def)

lemma voted_content: "voted V g s \<Longrightarrow> s_bitsets s' = s_bitsets s \<Longrightarrow> voted V g' s'"
  by (simp add: voted_def)

lemma voted_put:
  "voted V g s \<Longrightarrow> votes (commits b) \<subseteq> V \<Longrightarrow> votes (prepares b) \<subseteq> V \<Longrightarrow> voted V g (putBitset pp b s)"
  by (simp add: voted_def)

lemma voted_act: "act V (g, s) (g', s') \<Longrightarrow> voted V g s \<Longrightarrow> voted V g' s'"
proof (induction "(g, s)" "(g', s')" rule: act.induct)
  case (vote_prepare pp b x b')
  from votedD [OF vote_prepare(6,1)] vote_prepare prepare_votes.add_ok(2) setPrepare_commits
  show ?case by (auto intro!: voted_put)
next
  case (vote_commit pp b x b')
  from votedD [OF vote_commit(6,1)] vote_commit commit_votes.add_ok(2) setCommit_prepares
  show ?case by (auto intro!: voted_put)
qed (auto intro: voted_put voted_content dest: add_timeout_frame)

lemma voted_clone: "voted V g s \<Longrightarrow> voted V g (clone (Some s) r)"
  by (simp add: voted_def)

interpretation voting: state_invariant V "voted V" for V
  by unfold_locales
    (auto simp: same_content_def intro: voted_content voted_clone dest: voted_act, simp add: voted_def empty_state_def)

text \<open>The parameters of a graph do not change.\<close>

interpretation params: graph_invariant "\<lambda>g. g_quorum2f1 g = q \<and> g_peerCount g = p" for q p
proof unfold_locales
  show "g_quorum2f1 g' = q \<and> g_peerCount g' = p"
    if "g_quorum2f1 g = q \<and> g_peerCount g = p" and "deliver n r h g = Inr g'" for g n r h g'
    using that deliver_evolves by (auto simp: evolves_def heap_le_def)
  show "g_quorum2f1 (note_block bg g) = q \<and> g_peerCount (note_block bg g) = p"
    if "g_quorum2f1 g = q \<and> g_peerCount g = p" for g bg
    using that note_block_evolves [of g bg] by (auto simp: evolves_def heap_le_def)
qed simp_all

lemma run_params:
  assumes "run_all bgs (New grow cfg) = Inr g"
  shows "g_quorum2f1 g = 2 * ((length (Peers cfg) - 1) div 3) + 1" and "g_peerCount g = length (Peers cfg)"
  using params.run_all_P [OF _ assms] by (simp_all add: New_def Let_def)

interpretation runs: loop_invariant run_step "bg_in V" "\<lambda>g. all_states typed g \<and> outs_in V g" for V
  by unfold_locales (rule types.run_step_I)

section \<open>Properties\<close>

definition fault_bound :: "Config \<Rightarrow> nat" where
  "fault_bound cfg = (length (Peers cfg) - 1) div 3"

lemma final_quorum:
  assumes run: "run_all bgs (New grow cfg) = Inr g" and V: "\<forall>bg\<in>set bgs. bg_in V bg"
    and small: "length (Peers cfg) \<le> 2 ^ 32"
    and s: "map_of (g_statess g) b = Some s" "nget (s_final s) (n, r) = Some h"
  obtains v bs where "nget (s_bitsets s) (PrePrepare h n r v) = Some bs"
    "2 * fault_bound cfg + 1 \<le> card (votes (commits bs))" "votes (commits bs) \<subseteq> V"
proof -
  have "certified g s" using certs.run_all_I [OF run V] s by (simp add: all_states_def)
  then obtain v bs where bs: "nget (s_bitsets s) (PrePrepare h n r v) = Some bs"
      "g_quorum2f1 g \<le> commitCount bs"
    using s(2) unfolding certified_def commit_cert_def by blast
  moreover have "commit_cap bs = vote_cap g"
    using sizes.run_all_I [OF run V] s bs by (auto simp: all_states_def sized_def)
  then have "commit_cap bs \<le> 2 ^ 64" using small run_params(2) [OF run] by (simp add: vote_cap_def)
  then have "commitCount bs = card (votes (commits bs))" by (rule commit_votes.count_card)
  moreover have "votes (commits bs) \<subseteq> V"
    using voting.run_all_I [OF run V] s bs by (auto simp: all_states_def voted_def)
  ultimately show ?thesis using that run_params(1) [OF run] by (auto simp: fault_bound_def)
qed

lemma card_quorum_inter:
  assumes "finite V" "A \<subseteq> V" "B \<subseteq> V" "card V = 3 * f + 1" "2 * f + 1 \<le> card A" "2 * f + 1 \<le> card B"
  shows "f + 1 \<le> card (A \<inter> B)"
proof -
  have "card A + card B = card (A \<union> B) + card (A \<inter> B)"
    using assms by (intro card_Un_Int) (auto intro: finite_subset)
  moreover have "card (A \<union> B) \<le> card V" using assms by (intro card_mono) auto
  ultimately show ?thesis using assms by linarith
qed

text \<open>
  C1. Finality is backed by a quorum. In every state of every run over blocks of the peers, a hash
  finalised for a node and a round has, in some view, commits of at least 2f+1 different peers.
\<close>

theorem finality_has_quorum:
  assumes "run_all bgs (New grow cfg) = Inr g" and "\<forall>bg\<in>set bgs. bg_in (set (Peers cfg)) bg"
    and "length (Peers cfg) \<le> 2 ^ 32"
    and "map_of (g_statess g) b = Some s" "nget (s_final s) (n, r) = Some h"
  shows "\<exists>v bs. nget (s_bitsets s) (PrePrepare h n r v) = Some bs \<and>
    votes (commits bs) \<subseteq> set (Peers cfg) \<and> 2 * fault_bound cfg + 1 \<le> card (votes (commits bs))"
  using final_quorum [OF assms] by blast

theorem finality_has_quorum_witness:
  "\<exists>g s v bs. run_all [solo_block [7] 1] (New (\<lambda>n. n) solo) = Inr g \<and>
     map_of (g_statess g) \<lparr>Hash = [7], Node = 1, Round = 1\<rparr> = Some s \<and> nget (s_final s) (1, 1) = Some [7] \<and>
     nget (s_bitsets s) (PrePrepare [7] 1 1 v) = Some bs \<and> 1 \<le> card (votes (commits bs))"
proof -
  obtain g s where g: "run_all [solo_block [7] 1] (New (\<lambda>n. n) solo) = Inr g"
      "map_of (g_statess g) \<lparr>Hash = [7], Node = 1, Round = 1\<rparr> = Some s" "nget (s_final s) (1, 1) = Some [7]"
    using solo_run_ok by blast
  have "bg_in (set (Peers solo)) (solo_block [7] 1)" by (simp add: bg_in_def solo_def solo_block_def)
  moreover have "length (Peers solo) \<le> 2 ^ 32" "fault_bound solo = 0" by (simp_all add: solo_def fault_bound_def)
  ultimately obtain v bs where "nget (s_bitsets s) (PrePrepare [7] 1 1 v) = Some bs" "1 \<le> card (votes (commits bs))"
    using finality_has_quorum [OF g(1) _ _ g(2,3)] by auto
  with g show ?thesis by blast
qed

text \<open>
  C2. Quorums of two decisions meet. With 3f+1 different peers, if two runs (of two replicas, or of
  one) finalise a hash for the same node and round, at least f+1 peers have committed to both
  pre-prepares, so one of them is correct when at most f are faulty.
\<close>

theorem finality_quorums_meet:
  assumes "distinct (Peers cfg)" "length (Peers cfg) = 3 * f + 1" "length (Peers cfg) \<le> 2 ^ 32"
    and "run_all bgs (New grow cfg) = Inr g" "\<forall>bg\<in>set bgs. bg_in (set (Peers cfg)) bg"
    and "run_all bgs' (New grow' cfg) = Inr g'" "\<forall>bg\<in>set bgs'. bg_in (set (Peers cfg)) bg"
    and "map_of (g_statess g) b = Some s" "nget (s_final s) (n, r) = Some h"
    and "map_of (g_statess g') b' = Some s'" "nget (s_final s') (n, r) = Some h'"
  shows "\<exists>v bs v' bs'. nget (s_bitsets s) (PrePrepare h n r v) = Some bs \<and>
    nget (s_bitsets s') (PrePrepare h' n r v') = Some bs' \<and> f + 1 \<le> card (votes (commits bs) \<inter> votes (commits bs'))"
proof -
  have f: "fault_bound cfg = f" using assms(2) by (simp add: fault_bound_def)
  obtain v bs where bs: "nget (s_bitsets s) (PrePrepare h n r v) = Some bs"
      "2 * fault_bound cfg + 1 \<le> card (votes (commits bs))" "votes (commits bs) \<subseteq> set (Peers cfg)"
    using final_quorum [OF assms(4,5,3,8,9)] .
  obtain v' bs' where bs': "nget (s_bitsets s') (PrePrepare h' n r v') = Some bs'"
      "2 * fault_bound cfg + 1 \<le> card (votes (commits bs'))" "votes (commits bs') \<subseteq> set (Peers cfg)"
    using final_quorum [OF assms(6,7,3,10,11)] .
  have "card (set (Peers cfg)) = 3 * f + 1" using assms(1,2) by (simp add: distinct_card)
  with bs bs' f have "f + 1 \<le> card (votes (commits bs) \<inter> votes (commits bs'))"
    by (intro card_quorum_inter [of "set (Peers cfg)"]) auto
  with bs bs' show ?thesis by blast
qed

theorem finality_quorums_meet_witness:
  "\<exists>g s v bs v' bs'. run_all [solo_block [7] 1] (New (\<lambda>n. n) solo) = Inr g \<and>
     map_of (g_statess g) \<lparr>Hash = [7], Node = 1, Round = 1\<rparr> = Some s \<and> nget (s_final s) (1, 1) = Some [7] \<and>
     nget (s_bitsets s) (PrePrepare [7] 1 1 v) = Some bs \<and> nget (s_bitsets s) (PrePrepare [7] 1 1 v') = Some bs' \<and>
     1 \<le> card (votes (commits bs) \<inter> votes (commits bs'))"
proof -
  obtain g s where g: "run_all [solo_block [7] 1] (New (\<lambda>n. n) solo) = Inr g"
      "map_of (g_statess g) \<lparr>Hash = [7], Node = 1, Round = 1\<rparr> = Some s" "nget (s_final s) (1, 1) = Some [7]"
    using solo_run_ok by blast
  have "bg_in (set (Peers solo)) (solo_block [7] 1)" by (simp add: bg_in_def solo_def solo_block_def)
  with finality_quorums_meet [of solo 0, OF _ _ _ g(1) _ g(1) _ g(2,3) g(2,3)] show ?thesis
    using g by (fastforce simp: solo_def)
qed

end
