(* ===== verification/Failures.thy ===== *)
theory Failures
  imports Consensus
begin

text \<open>
  When the interpreter stops the process. The type assertions on \<open>state.data\<close>, the writes to
  possibly nil maps and the bit set accesses of \<open>graph.go\<close> never panic on blocks of nodes that the
  bit sets have room for; what remains are the two calls of \<open>log.Fatal\<close> and the read of
  \<open>graph.blocks[0]\<close> in \<open>deliverRound\<close>.
\<close>

definition stops :: "failure \<Rightarrow> bool" where
  "stops e \<longleftrightarrow> e = Fatal ''Mismatching block hash for delivery'' \<or>
     e = Fatal ''Got multiple hashes in a view change'' \<or>
     e = Panic ''index out of range [0] with length 0''"

section \<open>Delivery\<close>

lemma deliver_one_failure:
  "deliver_one round hashes g = Inl e \<longleftrightarrow> g_blocks g = [] \<and> e = Panic ''index out of range [0] with length 0''"
  by (auto simp: deliver_one_def Let_def split: list.splits prod.splits)

lemma deliverRound_failure: "deliverRound round hashes g = Inl e \<Longrightarrow> stops e"
proof (induction round hashes g rule: deliverRound.induct)
  case (1 round hashes g)
  show ?case
  proof (cases "deliver_one round hashes g")
    case (Inl e')
    with 1(2) show ?thesis
      using deliver_one_failure [of round hashes g] by (auto simp: deliverRound.simps [of round] stops_def)
  next
    case (Inr g1)
    with 1(1) [OF Inr] 1(2) show ?thesis
      by (auto simp: deliverRound.simps [of round] split: option.splits if_splits)
  qed
qed

lemma deliver_failure: "deliver n r h g = Inl e \<Longrightarrow> stops e"
  by (auto simp: deliver_def Let_def bindE_eq_Inl split: if_splits option.splits
    dest: deliverRound_failure) (auto simp: stops_def)

section \<open>Handlers\<close>

text \<open>The nodes the bit sets of a graph have room for.\<close>

definition room :: "Graph \<Rightarrow> u64 set" where
  "room g = {v. unat v < vote_cap g}"

lemma getBitset_sized:
  assumes "getBitset (g_peerCount g) pp s = (b, s')" and "sized g s"
  shows "commit_cap b = vote_cap g" and "prepare_cap b = vote_cap g"
  using assms by (auto simp: getBitset_def sized_def vote_cap_def newBitset_lengths Let_def split: option.splits)

lemma setPrepare_room: "prepare_cap b = vote_cap g \<Longrightarrow> x \<in> room g \<Longrightarrow> \<exists>b'. setPrepare b x = Inr b'"
  using prepare_votes.add_in [of x b] by (auto simp: room_def)

lemma setCommit_room: "commit_cap b = vote_cap g \<Longrightarrow> x \<in> room g \<Longrightarrow> \<exists>b'. setCommit b x = Inr b'"
  using commit_votes.add_in [of x b] by (auto simp: room_def)

lemma onPrePrepare_safe:
  assumes "sized g s" and "sender \<in> room g" "receiver \<in> room g"
  shows "\<exists>x. onPrePrepare g s v sender receiver m = Inr x"
proof -
  obtain b s1 where b: "getBitset (g_peerCount g) m s = (b, s1)" by fastforce
  from setPrepare_room [OF getBitset_sized(2) [OF b assms(1)] assms(2)]
  obtain b1 where b1: "setPrepare b sender = Inr b1" by blast
  then have "prepare_cap b1 = vote_cap g"
    using setPrepare_counts(4) [OF b1] getBitset_sized(2) [OF b assms(1)] by simp
  from setPrepare_room [OF this assms(3)] b b1 show ?thesis by (auto simp: onPrePrepare_def Let_def)
qed

lemma onPrepare_safe:
  assumes "sized g s" and "sd \<in> room g" "receiver \<in> room g"
  shows "\<exists>x. onPrepare g s v receiver pre sd = Inr x"
proof -
  obtain b s1 where b: "getBitset (g_peerCount g) pre s = (b, s1)" by fastforce
  note caps = getBitset_sized [OF b assms(1)]
  from setPrepare_room [OF caps(2) assms(2)] obtain b1 where b1: "setPrepare b sd = Inr b1" by blast
  have c1: "commit_cap b1 = vote_cap g" using setPrepare_counts(3) [OF b1] caps by simp
  from setCommit_room [OF c1 assms(3)] obtain b2 where b2: "setCommit b1 receiver = Inr b2" by blast
  have "hasCommit b1 receiver = Inr (receiver \<in> votes (commits b1))"
    using c1 assms(3) by (intro commit_votes.has_in) (simp add: room_def)
  with b b1 b2 show ?thesis by (auto simp: onPrepare_def Let_def)
qed

lemma onCommit_safe:
  assumes "sized g s" and "sd \<in> room g" and "onCommit g s v pre sd = Inl e"
  shows "stops e"
proof -
  obtain b s1 where b: "getBitset (g_peerCount g) pre s = (b, s1)" by fastforce
  from setCommit_room [OF getBitset_sized(1) [OF b assms(1)] assms(2)]
  obtain b1 where "setCommit b sd = Inr b1" by blast
  with b assms(3) show ?thesis
    by (auto simp: onCommit_def Let_def bindE_eq_Inl dest: deliver_failure split: if_splits)
qed

lemma merge_hashes_failure: "merge_hashes hs h = Inl e \<Longrightarrow> stops e"
  by (induction hs h rule: merge_hashes.induct) (auto simp: stops_def split: if_splits)

lemma getVcs_safe:
  assumes "typed g s"
  shows "\<exists>x. getVcs (ViewChanged n r v) g s = Inr x"
proof (cases "getData s (ViewChanged n r v)")
  case (Some x)
  with assms have "val_ok (length (g_vcs g)) (ViewChanged n r v) x" by (simp add: typed_def)
  with Some show ?thesis by (cases x) (auto simp: getVcs_def)
qed (simp add: getVcs_def Let_def)

lemma onViewChange_safe:
  assumes "typed g s" and "getData s (View n r) = Some x"
    and "onViewChange g s v receiver h n r sd vw = Inl e"
  shows "stops e"
proof -
  obtain a g1 s1 where vcs: "getVcs (ViewChanged n r v) g s = Inr (a, g1, s1)"
    using getVcs_safe [OF assms(1)] by (metis prod_cases3)
  have "s_data s1 \<noteq> None"
    using vcs getData_not_nil [OF assms(2)]
    by (auto simp: getVcs_def Let_def putData_def nput_def split: option.splits sval.splits)
  with vcs assms(3) show ?thesis
    by (auto simp: onViewChange_def Let_def bindE_eq_Inl setData_ok dest: merge_hashes_failure split: if_splits)
qed

lemma onNewView_safe:
  assumes "getData s (View n r) = Some x"
  shows "\<exists>y. onNewView g s v origin h n r vw = Inr y"
proof -
  define s2 where "s2 = putData (View n r) (VU32 vw) s"
  obtain g1 s3 where at: "add_timeout (Round origin + s_timeout s + 5)
      \<lparr>tNode = n, tRound = r, tView = vw\<rparr> g s2 = (g1, s3)" by fastforce
  have "s_data s3 \<noteq> None" using add_timeout_frame [OF at] by (simp add: s2_def putData_def)
  then have "setData (HNV n r vw) (VBool True) s3 = Inr (putData (HNV n r vw) (VBool True) s3)"
    by (rule setData_ok)
  moreover have "setData (View n r) (VU32 vw) s = Inr s2"
    unfolding s2_def by (rule setData_ok [OF getData_not_nil [OF assms]])
  moreover have "s_timeout s2 = s_timeout s" by (simp add: s2_def)
  ultimately show ?thesis using at getData_not_nil [OF assms]
    by (auto simp: onNewView_def Let_def)
qed

lemma getView_safe:
  assumes "typed g s"
  shows "\<exists>v s'. getView n r s = Inr (v, s')"
proof (cases "getData s (View n r)")
  case (Some x)
  with assms have "val_ok (length (g_vcs g)) (View n r) x" by (simp add: typed_def)
  with Some show ?thesis by (cases x) (auto simp: getView_def)
qed (simp add: getView_def)

definition sound :: "Graph \<Rightarrow> state \<Rightarrow> bool" where
  "sound g s \<longleftrightarrow> typed g s \<and> sized g s"

lemma sound_acts: "acts V (g, s) (g', s') \<Longrightarrow> sound g s \<Longrightarrow> sound g' s'"
  by (auto simp: sound_def dest: types.acts_I sizes.acts_I)

lemma processMessage_safe:
  assumes sound: "sound g s"
    and V: "sender \<in> room g" "receiver \<in> room g" "voters msg \<subseteq> room g"
    and fail: "processMessage g s sender receiver origin msg = Inl e"
  shows "stops e"
proof -
  obtain n r where nr: "NodeRound msg = (n, r)" by fastforce
  obtain v s1 where v: "getView n r s = Inr (v, s1)"
    using getView_safe [of g s n r] sound by (auto simp: sound_def)
  have s1: "typed g s1" "sized g s1"
    using sound_acts [OF getView_acts(1) [OF v] sound] by (auto simp: sound_def)
  note view = getView_acts(2) [OF v]
  show ?thesis
  proof (cases msg)
    case (PP m)
    with fail nr v show ?thesis
      using onPrePrepare_safe [OF s1(2) V(1,2), of v m] by (auto simp: processMessage_def split: if_splits)
  next
    case (Prepare h n' r' sd vw)
    with fail nr v V show ?thesis
      using onPrepare_safe [OF s1(2), of sd receiver v "PrePrepare h n r vw"]
      by (auto simp: processMessage_def split: if_splits)
  next
    case (Commit h n' r' sd vw)
    with fail nr v V show ?thesis
      using onCommit_safe [OF s1(2)] by (auto simp: processMessage_def split: if_splits)
  next
    case (ViewChange h n' r' sd vw)
    with fail nr v show ?thesis
      using onViewChange_safe [OF s1(1) view] by (auto simp: processMessage_def split: if_splits)
  next
    case (NewView h n' r' sd vw)
    with fail nr v show ?thesis
      using onNewView_safe [OF view, of g v origin h vw] by (auto simp: processMessage_def split: if_splits)
  qed
qed

section \<open>Loops\<close>

text \<open>The room of a graph depends on its number of peers only.\<close>

lemma room_evolves: "evolves g g' \<Longrightarrow> room g' = room g"
  by (simp add: room_def vote_cap_def evolves_def heap_le_def)

lemma room_acts: "acts V (g, s) (g', s') \<Longrightarrow> room g' = room g"
  by (rule room_evolves) (rule acts_evolves)

lemma process_given_safe:
  "sound g s \<Longrightarrow> sender \<in> room g \<Longrightarrow> receiver \<in> room g \<Longrightarrow> msgs_in (room g) msgs \<Longrightarrow>
   process_given sender receiver origin msgs g s processed out = Inl e \<Longrightarrow> stops e"
proof (induction msgs arbitrary: g s processed out)
  case (Cons msg msgs)
  show ?case
  proof (cases "msg \<in> processed")
    case True
    with Cons show ?thesis by simp
  next
    case False
    have v: "voters msg \<subseteq> room g" using Cons.prems(4) by simp
    show ?thesis
    proof (cases "processMessage g s sender receiver origin msg")
      case (Inl e')
      with Cons.prems False processMessage_safe [OF Cons.prems(1-3) v] show ?thesis by simp
    next
      case (Inr x)
      obtain g1 s1 resp where x: "x = (g1, s1, resp)" by (cases x)
      have a: "acts (room g) (g, s) (g1, s1)"
        using processMessage_acts [OF _ Cons.prems(2,3) v] Inr x by blast
      with Cons.prems Inr x False show ?thesis
        using Cons.IH [OF sound_acts [OF a Cons.prems(1)]] room_acts [OF a] by simp
    qed
  qed
qed simp

lemma process_responses_safe:
  "sound g s \<Longrightarrow> sender \<in> room g \<Longrightarrow> receiver \<in> room g \<Longrightarrow> msgs_in (room g) out \<Longrightarrow>
   process_responses sender receiver origin i g s processed out = Inl e \<Longrightarrow> stops e"
proof (induction sender receiver origin i g s processed out rule: process_responses.induct)
  case (1 sender receiver origin i g s processed out)
  note step = process_responses.simps [of sender receiver origin i g s processed out]
  have len: "i < length out" using 1(7) step by (cases "i < length out") auto
  note v = msgs_in_nth [OF 1(6) len]
  show ?case
  proof (cases "out ! i \<in> processed")
    case True
    with len 1(1) [OF len refl True 1(3-6)] 1(7) step show ?thesis by simp
  next
    case False
    show ?thesis
    proof (cases "processMessage g s sender receiver origin (out ! i)")
      case (Inl e')
      with 1(7) step len False processMessage_safe [OF 1(3-5) v] show ?thesis by simp
    next
      case (Inr x)
      obtain g1 s1 resp where x: "x = (g1, s1, resp)" by (cases x)
      have a: "acts (room g) (g, s) (g1, s1)"
        using processMessage_acts [OF _ 1(4,5) v] Inr x by blast
      have "msgs_in (room g) (case resp of None \<Rightarrow> out | Some r \<Rightarrow> out @ [r])"
        using 1(6) processMessage_voters [OF _ 1(5)] Inr x by (cases resp) auto
      with 1(2) [OF len refl False Inr x [symmetric] refl sound_acts [OF a 1(3)]] room_acts [OF a] 1(4,5,7) step len False Inr x
      show ?thesis by simp
    qed
  qed
qed

lemma processMessages_safe:
  assumes "sound g s" "sender \<in> room g" "receiver \<in> room g" "msgs_in (room g) msgs"
    and "processMessages g s processed sender receiver origin msgs = Inl e"
  shows "stops e"
proof (cases "process_given sender receiver origin msgs g s processed []")
  case (Inl e')
  with assms show ?thesis by (auto simp: processMessages_def dest: process_given_safe)
next
  case (Inr x)
  obtain g1 s1 processed1 out where x: "x = (g1, s1, processed1, out)" by (cases x)
  have a: "acts (room g) (g, s) (g1, s1)" "msgs_in (room g) out"
    using process_given_acts [OF assms(2,3) Inr [unfolded x] assms(4)] by simp_all
  with assms Inr x show ?thesis
    by (auto simp: processMessages_def room_acts [OF a(1)] sound_acts intro: process_responses_safe [of g1 s1])
qed

lemma process_deps_safe:
  "sound g s \<Longrightarrow> Node block \<in> room g \<Longrightarrow> outs_in (room g) g \<Longrightarrow>
   process_deps block deps g s processed out = Inl e \<Longrightarrow> stops e"
proof (induction deps arbitrary: g s processed out)
  case (Cons dep deps)
  let ?msgs = "getOutput (map_of (g_statess g) dep)"
  show ?case
  proof (cases "map_of (g_statess g) dep")
    case None
    with Cons show ?thesis by (simp add: getOutput_def)
  next
    case (Some sd)
    with Cons.prems(3) have dep: "Node dep \<in> room g" "msgs_in (room g) ?msgs"
      by (auto simp: outs_in_def getOutput_def)
    show ?thesis
    proof (cases "processMessages g s processed (Node dep) (Node block) block ?msgs")
      case (Inl e')
      with Cons.prems processMessages_safe [OF Cons.prems(1) dep(1) Cons.prems(2) dep(2)] show ?thesis by simp
    next
      case (Inr x)
      obtain g1 s1 processed1 new where x: "x = (g1, s1, processed1, new)" by (cases x)
      have a: "acts (room g) (g, s) (g1, s1)"
        using processMessages_acts [OF Inr [unfolded x] dep(1) Cons.prems(2) dep(2)] by simp
      have "outs_in (room g) g1"
        using Cons.prems(3) acts_evolves [OF a] by (blast intro: outs_in_le dest: evolves_def [THEN iffD1])
      with Cons.prems(2,4) Inr x show ?thesis
        using Cons.IH [OF sound_acts [OF a Cons.prems(1)]] room_acts [OF a] by simp
    qed
  qed
qed simp

lemma fire_timeouts_safe: "typed g s \<Longrightarrow> \<exists>x. fire_timeouts node tms s out = Inr x"
proof (induction tms arbitrary: s out)
  case (Cons t tms)
  let ?skey = "View (tNode t) (tRound t)" and ?pkey = "Prepared (tNode t) (tRound t) (tView t)"
  have "getData s ?skey = None \<or> (\<exists>v. getData s ?skey = Some (VU32 v))"
    using typed_value [OF Cons.prems, of ?skey] by (cases "getData s ?skey") (auto simp: val_ok_simps)
  moreover have "getData s ?pkey = None \<or> (\<exists>h. getData s ?pkey = Some (VStr h))"
    using typed_value [OF Cons.prems, of ?pkey] by (cases "getData s ?pkey") (auto simp: val_ok_simps)
  ultimately have "\<exists>s' vc. fire_timeout node t s = Inr (s', vc)"
    by (auto simp: fire_timeout_def Let_def)
  then obtain s' vc where f: "fire_timeout node t s = Inr (s', vc)" by blast
  then have "s' = s \<or> (\<exists>w. s' = putData ?skey (VU32 w) s)"
    by (auto simp: fire_timeout_def Let_def bindE_eq_Inr split: if_splits)
  with Cons.prems have "typed g s'" by (auto intro: types.view_I)
  with Cons.IH f show ?case by simp
qed simp

text \<open>The two bounds of the timeout selection differ by one.\<close>

lemma deliver_one_quorum:
  assumes "g_quorum2f g < g_quorum2f1 g" and "deliver_one round hashes g = Inr g'"
  shows "g_quorum2f g' < g_quorum2f1 g'"
  using assms(1) deliver_one_forgets [OF assms(2)] by simp

interpretation selection: graph_invariant "\<lambda>g. g_quorum2f g < g_quorum2f1 g"
proof unfold_locales
  show "g_quorum2f g' < g_quorum2f1 g'"
    if "g_quorum2f g < g_quorum2f1 g" and "deliver n r h g = Inr g'" for g n r h g'
    by (rule deliver_keeps [where P = "\<lambda>g. g_quorum2f g < g_quorum2f1 g", OF deliver_one_quorum _ that]) simp_all
  show "g_quorum2f (note_block bg g) < g_quorum2f1 (note_block bg g)"
    if "g_quorum2f g < g_quorum2f1 g" for g bg
  proof -
    obtain m mx where "note_block bg g = g\<lparr>g_max := m, g_blocks := g_blocks g @ [\<lparr>bi_data = bg, bi_max = mx\<rparr>]\<rparr>"
      using note_block_frame by blast
    with that show ?thesis by simp
  qed
qed simp_all

lemma timeout_value_safe: "g_quorum2f g < g_quorum2f1 g \<Longrightarrow> \<exists>x. timeout_value g s = Inr x"
  by (auto simp: timeout_value_def Let_def)

definition healthy :: "Graph \<Rightarrow> bool" where
  "healthy g \<longleftrightarrow> all_states sound g \<and> outs_in (room g) g \<and> g_quorum2f g < g_quorum2f1 g"

interpretation soundness: state_invariant V sound for V
proof unfold_locales
  show "sound g empty_state" for g by (simp add: sound_def types.empty_I sizes.empty_I)
  show "sound g (clone (Some s) r)" if "sound g s" for g s r
    using that by (simp add: sound_def types.clone_I sizes.clone_I)
  show "sound g' s'" if "sound g s" "act V (g, s) (g', s')" for V g s g' s'
    using that by (meson sound_def types.act_I sizes.act_I)
  show "sound g (putData (View n r) (VU32 w) s)" if "sound g s" for g s n r w
    using that by (simp add: sound_def types.view_I sizes.view_I)
  show "sound g s'" if "sound g s" "same_content s s'" for g s s'
    using that by (meson sound_def types.content_I sizes.content_I)
  show "sound g' s" if "sound g s" "heap_le g g'" for g s g'
    using that by (meson sound_def types.grow_I sizes.grow_I)
qed

lemma process_safe:
  assumes g: "healthy g" and V: "Node (e_block e) \<in> room g" and fail: "process e g = Inl err"
  shows "stops err"
proof -
  let ?s = "record_delays (Round (e_block e)) (e_deps e) (findOrCreateState e g)"
  obtain tval where tv: "timeout_value g ?s = Inr tval" using g timeout_value_safe by (auto simp: healthy_def)
  obtain g2 s2 where sched: "schedule_timeouts (Round (e_block e) + tval) (Round (e_block e)) g
      (?s\<lparr>s_timeout := tval\<rparr>) = (g2, s2)" by fastforce
  note a = schedule_timeouts_acts [OF sched, where V = "room g"]
  have "same_content (findOrCreateState e g) (?s\<lparr>s_timeout := tval\<rparr>)"
    by (simp add: record_delays_def same_content_def)
  then have "sound g (?s\<lparr>s_timeout := tval\<rparr>)"
    using g soundness.find_I by (auto simp: healthy_def all_states_def intro: soundness.content_I)
  then have s2: "sound g2 s2" by (rule sound_acts [OF a])
  define due where "due = (case map_of (s_timeouts s2) (Round (e_block e)) of None \<Rightarrow> [] | Some sl \<Rightarrow> slice_list (g_slices g2) sl)"
  define out0 where "out0 = [PP (PrePrepare (Hash (e_block e)) (Node (e_block e)) (Round (e_block e)) 0)]"
  obtain s3 out3 where fire: "fire_timeouts (Node (e_block e)) due s2 out0 = Inr (s3, out3)"
    using fire_timeouts_safe s2 by (metis sound_def surj_pair)
  have s3: "sound g2 s3" using soundness.fire_timeouts_I [OF fire] s2 by blast
  have m3: "msgs_in (room g) out3" using fire_timeouts_voters [OF fire V] by (simp add: out0_def)
  have rm: "room g2 = room g" by (rule room_acts [OF a])
  have "outs_in (room g) g2" using g acts_evolves [OF a] by (auto simp: healthy_def evolves_def intro: outs_in_le)
  show ?thesis
  proof (cases "processMessages g2 s3 {} (Node (e_block e)) (Node (e_block e)) (e_block e) out3")
    case (Inl e')
    then have "stops e'" using processMessages_safe [OF s3, unfolded rm, OF V V m3] by blast
    with Inl fail tv sched fire show ?thesis
      by (simp add: process_def Let_def due_def [symmetric] out0_def [symmetric])
  next
    case (Inr x)
    obtain g4 s4 processed new where x: "x = (g4, s4, processed, new)" by (cases x)
    have a4: "acts (room g) (g2, s3) (g4, s4)"
      using processMessages_acts [OF Inr [unfolded x] V V m3] by simp
    have "outs_in (room g) g4"
      using \<open>outs_in (room g) g2\<close> acts_evolves [OF a4] by (auto simp: evolves_def intro: outs_in_le)
    then have "stops e'" if "process_deps (e_block e) (e_deps e) g4 s4 processed (out3 @ new) = Inl e'" for e'
      using process_deps_safe [OF sound_acts [OF a4 s3] _ _ that] V room_acts [OF a4] rm by simp
    with Inr x fail tv sched fire show ?thesis
      by (auto simp: process_def Let_def due_def [symmetric] out0_def [symmetric] bindE_eq_Inl)
  qed
qed

lemma process_healthy:
  assumes "healthy g \<and> room g = R" and V: "Node (e_block e) \<in> R" and p: "process e g = Inr g'"
  shows "healthy g' \<and> room g' = R"
proof -
  have "g_peerCount g' = g_peerCount g" using params.process_P [OF _ p] by blast
  then have "room g' = R" using assms(1) by (auto simp: room_def vote_cap_def)
  moreover have "all_states sound g' \<and> outs_in R g'"
    using soundness.process_I [OF _ p V] assms(1) by (auto simp: healthy_def)
  ultimately show ?thesis using selection.process_P [OF _ p] assms(1) by (auto simp: healthy_def)
qed

lemma note_block_healthy:
  assumes "healthy g \<and> room g = R"
  shows "healthy (note_block bg g) \<and> room (note_block bg g) = R"
proof -
  have "room (note_block bg g) = R" using assms room_evolves [OF note_block_evolves] by simp
  with assms soundness.note_block_I [of g R bg] selection.note_P [of g bg] show ?thesis
    by (auto simp: healthy_def)
qed

interpretation entries: loop_invariant process "\<lambda>e. Node (e_block e) \<in> R" "\<lambda>g. healthy g \<and> room g = R" for R
  by unfold_locales (rule process_healthy)

lemma bg_in_entries:
  "bg_in V bg \<Longrightarrow> \<forall>e\<in>set (map dep_entry (gDeps bg) @ [self_entry bg]). Node (e_block e) \<in> V"
  by (auto simp: bg_in_def dep_entry_def self_entry_def)

lemma run_step_healthy:
  assumes "healthy g \<and> room g = R" and "bg_in R bg" and "run_step bg g = Inr g'"
  shows "healthy g' \<and> room g' = R"
  using entries.foldE_inv [OF note_block_healthy [OF assms(1)] bg_in_entries [OF assms(2)]] assms(3)
  by (simp add: run_step_def)

interpretation steps: loop_invariant run_step "bg_in R" "\<lambda>g. healthy g \<and> room g = R" for R
  by unfold_locales (rule run_step_healthy)

lemma run_step_safe:
  assumes "healthy g \<and> room g = R" and "bg_in R bg" and "run_step bg g = Inl e"
  shows "stops e"
proof -
  obtain g1 e1 where "healthy g1 \<and> room g1 = R" "e1 \<in> set (map dep_entry (gDeps bg) @ [self_entry bg])"
      "process e1 g1 = Inl e"
    using entries.foldE_failure [OF note_block_healthy [OF assms(1)] bg_in_entries [OF assms(2)]]
      assms(3) [unfolded run_step_def] by blast
  with process_safe [of g1 e1 e] bg_in_entries [OF assms(2)] show ?thesis by blast
qed

lemma New_healthy: "healthy (New grow cfg) \<and> room (New grow cfg) =
    {v. unat v < 64 * ((length (Peers cfg) + 63) div 64)}"
  by (simp add: healthy_def New_def Let_def all_states_def outs_in_def room_def vote_cap_def)

section \<open>Properties\<close>



text \<open>
  C11. The guards on \<open>states.Final\<close> are dead. No run stores a value under a \<open>Final\<close> key, so the
  early returns of \<open>processMessage\<close> and of the timeout loop that test for one are never taken.
\<close>

theorem final_key_never_stored:
  assumes "run_all bgs (New grow cfg) = Inr g" and "map_of (g_statess g) b = Some s"
  shows "getData s (Final n r) = None"
proof -
  have "typed g s" using types.run_all_I [OF assms(1), of UNIV] assms(2) by (simp add: all_states_def)
  then show ?thesis using typed_value [of g s "Final n r"] by (cases "getData s (Final n r)") (auto simp: val_ok_simps)
qed

theorem final_key_never_stored_witness:
  "\<exists>g s. run_all [solo_block [7] 1] (New (\<lambda>n. n) solo) = Inr g \<and>
     map_of (g_statess g) \<lparr>Hash = [7], Node = 1, Round = 1\<rparr> = Some s \<and> getData s (Final 1 1) = None"
  using solo_run_ok final_key_never_stored by blast

end
