(* ===== verification/Delivery.thy ===== *)
theory Delivery
  imports Consensus "HOL-Library.Multiset"
begin

text \<open>
  What the callback of a graph receives: the rounds in order and once each, the blocks of a round
  sorted by hash, and a consumed count that says which of the node's own blocks the interpreter
  still needs.
\<close>

section \<open>Consecutive rounds\<close>

definition well_delivered :: "nat \<Rightarrow> Interpreted \<Rightarrow> bool" where
  "well_delivered n i \<longleftrightarrow> sorted (map Hash (iBlocks i)) \<and> distinct (map Node (iBlocks i)) \<and>
     length (iBlocks i) \<le> n \<and> (\<forall>b\<in>set (iBlocks i). Valid b \<and> Round b = iRound i)"

definition in_order :: "u64 \<Rightarrow> Graph \<Rightarrow> bool" where
  "in_order start g \<longleftrightarrow>
     g_round g = start + of_nat (length (g_delivered g)) \<and>
     map iRound (g_delivered g) = map (\<lambda>k. start + of_nat k) [0..<length (g_delivered g)] \<and>
     (\<forall>i\<in>set (g_delivered g). well_delivered (g_peerCount g) i) \<and>
     (\<forall>r hs. map_of (g_resolved g) r = Some hs \<longrightarrow> distinct (map fst hs))"

lemma round_blocks_sorted: "sorted (map Hash (round_blocks r hs))"
  by (simp add: round_blocks_def)

lemma set_round_blocks:
  "set (round_blocks r hs) = {\<lparr>Hash = h, Node = n, Round = r\<rparr> | n h. (n, h) \<in> set hs \<and> h \<noteq> []}"
  by (force simp: round_blocks_def)

lemma mset_round_blocks_nodes:
  "mset (map Node (round_blocks r hs)) = mset (map fst (filter (\<lambda>(n, h). h \<noteq> []) hs))"
proof -
  have "mset (map Node (round_blocks r hs)) = image_mset Node (mset (round_blocks r hs))" by simp
  also have "\<dots> = mset (map fst (filter (\<lambda>(n, h). h \<noteq> []) hs))"
    by (simp add: round_blocks_def image_mset.compositionality comp_def case_prod_beta)
  finally show ?thesis .
qed

lemma round_blocks_well_delivered:
  assumes "distinct (map fst hs)" and "length hs \<le> n"
  shows "well_delivered n \<lparr>iBlocks = round_blocks r hs, iConsumed = c, iRound = r\<rparr>"
proof -
  have "distinct (map Node (round_blocks r hs))"
    using distinct_fst_filter [OF assms(1)] mset_round_blocks_nodes
    by (metis mset_eq_imp_distinct_iff)
  moreover have "length (round_blocks r hs) \<le> n"
    using assms(2) le_trans [OF length_filter_le] by (simp add: round_blocks_def)
  ultimately show ?thesis
    by (auto simp: well_delivered_def round_blocks_sorted set_round_blocks Valid_def)
qed

lemma deliver_one_fields:
  assumes "deliver_one round hashes g = Inr g'"
  shows "g_round g' = g_round g + 1" "g_peerCount g' = g_peerCount g"
    "g_resolved g' = AList.delete round (g_resolved g)"
    "\<exists>c. g_delivered g' = g_delivered g @ [\<lparr>iBlocks = round_blocks round hashes, iConsumed = c, iRound = round\<rparr>]"
  using assms
  by (auto simp: deliver_one_def Let_def forgets_def split: list.splits prod.splits
    dest!: consume_blocks_forgets simp del: consume_blocks.simps)

lemma deliver_one_in_order:
  assumes "in_order start g" and "deliver_one (g_round g) hashes g = Inr g'"
    and "distinct (map fst hashes)" and "length hashes = g_peerCount g"
  shows "in_order start g'"
proof -
  obtain c where d: "g_delivered g' = g_delivered g @
      [\<lparr>iBlocks = round_blocks (g_round g) hashes, iConsumed = c, iRound = g_round g\<rparr>]"
    using deliver_one_fields(4) [OF assms(2)] by blast
  have "well_delivered (g_peerCount g) \<lparr>iBlocks = round_blocks (g_round g) hashes, iConsumed = c, iRound = g_round g\<rparr>"
    using assms(3,4) by (intro round_blocks_well_delivered) auto
  with assms(1) deliver_one_fields(1-3) [OF assms(2)] show ?thesis
    by (auto simp: in_order_def d split: if_splits)
qed

lemma deliverRound_in_order:
  "in_order start g \<Longrightarrow> round = g_round g \<Longrightarrow> distinct (map fst hashes) \<Longrightarrow> length hashes = g_peerCount g \<Longrightarrow>
   deliverRound round hashes g = Inr g' \<Longrightarrow> in_order start g'"
proof (induction round hashes g rule: deliverRound.induct)
  case (1 round hashes g)
  from 1(6) obtain g1 where g1: "deliver_one round hashes g = Inr g1"
    by (auto simp: deliverRound.simps [of round] bindE_eq_Inr)
  have o: "in_order start g1" using deliver_one_in_order 1(2-5) g1 by simp
  have r: "g_round g1 = round + 1" using deliver_one_fields(1) [OF g1] 1(3) by simp
  show ?case
  proof (cases "map_of (g_resolved g1) (round + 1)")
    case None
    with 1(6) g1 o show ?thesis by (simp add: deliverRound.simps [of round])
  next
    case (Some hs)
    with o have "distinct (map fst hs)" by (simp add: in_order_def)
    with 1(1) [OF g1 Some] 1(6) g1 o r Some show ?thesis
      by (auto simp: deliverRound.simps [of round] split: if_splits)
  qed
qed

lemma deliver_in_order:
  assumes g: "in_order start g" and d: "deliver n r h g = Inr g'"
  shows "in_order start g'"
proof (cases "r < g_round g")
  case True
  with g d show ?thesis by (simp add: deliver_def)
next
  case False
  from d obtain hashes where hs: "(case map_of (g_resolved g) r of
        Some hashes \<Rightarrow> (case map_of hashes n of
            Some curhash \<Rightarrow> if curhash \<noteq> h then Inl (Fatal ''Mismatching block hash for delivery'') else Inr hashes
          | None \<Rightarrow> Inr (AList.update n h hashes))
      | None \<Rightarrow> Inr [(n, h)]) = Inr hashes"
    and rest: "(let g1 = g\<lparr>g_resolved := AList.update r hashes (g_resolved g)\<rparr> in
      if r \<noteq> g_round g1 then Inr g1 else if length hashes = g_peerCount g1 then deliverRound r hashes g1
      else Inr g1) = Inr g'"
    unfolding deliver_def if_not_P [OF False] bindE_eq_Inr by blast
  have dist: "distinct (map fst hashes)"
    using hs g by (auto simp: in_order_def distinct_update split: option.splits if_splits)
  define g1 where "g1 = g\<lparr>g_resolved := AList.update r hashes (g_resolved g)\<rparr>"
  have "in_order start g1" using g dist by (auto simp: in_order_def g1_def split: if_splits)
  with rest dist deliverRound_in_order show ?thesis
    unfolding g1_def [symmetric] Let_def by (auto split: if_splits)
qed

interpretation order: graph_invariant "in_order start" for start
proof unfold_locales
  show "in_order start (note_block bg g)" if "in_order start g" for g bg
  proof -
    obtain m mx where "note_block bg g = g\<lparr>g_max := m, g_blocks := g_blocks g @ [\<lparr>bi_data = bg, bi_max = mx\<rparr>]\<rparr>"
      using note_block_frame by blast
    with that show ?thesis by (simp add: in_order_def)
  qed
qed (simp_all add: in_order_def, rule deliver_in_order [unfolded in_order_def])

section \<open>Consumed blocks\<close>

text \<open>The blocks a graph holds are those of its input from an index on, and the last delivery
  reported that index.\<close>

definition holds_from :: "u64 \<Rightarrow> BlockGraph list \<Rightarrow> Graph \<Rightarrow> bool" where
  "holds_from base bgs g \<longleftrightarrow> (\<exists>k\<le>length bgs. map bi_data (g_blocks g) = drop k bgs \<and>
     (if g_delivered g = [] then k = 0 else iConsumed (last (g_delivered g)) = base + of_nat k))"

definition consecutive :: "u64 \<Rightarrow> BlockGraph list \<Rightarrow> bool" where
  "consecutive base bgs \<longleftrightarrow> (\<forall>i<length bgs. Round (gBlock (bgs ! i)) = base + 1 + of_nat i)"

lemma consume_blocks_eq:
  "consume_blocks r infos c g = (infos', c', g') \<Longrightarrow>
   \<exists>m\<le>length infos. infos' = drop m infos \<and> c' = c + of_nat m \<and> (\<forall>i\<in>set (take m infos). bi_max i \<le> r) \<and>
     (infos' \<noteq> [] \<longrightarrow> r < bi_max (hd infos'))"
proof (induction infos arbitrary: c g)
  case (Cons info infos)
  show ?case
  proof (cases "bi_max info > r")
    case True
    with Cons.prems show ?thesis by (intro exI [of _ 0]) auto
  next
    case False
    with Cons.prems have "consume_blocks r infos (c + 1) (fold (\<lambda>dep. forget (dBlock dep)) (gDeps (bi_data info))
        (forget (gBlock (bi_data info)) g)) = (infos', c', g')" by simp
    from Cons.IH [OF this] obtain m where "m \<le> length infos" "infos' = drop m infos" "c' = (c + 1) + of_nat m"
      "\<forall>i\<in>set (take m infos). bi_max i \<le> r" "infos' \<noteq> [] \<longrightarrow> r < bi_max (hd infos')" by blast
    with False show ?thesis by (intro exI [of _ "Suc m"]) (auto simp: add.assoc)
  qed
qed simp

lemma deliver_one_holds:
  assumes c: "consecutive base bgs" and h: "holds_from base bgs g" and d: "deliver_one r hs g = Inr g'"
  shows "holds_from base bgs g'"
proof -
  from h obtain k where k: "k \<le> length bgs" "map bi_data (g_blocks g) = drop k bgs"
    by (auto simp: holds_from_def)
  from d obtain info infos where b: "g_blocks g = info # infos"
    by (cases "g_blocks g") (auto simp: deliver_one_def Let_def)
  with k have "k < length bgs" by (cases "k = length bgs") auto
  then have "bi_data info = bgs ! k" using k(2) b by (simp add: Cons_nth_drop_Suc [symmetric])
  then have rd: "Round (gBlock (bi_data info)) = base + 1 + of_nat k"
    using c \<open>k < length bgs\<close> by (simp add: consecutive_def)
  obtain infos' c' g2 where cb: "consume_blocks r (g_blocks g) (Round (gBlock (bi_data info)) - 1)
      (g\<lparr>g_resolved := AList.delete r (g_resolved g)\<rparr>) = (infos', c', g2)" by (rule prod_cases3)
  from consume_blocks_eq [OF this] obtain m where m: "m \<le> length (g_blocks g)" "infos' = drop m (g_blocks g)"
      "c' = base + of_nat (k + m)" by (auto simp: rd algebra_simps)
  have "k + m \<le> length bgs" using k m(1) by (metis add.commute length_drop length_map le_diff_conv2)
  moreover have "map bi_data infos' = drop (k + m) bgs" using k(2) m(2) by (metis drop_drop drop_map add.commute)
  moreover have "g_blocks g' = infos'" "iConsumed (last (g_delivered g')) = c'" "g_delivered g' \<noteq> []"
    using d cb b by (auto simp: deliver_one_def Let_def simp del: consume_blocks.simps)
  ultimately show ?thesis using m(3) by (auto simp: holds_from_def)
qed

lemma holds_from_cong:
  "g_blocks g' = g_blocks g \<Longrightarrow> g_delivered g' = g_delivered g \<Longrightarrow> holds_from base bgs g \<Longrightarrow> holds_from base bgs g'"
  by (simp only: holds_from_def)

lemma holding_invariant:
  assumes c: "consecutive base bgs"
  shows "entry_invariant (holds_from base bgs)"
proof unfold_locales
  show "holds_from base bgs g'" if "holds_from base bgs g" "deliver n r h g = Inr g'" for g n r h g'
  proof (rule deliver_keeps [where P = "holds_from base bgs", OF _ _ that])
    show "holds_from base bgs (g\<lparr>g_resolved := x\<rparr>)" if "holds_from base bgs g" for g x
      by (rule holds_from_cong [OF _ _ that]) simp_all
  qed (rule deliver_one_holds [OF c])
qed (rule holds_from_cong, simp_all)+

lemma run_all_holds:
  "consecutive base bgs \<Longrightarrow> run_all bgs (New grow cfg) = Inr g \<Longrightarrow> holds_from base bgs g"
proof (induction bgs arbitrary: g rule: rev_induct)
  case Nil
  then show ?case by (auto simp: run_all_def New_def Let_def holds_from_def)
next
  case (snoc bg bgs)
  from snoc.prems(2) obtain g1 where g1: "run_all bgs (New grow cfg) = Inr g1" and step: "run_step bg g1 = Inr g"
    by (auto simp: run_all_def foldE_append bindE_eq_Inr)
  have "consecutive base bgs" using snoc.prems(1) by (auto simp: consecutive_def nth_append dest: less_SucI)
  from snoc.IH [OF this g1] obtain k where k: "k \<le> length bgs" "map bi_data (g_blocks g1) = drop k bgs"
    "if g_delivered g1 = [] then k = 0 else iConsumed (last (g_delivered g1)) = base + of_nat k"
    by (auto simp: holds_from_def)
  obtain m mx where "note_block bg g1 = g1\<lparr>g_max := m, g_blocks := g_blocks g1 @ [\<lparr>bi_data = bg, bi_max = mx\<rparr>]\<rparr>"
    using note_block_frame by blast
  with k have "holds_from base (bgs @ [bg]) (note_block bg g1)"
    by (auto simp: holds_from_def intro!: exI [of _ k])
  from entry_invariant.run_step_from_noted [OF holding_invariant [OF snoc.prems(1)] this step] show ?case .
qed

section \<open>Properties\<close>

text \<open>
  C3. Rounds are delivered in order, without gaps and once each: the callback receives the rounds
  from \<open>LastInterpreted\<close> + 1 on, and each delivery lists at most one valid block per peer, all of that
  round, sorted by hash.
\<close>

theorem rounds_delivered_in_order:
  assumes "run_all bgs (New grow cfg) = Inr g"
  shows "map iRound (g_delivered g) =
      map (\<lambda>k. LastInterpreted cfg + 1 + of_nat k) [0..<length (g_delivered g)] \<and>
    (\<forall>i\<in>set (g_delivered g). well_delivered (length (Peers cfg)) i)"
proof -
  have "in_order (LastInterpreted cfg + 1) (New grow cfg)" by (simp add: in_order_def New_def Let_def)
  from order.run_all_P [OF this assms] run_params(2) [OF assms] show ?thesis by (simp add: in_order_def)
qed

theorem rounds_delivered_in_order_witness:
  "\<exists>g. run_all [solo_block [7] 1] (New (\<lambda>n. n) solo) = Inr g \<and> map iRound (g_delivered g) = [1] \<and>
     list_all (well_delivered 1) (g_delivered g)"
proof -
  obtain g where g: "run_all [solo_block [7] 1] (New (\<lambda>n. n) solo) = Inr g" "length (g_delivered g) = 1"
    using solo_run_ok by auto
  with rounds_delivered_in_order [OF g(1)] show ?thesis by (auto simp: solo_def list_all_iff)
qed

text \<open>
  C10. The order of a delivered round does not depend on the iteration order of Go's map: with
  different hashes, any two orders of the same entries give the same list of blocks.
\<close>

theorem round_blocks_order_independent:
  assumes "mset hs = mset hs'" and "distinct (map snd (filter (\<lambda>(n, h). h \<noteq> []) hs))"
  shows "round_blocks r hs = round_blocks r hs'"
proof -
  let ?mk = "\<lambda>hs. map (\<lambda>(node, hash). \<lparr>Hash = hash, Node = node, Round = r\<rparr>) (filter (\<lambda>(n, h). h \<noteq> []) hs)"
  have "map Hash (?mk hs) = map snd (filter (\<lambda>(n, h). h \<noteq> []) hs)" by (simp add: case_prod_beta comp_def)
  then have "inj_on Hash (set (?mk hs))" using assms(2) by (metis distinct_map)
  moreover have "mset (?mk hs) = mset (?mk hs')" using assms(1) by simp
  ultimately show ?thesis
    unfolding round_blocks_def by (intro sort_key_inj_key_eq) simp_all
qed

theorem round_blocks_order_independent_witness:
  "round_blocks 5 [(1, [9]), (2, [4]), (3, [])] = round_blocks 5 [(3, []), (2, [4]), (1, [9])]"
  by (rule round_blocks_order_independent) (simp_all add: add_mset_commute)

text \<open>
  C7. What \<open>Consumed\<close> tells the broadcaster. When the node's own block graphs arrive in the order of
  their rounds, the graph holds exactly the block graphs after the consumed round of the last
  delivery: replaying from there restores everything the interpreter still needs.
\<close>

theorem consumed_blocks_not_held:
  assumes "consecutive base bgs" and "run_all bgs (New grow cfg) = Inr g" and "g_delivered g \<noteq> []"
  shows "\<exists>k\<le>length bgs. iConsumed (last (g_delivered g)) = base + of_nat k \<and>
    map bi_data (g_blocks g) = drop k bgs"
  using run_all_holds [OF assms(1,2)] assms(3) by (auto simp: holds_from_def)

theorem consumed_blocks_not_held_witness:
  "\<exists>g. run_all [solo_block [7] 1] (New (\<lambda>n. n) solo) = Inr g \<and> g_delivered g \<noteq> [] \<and>
     (\<exists>k\<le>1. iConsumed (last (g_delivered g)) = 0 + of_nat k \<and> map bi_data (g_blocks g) = drop k [solo_block [7] 1])"
proof -
  obtain g where g: "run_all [solo_block [7] 1] (New (\<lambda>n. n) solo) = Inr g" "g_delivered g \<noteq> []"
    using solo_run_ok by auto
  moreover have "consecutive 0 [solo_block [7] 1]" by (simp add: consecutive_def solo_block_def)
  ultimately show ?thesis using consumed_blocks_not_held [of 0 "[solo_block [7] 1]" "\<lambda>n. n" solo g] by auto
qed

end
