(* ===== verification/Protocol.thy ===== *)
theory Protocol
  imports Consensus
begin

text \<open>
  The behaviour of a correct node inside the interpreter: what a state knows only grows, views only
  rise while messages are processed, a node prepares at most one hash per view, and the responses
  to a list of messages are bounded.
\<close>

section \<open>Knowledge only grows\<close>

fun is_view :: "StateData \<Rightarrow> bool" where
  "is_view (View _ _) \<longleftrightarrow> True"
| "is_view _ \<longleftrightarrow> False"

definition persists :: "u64 \<Rightarrow> state \<Rightarrow> state \<Rightarrow> bool" where
  "persists minround s s' \<longleftrightarrow>
     (\<forall>k x. getData s k = Some x \<and> \<not> is_view k \<and> minround \<le> GetRound k \<longrightarrow> getData s' k = Some x) \<and>
     (\<forall>n r h. nget (s_final s) (n, r) = Some h \<and> minround \<le> r \<longrightarrow> nget (s_final s') (n, r) = Some h) \<and>
     (\<forall>pp b. nget (s_bitsets s) pp = Some b \<and> minround \<le> ppRound pp \<longrightarrow> (\<exists>b'. nget (s_bitsets s') pp = Some b' \<and>
        votes (commits b) \<subseteq> votes (commits b') \<and> votes (prepares b) \<subseteq> votes (prepares b')))"

definition views_rise :: "state \<Rightarrow> state \<Rightarrow> bool" where
  "views_rise s s' \<longleftrightarrow> (\<forall>n r v. getData s (View n r) = Some (VU32 v) \<longrightarrow>
     (\<exists>w\<ge>v. getData s' (View n r) = Some (VU32 w)))"

lemma persists_refl [simp]: "persists m s s"
  unfolding persists_def by blast

lemma persists_trans: "persists m s s' \<Longrightarrow> persists m s' s'' \<Longrightarrow> persists m s s''"
  unfolding persists_def by (meson subset_trans)

lemma views_rise_refl [simp]: "views_rise s s"
  by (simp add: views_rise_def)

lemma views_rise_trans: "views_rise s s' \<Longrightarrow> views_rise s' s'' \<Longrightarrow> views_rise s s''"
  unfolding views_rise_def by (meson order_trans)

lemma persists_data: "s_bitsets s' = s_bitsets s \<Longrightarrow> s_final s' = s_final s \<Longrightarrow>
    (\<And>k x. getData s k = Some x \<Longrightarrow> \<not> is_view k \<Longrightarrow> getData s' k = Some x) \<Longrightarrow> persists m s s'"
  unfolding persists_def by auto

lemma persists_put:
  "nget (s_bitsets s) pp = Some b \<Longrightarrow> votes (commits b) \<subseteq> votes (commits b') \<Longrightarrow>
   votes (prepares b) \<subseteq> votes (prepares b') \<Longrightarrow> persists m s (putBitset pp b' s)"
  unfolding persists_def by auto

lemma act_persists: "act V (g, s) (g', s') \<Longrightarrow> persists m s s'"
proof (induction "(g, s)" "(g', s')" rule: act.induct)
  case (bitset_new pp)
  then show ?case by (auto simp: persists_def)
next
  case (vote_prepare pp b x b')
  with prepare_votes.add_ok(2) [of b x b'] setPrepare_commits [of b x b'] show ?case
    by (auto intro!: persists_put)
next
  case (vote_commit pp b x b')
  with commit_votes.add_ok(2) [of b x b'] setCommit_prepares [of b x b'] show ?case
    by (auto intro!: persists_put)
next
  case (timer k t)
  from add_timeout_frame [OF timer] show ?case by (auto intro: persists_data)
next
  case (finalise n r h v b)
  then show ?case by (auto simp: persists_def)
qed (auto intro!: persists_data)

lemma act_views: "act V (g, s) (g', s') \<Longrightarrow> views_rise s s'"
proof (induction "(g, s)" "(g', s')" rule: act.induct)
  case (timer k t)
  from add_timeout_frame [OF timer] show ?case by (simp add: views_rise_def)
qed (auto simp: views_rise_def)

lemma acts_persists: "acts V (g, s) (g', s') \<Longrightarrow> persists m s s' \<and> views_rise s s'"
proof (induction rule: rtranclp_induct2)
  case (step g1 s1 g2 s2)
  then show ?case by (meson act_persists act_views persists_trans views_rise_trans)
qed simp

section \<open>One prepare per view\<close>

text \<open>
  Every prepare among \<open>msgs\<close> is for a key that the state \<open>s0\<close> at the start did not have and that \<open>s\<close>
  has with its hash.
\<close>

definition backed :: "state \<Rightarrow> state \<Rightarrow> Message list \<Rightarrow> bool" where
  "backed s0 s msgs \<longleftrightarrow> persists 0 s0 s \<and> (\<forall>h n r sd v. Prepare h n r sd v \<in> set msgs \<longrightarrow>
     getData s0 (PrePrepared n r v) = None \<and>
     getData s (PrePrepared n r v) = Some (VMsg (PrePrepare h n r v)))"

lemma backed_append: "backed s0 s (xs @ ys) \<longleftrightarrow> backed s0 s xs \<and> backed s0 s ys"
  by (auto simp: backed_def)

lemma backed_persists:
  assumes "backed s0 s msgs" and "persists 0 s s'"
  shows "backed s0 s' msgs"
proof -
  have "persists 0 s0 s'" using assms persists_trans by (auto simp: backed_def)
  moreover have "getData s' (PrePrepared n r v) = Some x" if "getData s (PrePrepared n r v) = Some x" for n r v x
    using assms(2) that by (simp add: persists_def)
  ultimately show ?thesis using assms(1) by (simp add: backed_def)
qed

lemma persists_fresh:
  "persists 0 s0 s \<Longrightarrow> getData s (PrePrepared n r v) = None \<Longrightarrow> getData s0 (PrePrepared n r v) = None"
  by (cases "getData s0 (PrePrepared n r v)") (auto simp: persists_def)

lemma processMessage_prepare:
  assumes "processMessage g s sender receiver origin msg = Inr (g', s', Some (Prepare h n r sd v))"
  shows "getData s (PrePrepared n r v) = None \<and>
    getData s' (PrePrepared n r v) = Some (VMsg (PrePrepare h n r v))"
  using assms
proof (cases rule: processMessage_cases)
  case (pp m w s1)
  let ?k = "PrePrepared (ppNode m) (ppRound m) (ppView m)"
  have "getData s1 ?k = None" "getData s' ?k = Some (VMsg m)"
    using pp(3) by (auto simp: onPrePrepare_def Let_def bindE_eq_Inr split: prod.splits if_splits)
  moreover have "getData s ?k = None"
    using pp(2) \<open>getData s1 ?k = None\<close> by (auto simp: getView_def split: option.splits sval.splits)
  ultimately show ?thesis using onPrePrepare_resp [OF pp(3)] by auto
qed (auto dest!: onPrepare_resp onCommit_resp onViewChange_resp onNewView_resp)

lemma processMessage_persists:
  "processMessage g s sender receiver origin msg = Inr (g', s', resp) \<Longrightarrow> persists m s s' \<and> views_rise s s'"
  by (rule acts_persists [where V = UNIV]) (auto intro: processMessage_acts)

lemma response_backed:
  assumes "processMessage g s sender receiver origin msg = Inr (g', s', resp)" and "backed s0 s out"
  shows "backed s0 s' (case resp of None \<Rightarrow> out | Some r \<Rightarrow> out @ [r])"
proof -
  have "backed s0 s' out" using backed_persists [OF assms(2)] processMessage_persists [OF assms(1)] by blast
  moreover have "persists 0 s0 s" using assms(2) by (simp add: backed_def)
  then have "backed s0 s' [r]" if "resp = Some r" for r
    using processMessage_prepare assms(1) \<open>backed s0 s' out\<close> persists_fresh that by (auto simp: backed_def)
  ultimately show ?thesis by (cases resp) (auto simp: backed_append)
qed

lemma process_given_backed:
  "process_given sender receiver origin msgs g s processed out = Inr (g', s', processed', out') \<Longrightarrow>
   backed s0 s out \<Longrightarrow> backed s0 s' out'"
proof (induction msgs arbitrary: g s processed out)
  case (Cons msg msgs)
  then show ?case by (auto simp: bindE_eq_Inr split: if_splits dest: response_backed)
qed simp

lemma process_responses_backed:
  "process_responses sender receiver origin i g s processed out = Inr (g', s', processed', out') \<Longrightarrow>
   backed s0 s out \<Longrightarrow> backed s0 s' out'"
proof (induction sender receiver origin i g s processed out rule: process_responses.induct)
  case (1 sender receiver origin i g s processed out)
  note step = process_responses.simps [of sender receiver origin i g s processed out]
  show ?case
  proof (cases "i < length out")
    case False
    with 1 step show ?thesis by simp
  next
    case len: True
    show ?thesis
    proof (cases "out ! i \<in> processed")
      case True
      with len 1(1) [OF len refl True] 1(3-) step show ?thesis by simp
    next
      case False
      with len 1(3) step obtain g1 s1 resp where
        pm: "processMessage g s sender receiver origin (out ! i) = Inr (g1, s1, resp)"
        and rest: "process_responses sender receiver origin (Suc i) g1 s1 (insert (out ! i) processed)
           (case resp of None \<Rightarrow> out | Some r \<Rightarrow> out @ [r]) = Inr (g', s', processed', out')"
        by (auto simp: bindE_eq_Inr Let_def)
      from 1(2) [OF len refl False pm refl refl rest response_backed [OF pm 1(4)]] show ?thesis .
    qed
  qed
qed

lemma processMessages_backed:
  assumes "processMessages g s processed sender receiver origin msgs = Inr (g', s', processed', new)"
    and "backed s0 s out"
  shows "backed s0 s' (out @ new)"
proof -
  have "persists 0 s s'"
    using processMessages_acts [OF assms(1), of UNIV] acts_persists by (metis UNIV_I msgs_in_simps(4))
  then have "backed s0 s' out" by (rule backed_persists [OF assms(2)])
  moreover have "backed s0 s []" using assms(2) by (simp add: backed_def)
  then have "backed s0 s' new"
    using assms(1) by (auto simp: processMessages_def bindE_eq_Inr
      dest!: process_given_backed process_responses_backed)
  ultimately show ?thesis by (simp add: backed_append)
qed

lemma process_deps_backed:
  "process_deps block deps g s processed out = Inr (g', s', out') \<Longrightarrow> backed s0 s out \<Longrightarrow> backed s0 s' out'"
  by (induction deps arbitrary: g s processed out)
    (auto simp: bindE_eq_Inr dest: processMessages_backed)

lemma fire_timeouts_backed:
  "fire_timeouts node tms s out = Inr (s', out') \<Longrightarrow> persists m s s' \<and> (backed s0 s out \<longrightarrow> backed s0 s' out')"
proof (induction tms arbitrary: s out)
  case (Cons t tms)
  from Cons.prems obtain s1 vc where f: "fire_timeout node t s = Inr (s1, vc)"
    and rest: "fire_timeouts node tms s1 (out @ vc) = Inr (s', out')" by (auto simp: bindE_eq_Inr)
  from f have p: "persists k s s1" for k
    by (auto simp: fire_timeout_def Let_def bindE_eq_Inr intro!: persists_data split: if_splits)
  from f have "Prepare h n r sd v \<notin> set vc" for h n r sd v
    by (auto simp: fire_timeout_def Let_def bindE_eq_Inr split: if_splits)
  then have "backed s0 s out \<longrightarrow> backed s0 s1 (out @ vc)"
    using backed_persists [OF _ p] by (auto simp: backed_append) (auto simp: backed_def)
  with p Cons.IH [OF rest] show ?case by (blast intro: persists_trans)
qed simp

text \<open>One step of the interpreter: the new state knows what the state of the previous block knew of
  the rounds not yet delivered, and its prepares are backed.\<close>

lemma clone_persists: "persists m s (clone (Some s) m)"
  unfolding persists_def by (auto simp: not_less)

lemma persists_content: "same_content s s' \<Longrightarrow> persists m s s'"
  by (rule persists_data) (simp_all add: same_content_def)

lemma process_new_state:
  assumes "process e g = Inr g'"
  obtains s where "map_of (g_statess g') (e_block e) = Some s" "backed (findOrCreateState e g) s (s_out s)"
    "persists (g_round g) (findOrCreateState e g) s"
    "\<And>b. b \<noteq> e_block e \<Longrightarrow> map_of (g_statess g') b = None \<or> map_of (g_statess g') b = map_of (g_statess g) b"
proof -
  from assms UNIV_I outs_in_UNIV show ?thesis
  proof (cases rule: process_stages)
    case (1 s1 tval g2 s2 s3 out3 g4 s4 processed new g5 s5 out due)
    define s where "s = s5\<lparr>s_out := out\<rparr>"
    let ?s0 = "findOrCreateState e g"
    have start: "persists m ?s0 s1" for m
      by (rule persists_content) (simp add: 1(1) record_delays_def same_content_def)
    note start [of "g_round g"]
    moreover note acts_persists [OF 1(6)] fire_timeouts_backed [OF 1(3)] acts_persists [OF 1(7)] acts_persists [OF 1(8)]
    moreover have "persists (g_round g) s5 s" by (rule persists_content) (simp add: s_def same_content_def)
    ultimately have p: "persists (g_round g) (findOrCreateState e g) s" by (meson persists_trans)
    have "backed ?s0 s2 [PP (PrePrepare (Hash (e_block e)) (Node (e_block e)) (Round (e_block e)) 0)]"
      using persists_trans [OF start] acts_persists [OF 1(6)] by (simp add: backed_def)
    then have "backed ?s0 s3 out3" using fire_timeouts_backed [OF 1(3)] by blast
    then have "backed ?s0 s5 out" using processMessages_backed [OF 1(4)] process_deps_backed [OF 1(5)] by blast
    then have "backed ?s0 s (s_out s)"
      using persists_trans [OF _ persists_content [of s5 s]] by (simp add: s_def backed_def same_content_def)
    moreover have "map_of (g_statess g') (e_block e) = Some s" by (simp add: 1(10) s_def)
    moreover have "map_of (g_statess g5) \<subseteq>\<^sub>m map_of (g_statess g)"
      using acts_evolves [OF 1(6)] acts_evolves [OF 1(7)] acts_evolves [OF 1(8)]
      by (meson evolves_def evolves_trans)
    then have "map_of (g_statess g') b = None \<or> map_of (g_statess g') b = map_of (g_statess g) b"
      if "b \<noteq> e_block e" for b
      using that by (cases "map_of (g_statess g5) b") (auto simp: 1(10) map_le_def dom_def)
    ultimately show ?thesis using that p by blast
  qed
qed

definition all_backed :: "Graph \<Rightarrow> bool" where
  "all_backed g \<longleftrightarrow> (\<forall>b s. map_of (g_statess g) b = Some s \<longrightarrow> (\<exists>s0. backed s0 s (s_out s)))"

lemma process_all_backed:
  assumes "all_backed g" and "process e g = Inr g'"
  shows "all_backed g'"
  using assms(2)
proof (rule process_new_state)
  fix s assume "map_of (g_statess g') (e_block e) = Some s" "backed (findOrCreateState e g) s (s_out s)"
    and "\<And>b. b \<noteq> e_block e \<Longrightarrow> map_of (g_statess g') b = None \<or> map_of (g_statess g') b = map_of (g_statess g) b"
  with assms(1) show ?thesis unfolding all_backed_def by (metis option.distinct(1) option.inject)
qed

interpretation backing: loop_invariant process "\<lambda>_. True" all_backed
  by unfold_locales (rule process_all_backed)

lemma run_step_all_backed:
  assumes "all_backed g" and "run_step bg g = Inr g'"
  shows "all_backed g'"
proof -
  have "all_backed (note_block bg g)" using assms(1) note_block_frame [of bg g] by (auto simp: all_backed_def)
  from backing.foldE_inv [OF this] assms(2) show ?thesis by (simp add: run_step_def)
qed

interpretation backed_runs: loop_invariant run_step "\<lambda>_. True" all_backed
  by unfold_locales (rule run_step_all_backed)

lemma run_all_backed:
  assumes "run_all bgs (New grow cfg) = Inr g"
  shows "all_backed g"
proof -
  have "all_backed (New grow cfg)" by (simp add: all_backed_def New_def Let_def)
  from backed_runs.foldE_inv [OF this] assms show ?thesis by (simp add: run_all_def)
qed

section \<open>The number of responses\<close>

text \<open>How many responses a message can lead to: one per phase that follows it.\<close>

definition later_phases :: "Message list \<Rightarrow> nat" where
  "later_phases msgs = sum_list (map (\<lambda>m. msg_rank m - 1) msgs)"

lemma later_phases_simps [simp]:
  "later_phases [] = 0" "later_phases (m # ms) = (msg_rank m - 1) + later_phases ms"
  "later_phases (xs @ ys) = later_phases xs + later_phases ys"
  by (simp_all add: later_phases_def)

lemma later_phases_bound: "later_phases msgs \<le> 4 * length msgs"
proof (induction msgs)
  case (Cons m msgs)
  moreover have "msg_rank m \<le> 5" by (cases m) auto
  ultimately show ?case by simp
qed simp

lemma response_room:
  assumes "processMessage g s sender receiver origin msg = Inr (g', s', resp)"
  shows "(case resp of None \<Rightarrow> 0 | Some r \<Rightarrow> 1 + later_phases [r]) \<le> msg_rank msg - 1"
  using assms msg_rank_pos by (cases resp) (auto dest!: processMessage_response simp: Suc_le_eq)

lemma response_topic:
  "processMessage g s sender receiver origin msg = Inr (g', s', resp) \<Longrightarrow>
   case resp of None \<Rightarrow> True | Some r \<Rightarrow> NodeRound r = NodeRound msg"
  by (auto split: option.splits dest: processMessage_response)

lemma process_given_room:
  "process_given sender receiver origin msgs g s processed out = Inr (g', s', processed', out') \<Longrightarrow>
   length out' + later_phases out' \<le> length out + later_phases out + later_phases msgs \<and>
   NodeRound ` set out' \<subseteq> NodeRound ` set out \<union> NodeRound ` set msgs"
proof (induction msgs arbitrary: g s processed out)
  case (Cons msg msgs)
  show ?case
  proof (cases "msg \<in> processed")
    case True
    with Cons.prems have "process_given sender receiver origin msgs g s processed out = Inr (g', s', processed', out')"
      by simp
    from Cons.IH [OF this] show ?thesis by auto
  next
    case False
    with Cons.prems obtain g1 s1 resp where
      pm: "processMessage g s sender receiver origin msg = Inr (g1, s1, resp)"
      and rest: "process_given sender receiver origin msgs g1 s1 (insert msg processed)
        (case resp of None \<Rightarrow> out | Some r \<Rightarrow> out @ [r]) = Inr (g', s', processed', out')"
      by (auto simp: bindE_eq_Inr)
    from Cons.IH [OF rest] response_room [OF pm] response_topic [OF pm] show ?thesis
      by (cases resp) auto
  qed
qed simp

lemma process_responses_room:
  "process_responses sender receiver origin i g s processed out = Inr (g', s', processed', out') \<Longrightarrow>
   length out' \<le> length out + later_phases (drop i out) \<and> NodeRound ` set out' \<subseteq> NodeRound ` set out"
proof (induction sender receiver origin i g s processed out rule: process_responses.induct)
  case (1 sender receiver origin i g s processed out)
  note step = process_responses.simps [of sender receiver origin i g s processed out]
  show ?case
  proof (cases "i < length out")
    case False
    with 1 step show ?thesis by simp
  next
    case len: True
    have d: "drop i out = out ! i # drop (Suc i) out" using len by (simp add: Cons_nth_drop_Suc)
    show ?thesis
    proof (cases "out ! i \<in> processed")
      case True
      with len 1(1) [OF len refl True] 1(3) step show ?thesis by (simp add: d)
    next
      case False
      with len 1(3) step obtain g1 s1 resp where
        pm: "processMessage g s sender receiver origin (out ! i) = Inr (g1, s1, resp)"
        and rest: "process_responses sender receiver origin (Suc i) g1 s1 (insert (out ! i) processed)
           (case resp of None \<Rightarrow> out | Some r \<Rightarrow> out @ [r]) = Inr (g', s', processed', out')"
        by (auto simp: bindE_eq_Inr Let_def)
      from 1(2) [OF len refl False pm refl refl rest] response_room [OF pm] response_topic [OF pm]
        nth_mem [OF len] len show ?thesis
        by (cases resp) (auto simp: d)
    qed
  qed
qed

section \<open>Properties\<close>

text \<open>
  C5. A correct node prepares one hash per view. In every state of every run, two prepares in the
  output for the same node, round and view name the same hash.
\<close>

theorem one_prepare_per_view:
  assumes "run_all bgs (New grow cfg) = Inr g" and "map_of (g_statess g) b = Some s"
    and "Prepare h n r sd v \<in> set (s_out s)" and "Prepare h' n r sd' v \<in> set (s_out s)"
  shows "h = h'"
proof -
  obtain s0 where "backed s0 s (s_out s)" using run_all_backed [OF assms(1)] assms(2) by (auto simp: all_backed_def)
  with assms(3,4) have "Some (VMsg (PrePrepare h n r v)) = Some (VMsg (PrePrepare h' n r v))"
    unfolding backed_def by metis
  then show ?thesis by simp
qed

theorem one_prepare_per_view_witness:
  "\<exists>g s. run_all [solo_block [7] 1] (New (\<lambda>n. n) solo) = Inr g \<and>
     map_of (g_statess g) \<lparr>Hash = [7], Node = 1, Round = 1\<rparr> = Some s \<and> Prepare [7] 1 1 1 0 \<in> set (s_out s) \<and>
     {h. \<exists>sd. Prepare h 1 1 sd 0 \<in> set (s_out s)} = {[7]}"
  using solo_run_ok one_prepare_per_view by blast







end
