(* ===== verification/Configs.thy ===== *)
theory Configs
  imports Strconv
begin

text \<open>
  The package \<open>config\<close>: byte sizes with their YAML form, and the configuration structs. The YAML
  library is third-party code: its decoder is an argument of the functions that load a file.
\<close>

section \<open>Byte sizes\<close>

type_synonym ByteSize = u64

definition KB :: ByteSize where "KB = 1024"
definition MB :: ByteSize where "MB = 1024 * KB"
definition GB :: ByteSize where "GB = 1024 * MB"
definition TB :: ByteSize where "TB = 1024 * GB"

definition maxInt :: ByteSize where "maxInt = drop_bit 1 (not 0)"

definition ByteSize_Int :: "ByteSize \<Rightarrow> int res" where
  "ByteSize_Int b =
     (if b > maxInt then Inl (Err ''config: ByteSize value overflows platform int'') else Inr (sint b))"

definition MarshalYAML :: "ByteSize \<Rightarrow> string" where
  "MarshalYAML b =
     (if b mod TB = 0 then FormatUint (b div TB) @ ''TB''
      else if b mod GB = 0 then FormatUint (b div GB) @ ''GB''
      else if b mod MB = 0 then FormatUint (b div MB) @ ''MB''
      else if b mod KB = 0 then FormatUint (b div KB) @ ''KB''
      else FormatUint b @ ''B'')"

text \<open>\<open>strings.ToLower\<close> on ASCII letters; the suffixes compared with contain no other character.\<close>

definition to_lower :: "char \<Rightarrow> char" where
  "to_lower ch = (let v = of_char ch :: nat in if 65 \<le> v \<and> v \<le> 90 then char_of (v + 32) else ch)"

text \<open>The final switch on the suffix; the multiplication wraps.\<close>

definition scale :: "string \<Rightarrow> ByteSize \<Rightarrow> ByteSize res" where
  "scale suffix b =
     (if suffix = [] then Inr b
      else if suffix \<in> {''b'', ''byte'', ''bytes''} then Inr b
      else if suffix \<in> {''k'', ''kb''} then Inr (b * KB)
      else if suffix \<in> {''m'', ''mb''} then Inr (b * MB)
      else if suffix \<in> {''g'', ''gb''} then Inr (b * GB)
      else if suffix \<in> {''t'', ''tb''} then Inr (b * TB)
      else Inl (Err ''config: unable to decode ByteSize value''))"

text \<open>
  The loop from the end of \<open>raw\<close> collects the suffix up to the last digit and parses what is left.
  Without a digit the value \<open>b\<close> stays.
\<close>

definition UnmarshalYAML :: "string res \<Rightarrow> ByteSize \<Rightarrow> ByteSize res" where
  "UnmarshalYAML unmarshal b = bindE unmarshal (\<lambda>raw.
     let suffix = rev (takeWhile (\<lambda>ch. \<not> is_digit ch) (rev raw));
         digits = rev (dropWhile (\<lambda>ch. \<not> is_digit ch) (rev raw)) in
     bindE (if digits = [] then Inr b else ParseUint digits) (scale (map to_lower suffix)))"

section \<open>Configuration\<close>

text \<open>Durations are numbers of nanoseconds.\<close>

record BroadcastCfg =
  InitialBackoff :: int
  MaxBackoff :: int

text \<open>
  The field \<open>RateDecrease\<close> is a floating-point factor, used only as \<open>int(float64(rate) * rateDecr)\<close>; here it
  is that function.
\<close>

record RateLimit =
  InitialRate :: int
  RateDecrease :: "int \<Rightarrow> int"
  RateIncrease :: int

record NetConsensus =
  BlockReferencesSizeLimit :: ByteSize
  BlockTransactionsSizeLimit :: ByteSize
  NonceExpiration :: int
  RoundInterval :: int
  ViewTimeout :: int

record PeerKey =
  pkType :: string
  pkValue :: string

text \<open>The keys of a peer are pointers, nil when the section is missing; so is a peer in the map of seeds.\<close>

record Peer =
  pSigningKey :: "PeerKey option"
  pTransportCert :: "PeerKey option"

record Network =
  netID :: string
  netConsensus :: NetConsensus
  netMaxPayload :: ByteSize
  netSeedNodes :: "(u64, Peer option) gmap"

text \<open>\<open>yaml\<close> encodes a network that has only its seed nodes, \<open>sha\<close> is SHA-512/256.\<close>

definition Network_Hash :: "((u64, Peer option) gmap \<Rightarrow> bytes res) \<Rightarrow> (bytes \<Rightarrow> bytes) \<Rightarrow> Network \<Rightarrow> bytes res" where
  "Network_Hash yaml sha n = bindE (yaml (netSeedNodes n)) (\<lambda>data. Inr (sha data))"

record ckey =
  ckType :: string
  ckPublic :: string
  ckPrivate :: string

record Registry =
  Host :: string
  Token :: string

definition URL :: "Registry \<Rightarrow> string" where
  "URL r =
     (if take 10 (Host r) = ''localhost:'' \<or> Host r = ''localhost'' then ''http://'' @ Host r @ ''/''
      else ''https://'' @ Host r @ ''/'')"

text \<open>
  \<open>LoadNode\<close>: the node configuration is read field by field by other code, so it is a type \<open>'n\<close> here with
  its field \<open>Storage.Type\<close> (\<open>None\<close> for a nil pointer). The decoder fills a configuration and may report an
  error beside it; a default storage is set in both cases.
\<close>

definition LoadNode ::
    "bytes res \<Rightarrow> (bytes \<Rightarrow> 'n \<times> failure option) \<Rightarrow> ('n \<Rightarrow> string option) \<Rightarrow> (string \<Rightarrow> 'n \<Rightarrow> 'n) \<Rightarrow> ('n \<times> failure option) res" where
  "LoadNode file decode get_storage set_storage = bindE file (\<lambda>data.
     let (cfg, err) = decode data in
     if get_storage cfg = None \<or> get_storage cfg = Some [] then Inr (set_storage ''memstore'' cfg, err)
     else Inr (cfg, err))"

section \<open>Properties\<close>

lemma FormatUint_digits: "list_all is_digit (FormatUint v)" "FormatUint v \<noteq> []"
  by (simp_all add: FormatUint_def dec_digits_all)

lemma split_suffix:
  assumes "list_all is_digit ds" "ds \<noteq> []" "list_all (\<lambda>ch. \<not> is_digit ch) suf"
  shows "takeWhile (\<lambda>ch. \<not> is_digit ch) (rev (ds @ suf)) = rev suf"
    and "dropWhile (\<lambda>ch. \<not> is_digit ch) (rev (ds @ suf)) = rev ds"
proof -
  obtain es d where ds: "ds = es @ [d]" using assms(2) by (cases ds rule: rev_cases) auto
  have "takeWhile (\<lambda>ch. \<not> is_digit ch) (rev suf @ d # rev es) = rev suf \<and>
        dropWhile (\<lambda>ch. \<not> is_digit ch) (rev suf @ d # rev es) = d # rev es"
    using assms(1,3) ds by (subst takeWhile_append2 dropWhile_append2; auto simp: list_all_iff)+
  then show "takeWhile (\<lambda>ch. \<not> is_digit ch) (rev (ds @ suf)) = rev suf"
    "dropWhile (\<lambda>ch. \<not> is_digit ch) (rev (ds @ suf)) = rev ds" by (simp_all add: ds)
qed

lemma UnmarshalYAML_FormatUint:
  assumes "list_all (\<lambda>ch. \<not> is_digit ch) suf"
  shows "UnmarshalYAML (Inr (FormatUint v @ suf)) b = scale (map to_lower suf) v"
  by (simp add: UnmarshalYAML_def Let_def split_suffix [OF FormatUint_digits assms] FormatUint_digits(2)
      del: rev_append dropWhile_eq_Nil_conv)

lemma ByteSize_Int_spec:
  "ByteSize_Int b = (if unat b < 2 ^ 63 then Inr (int (unat b)) else Inl (Err ''config: ByteSize value overflows platform int''))"
proof -
  have m: "maxInt = 2 ^ 63 - 1" by (simp add: maxInt_def mask_eq_exp_minus_1)
  show "ByteSize_Int b = (if unat b < 2 ^ 63 then Inr (int (unat b)) else Inl (Err ''config: ByteSize value overflows platform int''))"
  proof (cases "unat b < 2 ^ 63")
    case True
    have u: "uint b = int (unat b)" by simp
    have "uint b < 2 ^ 63" unfolding u using True by (simp only: of_nat_less_numeral_power_cancel_iff)
    then have "signed_take_bit 63 (uint b) = uint b" using uint_ge_0 [of b] by (intro signed_take_bit_int_eq_self) linarith+
    with True show ?thesis by (simp add: ByteSize_Int_def m word_less_nat_alt sint_uint)
  qed (simp add: ByteSize_Int_def m word_less_nat_alt)
qed

lemma ByteSize_Int_range: "ByteSize_Int b = Inr n \<Longrightarrow> 0 \<le> n \<and> n < 2 ^ 63"
  by (auto simp: ByteSize_Int_spec simp del: of_nat_unat split: if_splits)

text \<open>C28. Every byte size survives its YAML form: \<open>UnmarshalYAML\<close> reads back what \<open>MarshalYAML\<close> writes,
  whatever the target held before. A size that a platform \<open>int\<close> cannot hold is refused by \<open>Int\<close>, and every
  other one is returned as it is.\<close>

theorem bytesize_roundtrip:
  "UnmarshalYAML (Inr (MarshalYAML b)) b0 = Inr b \<and>
   ByteSize_Int b = (if unat b < 2 ^ 63 then Inr (int (unat b)) else Inl (Err ''config: ByteSize value overflows platform int''))"
proof
  have nd: "list_all (\<lambda>ch. \<not> is_digit ch) ''B''" "list_all (\<lambda>ch. \<not> is_digit ch) ''KB''"
    "list_all (\<lambda>ch. \<not> is_digit ch) ''MB''" "list_all (\<lambda>ch. \<not> is_digit ch) ''GB''"
    "list_all (\<lambda>ch. \<not> is_digit ch) ''TB''" by code_simp+
  have low: "map to_lower ''B'' = ''b''" "map to_lower ''KB'' = ''kb''" "map to_lower ''MB'' = ''mb''"
    "map to_lower ''GB'' = ''gb''" "map to_lower ''TB'' = ''tb''" by code_simp+
  have suf: "scale (map to_lower ''B'') v = Inr v" "scale (map to_lower ''KB'') v = Inr (v * KB)"
    "scale (map to_lower ''MB'') v = Inr (v * MB)" "scale (map to_lower ''GB'') v = Inr (v * GB)"
    "scale (map to_lower ''TB'') v = Inr (v * TB)" for v
    unfolding low by (simp_all add: scale_def)
  have whole: "b div n * n = b" if "b mod n = 0" for n using that by (metis add.right_neutral div_mult_mod_eq)
  show "UnmarshalYAML (Inr (MarshalYAML b)) b0 = Inr b"
    by (simp add: MarshalYAML_def nd [THEN UnmarshalYAML_FormatUint] suf whole del: list.map)
qed (rule ByteSize_Int_spec)

end
