(* ===== verification/Wire.thy ===== *)
theory Wire
  imports Prelude "HOL-Library.Product_Lexorder" "HOL-Library.Multiset"
begin

text \<open>
  The messages of \<open>broadcast/types.proto\<close> as the Go structs of \<open>broadcast/types.pb.go\<close>, and the helpers
  of \<open>broadcast/ext.go\<close> on them. The protobuf codec and the hash function are third-party or library
  code that the program only calls: they are arguments of the definitions that use them.
\<close>

section \<open>Messages\<close>

record SignedData =
  Data :: bytes
  Signature :: bytes

record Transactions =
  Count :: u64
  TxsData :: bytes

record Block =
  bNode :: u64
  Previous :: "SignedData option"
  References :: "SignedData list"
  bRound :: u64
  bTransactions :: "Transactions option"

record BlockReference =
  refHash :: bytes
  refNode :: u64
  refRound :: u64

record AckBroadcast =
  Last :: u64

record GetBlocks =
  gbBlocks :: "BlockReference list"

record GetRounds =
  Rounds :: "u64 list"

record ListBlocks =
  lbBlocks :: "SignedData option list"

text \<open>
  \<open>proto.Marshal\<close> and \<open>proto.Unmarshal\<close> at the message types. The elements of \<open>lbBlocks\<close> are pointers, and
  one handler fills in nil; the other repeated fields are never given one.
\<close>

record proto =
  mSignedData :: "SignedData \<Rightarrow> bytes res"
  uSignedData :: "bytes \<Rightarrow> SignedData res"
  mBlock :: "Block \<Rightarrow> bytes res"
  uBlock :: "bytes \<Rightarrow> Block res"
  mBlockReference :: "BlockReference \<Rightarrow> bytes res"
  uBlockReference :: "bytes \<Rightarrow> BlockReference res"
  mListBlocks :: "ListBlocks \<Rightarrow> bytes res"
  uListBlocks :: "bytes \<Rightarrow> ListBlocks res"
  mAckBroadcast :: "AckBroadcast \<Rightarrow> bytes res"
  uAckBroadcast :: "bytes \<Rightarrow> AckBroadcast res"
  mGetRounds :: "GetRounds \<Rightarrow> bytes res"
  uGetRounds :: "bytes \<Rightarrow> GetRounds res"
  uGetBlocks :: "bytes \<Rightarrow> GetBlocks res"

section \<open>Sizes and digests\<close>

definition BlockReference_Size :: "BlockReference \<Rightarrow> nat" where
  "BlockReference_Size b = length (refHash b) + 100"

definition SignedData_Size :: "SignedData \<Rightarrow> nat" where
  "SignedData_Size s = length (Data s) + length (Signature s) + 100"

text \<open>\<open>sha\<close> is \<open>sha512.New512_256\<close> applied to the whole input; \<open>unmarshal\<close> is \<open>proto.Unmarshal\<close> into a \<open>Block\<close>.\<close>

definition Digest :: "(bytes \<Rightarrow> bytes) \<Rightarrow> SignedData \<Rightarrow> bytes" where
  "Digest sha s = sha (Data s)"

definition SignedData_Block :: "(bytes \<Rightarrow> Block res) \<Rightarrow> SignedData \<Rightarrow> Block res" where
  "SignedData_Block unmarshal s =
     (case unmarshal (Data s) of Inl e \<Rightarrow> Inl e | Inr block \<Rightarrow> Inr block)"

section \<open>Transactions\<close>

record TransactionData =
  tdData :: bytes
  tdFee :: u64

text \<open>The order of \<open>TransactionList.Sort\<close>: descending fee, then descending hash.\<close>

definition tx_before :: "(bytes \<Rightarrow> bytes) \<Rightarrow> TransactionData \<Rightarrow> TransactionData \<Rightarrow> bool" where
  "tx_before sha a b =
     (if tdFee a = tdFee b then sha (tdData a) > sha (tdData b) else tdFee a > tdFee b)"

text \<open>
  \<open>sort.Slice\<close> with that order. The transactions it leaves unordered have the same fee and hash; their
  relative order is not specified by the library, the model takes one.
\<close>

definition Sort :: "(bytes \<Rightarrow> bytes) \<Rightarrow> TransactionData list \<Rightarrow> TransactionData list" where
  "Sort sha t = rev (sort_key (\<lambda>x. (tdFee x, sha (tdData x))) t)"

record TxIterator =
  it_cur :: u64
  it_data :: bytes
  it_idx :: nat
  it_total :: u64
  it_TxData :: bytes
  it_TxFee :: u64

definition Next :: "TxIterator \<Rightarrow> TxIterator res" where
  "Next t =
     bindE (gslice (it_data t) (it_idx t) (it_idx t + 8)) (\<lambda>b.
     bindE (Uint64 b) (\<lambda>fee.
     bindE (gslice (it_data t) (it_idx t + 8) (it_idx t + 12)) (\<lambda>b.
     bindE (Uint32 b) (\<lambda>sz.
     bindE (gslice (it_data t) (it_idx t + 12) (it_idx t + 12 + unat sz)) (\<lambda>d.
     Inr (t\<lparr>it_TxFee := fee, it_TxData := d, it_idx := it_idx t + 12 + unat sz, it_cur := it_cur t + 1\<rparr>))))))"

definition TxIterator_Valid :: "TxIterator \<Rightarrow> bool" where
  "TxIterator_Valid t \<longleftrightarrow> it_cur t < it_total t"

text \<open>\<open>b.Transactions\<close> is a pointer: reading through nil panics.\<close>

definition Iter :: "Block \<Rightarrow> TxIterator res" where
  "Iter b = (case bTransactions b of None \<Rightarrow> Inl (Panic ''nil pointer dereference'')
     | Some ts \<Rightarrow> Inr \<lparr>it_cur = 0, it_data = TxsData ts, it_idx = 0, it_total = Count ts,
                     it_TxData = [], it_TxFee = 0\<rparr>)"

text \<open>A client's loop over an iterator, collecting fees and data.\<close>

function tx_loop :: "TxIterator \<Rightarrow> TransactionData list res" where
  "tx_loop t =
     (if TxIterator_Valid t then
        bindE (Next t) (\<lambda>t'. bindE (tx_loop t') (\<lambda>rest.
          Inr (\<lparr>tdData = it_TxData t', tdFee = it_TxFee t'\<rparr> # rest)))
      else Inr [])"
  by pat_completeness auto
termination
proof (relation "measure (\<lambda>t. unat (it_total t) - unat (it_cur t))", goal_cases)
  case (2 t t')
  then have c: "it_cur t' = it_cur t + 1" "it_total t' = it_total t" by (auto simp: Next_def bindE_eq_Inr)
  from 2(1) have less: "unat (it_cur t) < unat (it_total t)" by (simp add: TxIterator_Valid_def word_less_nat_alt)
  moreover have "unat (it_cur t + 1) = Suc (unat (it_cur t))"
    using 2(1) by (intro unat_incr) (simp add: TxIterator_Valid_def)
  ultimately show ?case by (simp add: c)
qed simp

declare tx_loop.simps [simp del]

section \<open>Lemmas\<close>

text \<open>The encoding of a transaction that the iterator reads.\<close>

definition tx_bytes :: "TransactionData \<Rightarrow> bytes" where
  "tx_bytes t = PutUint64 (tdFee t) @ PutUint32 (of_nat (length (tdData t))) @ tdData t"

lemma length_tx_bytes [simp]: "length (tx_bytes t) = 12 + length (tdData t)"
  by (simp add: tx_bytes_def)

lemma Next_tx_bytes:
  assumes "it_data t = pre @ tx_bytes x @ post" and "it_idx t = length pre" and "length (tdData x) < 2 ^ 32"
  shows "Next t = Inr (t\<lparr>it_TxFee := tdFee x, it_TxData := tdData x,
    it_idx := length pre + length (tx_bytes x), it_cur := it_cur t + 1\<rparr>)"
proof -
  let ?sz = "of_nat (length (tdData x)) :: u32"
  have sz: "unat ?sz = length (tdData x)" using assms(3) by (simp add: unsigned_of_nat take_bit_nat_eq_self)
  have "gslice (it_data t) (length pre) (length pre + 8) = Inr (PutUint64 (tdFee x))"
    using gslice_middle [of pre "PutUint64 (tdFee x)" "PutUint32 ?sz @ tdData x @ post"]
    by (simp add: assms tx_bytes_def)
  moreover have "gslice (it_data t) (length pre + 8) (length pre + 12) = Inr (PutUint32 ?sz)"
    using gslice_middle [of "pre @ PutUint64 (tdFee x)" "PutUint32 ?sz" "tdData x @ post"]
    by (simp add: assms tx_bytes_def add.commute)
  moreover have "gslice (it_data t) (length pre + 12) (length pre + 12 + unat ?sz) = Inr (tdData x)"
    using gslice_middle [of "pre @ PutUint64 (tdFee x) @ PutUint32 ?sz" "tdData x" post]
    by (simp add: assms tx_bytes_def sz)
  ultimately show ?thesis
    using Uint64_Put [of "tdFee x" "[]"] Uint32_Put [of ?sz "[]"] by (simp add: Next_def assms(2) sz)
qed

lemma tx_loop_tx_bytes:
  assumes "it_data t = pre @ concat (map tx_bytes xs) @ post" and "it_idx t = length pre"
    and "\<forall>x\<in>set xs. length (tdData x) < 2 ^ 32"
    and "unat (it_cur t) + length xs = unat (it_total t)"
  shows "tx_loop t = Inr xs"
  using assms
proof (induction xs arbitrary: t pre)
  case Nil
  then show ?case by (simp add: tx_loop.simps [of t] TxIterator_Valid_def word_less_nat_alt)
next
  case (Cons x xs)
  have valid: "it_cur t < it_total t" using Cons.prems(4) by (simp add: word_less_nat_alt)
  define t' where "t' = t\<lparr>it_TxFee := tdFee x, it_TxData := tdData x,
    it_idx := length pre + length (tx_bytes x), it_cur := it_cur t + 1\<rparr>"
  have nx: "Next t = Inr t'"
    unfolding t'_def using Cons.prems by (intro Next_tx_bytes [where post = "concat (map tx_bytes xs) @ post"]) auto
  have "tx_loop t' = Inr xs"
    using Cons.prems unat_incr [OF valid]
    by (intro Cons.IH [where pre = "pre @ tx_bytes x"]) (simp_all add: t'_def)
  with nx valid show ?case by (simp add: tx_loop.simps [of t] TxIterator_Valid_def) (simp add: t'_def)
qed

lemma sorted_rev_nth:
  fixes f :: "'a \<Rightarrow> 'b::linorder"
  assumes "i \<le> j" "j < length xs"
  shows "f (rev (sort_key f xs) ! j) \<le> f (rev (sort_key f xs) ! i)"
proof -
  have "sorted (map f (sort_key f xs))" by simp
  then have "sorted_wrt (\<ge>) (rev (map f (sort_key f xs)))" by (simp add: sorted_wrt_rev)
  then have "rev (map f (sort_key f xs)) ! j \<le> rev (map f (sort_key f xs)) ! i"
    using assms by (cases "i = j") (auto simp: sorted_wrt_iff_nth_less)
  then have "map f (rev (sort_key f xs)) ! j \<le> map f (rev (sort_key f xs)) ! i" by (simp only: rev_map)
  with assms show ?thesis by simp
qed

section \<open>Properties\<close>

text \<open>
  \<open>Sort\<close> permutes the transactions and leaves none before one that should precede it: the fees
  descend, and hashes descend among equal fees.
\<close>

theorem transactions_sorted:
  assumes "i < j" and "j < length ts"
  shows "mset (Sort sha ts) = mset ts \<and> \<not> tx_before sha (Sort sha ts ! j) (Sort sha ts ! i)"
  using sorted_rev_nth [of i j ts "\<lambda>x. (tdFee x, sha (tdData x))"] assms
  by (auto simp: Sort_def tx_before_def less_eq_prod_simp split: if_splits)

theorem transactions_sorted_witness:
  "mset (Sort id [\<lparr>tdData = [1], tdFee = 3\<rparr>, \<lparr>tdData = [2], tdFee = 3\<rparr>]) =
     mset [\<lparr>tdData = [1], tdFee = 3\<rparr>, \<lparr>tdData = [2], tdFee = 3\<rparr>] \<and>
   \<not> tx_before id (Sort id [\<lparr>tdData = [1], tdFee = 3\<rparr>, \<lparr>tdData = [2], tdFee = 3\<rparr>] ! 1)
       (Sort id [\<lparr>tdData = [1], tdFee = 3\<rparr>, \<lparr>tdData = [2], tdFee = 3\<rparr>] ! 0)"
  using transactions_sorted [of 0 1 "[\<lparr>tdData = [1], tdFee = 3\<rparr>, \<lparr>tdData = [2], tdFee = 3\<rparr>]" id] by simp

end
