(* ===== verification/ServiceMsg.thy ===== *)
theory ServiceMsg
  imports Wire
begin

text \<open>
  The package \<open>service\<close>: the messages that services exchange and the signed hello that opens a
  connection. The codec, the signing key, the clock and the source of random bytes are arguments.
\<close>

section \<open>Opcodes and connection types\<close>

type_synonym i32 = "32 word"

definition OP_UNKNOWN :: i32 where "OP_UNKNOWN = 0"
definition OP_ACK_BROADCAST :: i32 where "OP_ACK_BROADCAST = 1"
definition OP_BROADCAST :: i32 where "OP_BROADCAST = 2"
definition OP_GET_BLOCKS :: i32 where "OP_GET_BLOCKS = 3"
definition OP_GET_ROUNDS :: i32 where "OP_GET_ROUNDS = 4"
definition OP_LIST_BLOCKS :: i32 where "OP_LIST_BLOCKS = 5"

definition CONNECTION_UNKNOWN :: i32 where "CONNECTION_UNKNOWN = 0"
definition CONNECTION_BROADCAST :: i32 where "CONNECTION_BROADCAST = 1"
definition CONNECTION_SBAC :: i32 where "CONNECTION_SBAC = 2"
definition CONNECTION_KV :: i32 where "CONNECTION_KV = 3"
definition CONNECTION_CHECKER :: i32 where "CONNECTION_CHECKER = 4"

section \<open>Messages\<close>

record smessage =
  smID :: u64
  smError :: string
  smOpcode :: i32
  smPayload :: bytes

text \<open>A time is a number of nanoseconds.\<close>

record HelloInfo =
  hiClient :: u64
  hiNonce :: bytes
  hiServer :: u64
  hiTimestamp :: int

record Hello =
  hAgent :: string
  hPayload :: bytes
  hSignature :: bytes
  hType :: i32

definition SignHello ::
    "(HelloInfo \<Rightarrow> bytes res) \<Rightarrow> (bytes \<Rightarrow> bytes) \<Rightarrow> bytes res \<Rightarrow> int \<Rightarrow> u64 \<Rightarrow> u64 \<Rightarrow> i32 \<Rightarrow> Hello res" where
  "SignHello marshal sign random now clientID serverID c =
     bindE random (\<lambda>nonce.
     bindE (marshal \<lparr>hiClient = clientID, hiNonce = nonce, hiServer = serverID, hiTimestamp = now\<rparr>) (\<lambda>payload.
     Inr \<lparr>hAgent = ''go/0.0.1'', hPayload = payload, hSignature = sign payload, hType = c\<rparr>))"

definition EncodeMessage :: "('pb \<Rightarrow> bytes res) \<Rightarrow> i32 \<Rightarrow> 'pb \<Rightarrow> smessage res" where
  "EncodeMessage marshal opcode pb = (case marshal pb of
       Inl e \<Rightarrow> Inl (Panic ''marshal'')
     | Inr payload \<Rightarrow> Inr \<lparr>smID = 0, smError = [], smOpcode = opcode, smPayload = payload\<rparr>)"

end
