(* ===== verification/Keys.thy ===== *)
theory Keys
  imports Lexinum Messages
begin

text \<open>
  The byte layouts of \<open>broadcast/store.go\<close>: the keys of the database, the decoders of block ids, and the
  encoding of block graphs. Every key starts with a byte that names its kind.
\<close>

section \<open>Keys\<close>

definition blockPrefix :: u8 where "blockPrefix = 1"
definition blockGraphPrefix :: u8 where "blockGraphPrefix = 2"
definition includedPrefix :: u8 where "includedPrefix = 3"
definition interpretedPrefix :: u8 where "interpretedPrefix = 4"
definition lastBlockRefPrefix :: u8 where "lastBlockRefPrefix = 5"
definition lastHashPrefix :: u8 where "lastHashPrefix = 6"
definition lastInterpretedPrefix :: u8 where "lastInterpretedPrefix = 7"
definition lastRoundPrefix :: u8 where "lastRoundPrefix = 8"
definition notIncludedPrefix :: u8 where "notIncludedPrefix = 9"
definition ownBlockPrefix :: u8 where "ownBlockPrefix = 10"
definition receivedMapPrefix :: u8 where "receivedMapPrefix = 11"
definition roundAcknowledgedPrefix :: u8 where "roundAcknowledgedPrefix = 12"
definition sentMapPrefix :: u8 where "sentMapPrefix = 13"

lemmas prefix_defs = blockPrefix_def blockGraphPrefix_def includedPrefix_def interpretedPrefix_def
  lastBlockRefPrefix_def lastHashPrefix_def lastInterpretedPrefix_def lastRoundPrefix_def notIncludedPrefix_def
  ownBlockPrefix_def receivedMapPrefix_def roundAcknowledgedPrefix_def sentMapPrefix_def

definition encodeBlockID :: "BlockID \<Rightarrow> bytes" where
  "encodeBlockID i = Encode (Node i) @ [0] @ Encode (Round i) @ [0] @ Hash i"

definition blockGraphKey :: "BlockID \<Rightarrow> bytes" where
  "blockGraphKey i = [blockGraphPrefix] @ Encode (Node i) @ [0] @ Encode (Round i) @ [0] @ Hash i"

definition blockKey :: "BlockID \<Rightarrow> bytes" where
  "blockKey i = [blockPrefix] @ Encode (Node i) @ [0] @ Encode (Round i) @ [0] @ Hash i"

definition includedKey :: "BlockID \<Rightarrow> bytes" where
  "includedKey i = [includedPrefix] @ Encode (Node i) @ [0] @ Encode (Round i) @ [0] @ Hash i"

definition notIncludedKey :: "BlockID \<Rightarrow> bytes" where
  "notIncludedKey i = [notIncludedPrefix] @ Encode (Node i) @ [0] @ Encode (Round i) @ [0] @ Hash i"

definition interpretedKey :: "u64 \<Rightarrow> bytes" where
  "interpretedKey round = [interpretedPrefix] @ Encode round"

definition ownBlockKey :: "u64 \<Rightarrow> bytes" where
  "ownBlockKey round = [ownBlockPrefix] @ Encode round"

section \<open>Decoders\<close>

text \<open>The loop of \<open>decodeBlockID\<close> at position \<open>i\<close> of \<open>d\<close>.\<close>

fun decode_id_loop :: "bytes \<Rightarrow> nat \<Rightarrow> bytes \<Rightarrow> nat \<Rightarrow> u64 \<Rightarrow> nat \<Rightarrow> BlockID res" where
  "decode_id_loop d i [] stage nodeID rstart = Inr \<lparr>Hash = [], Node = nodeID, Round = 0\<rparr>"
| "decode_id_loop d i (char # rest) stage nodeID rstart =
     (if char = 0 \<and> stage = 0 then
        bindE (gslice d 0 i) (\<lambda>s. bindE (Decode s) (\<lambda>n. decode_id_loop d (Suc i) rest (Suc stage) n (i + 1)))
      else if char = 0 \<and> stage = 1 then
        bindE (gslice d rstart i) (\<lambda>s. bindE (Decode s) (\<lambda>round.
        bindE (gslice d (i + 1) (length d)) (\<lambda>hash. Inr \<lparr>Hash = hash, Node = nodeID, Round = round\<rparr>)))
      else decode_id_loop d (Suc i) rest stage nodeID rstart)"

definition decodeBlockID :: "bytes \<Rightarrow> BlockID res" where
  "decodeBlockID d = decode_id_loop d 0 d 0 0 0"

text \<open>The loop of \<open>decodeBlockRound\<close>: the bounds of the round.\<close>

fun round_bounds :: "nat \<Rightarrow> bytes \<Rightarrow> nat \<Rightarrow> nat \<times> nat" where
  "round_bounds i [] rstart = (rstart, 0)"
| "round_bounds i (char # rest) rstart =
     (if char = 0 then (if rstart = 0 then round_bounds (Suc i) rest (i + 2) else (rstart, i + 1))
      else round_bounds (Suc i) rest rstart)"

definition decodeBlockRound :: "bytes \<Rightarrow> u64 res" where
  "decodeBlockRound d =
     bindE (gslice d 1 (length d)) (\<lambda>tail.
       let (rstart, rend) = round_bounds 0 tail 0 in bindE (gslice d rstart rend) Decode)"

section \<open>Block graphs\<close>

text \<open>A length of two bytes and the encoded id, as \<open>encodeBlockGraph\<close> appends them.\<close>

definition put_id :: "BlockID \<Rightarrow> bytes" where
  "put_id i = PutUint16 (of_nat (length (encodeBlockID i))) @ encodeBlockID i"

definition put_prev :: "BlockID \<Rightarrow> bytes" where
  "put_prev i = (if Valid i then put_id i else [0x00, 0x00])"

definition put_dep :: "Dep \<Rightarrow> bytes" where
  "put_dep dep = put_id (dBlock dep) @ put_prev (dPrev dep) @
     PutUint32 (of_nat (length (dDeps dep))) @ concat (map put_id (dDeps dep))"

definition encodeBlockGraph :: "BlockGraph \<Rightarrow> bytes" where
  "encodeBlockGraph block = put_prev (gPrev block) @
     PutUint32 (of_nat (length (gDeps block))) @ concat (map put_dep (gDeps block))"

text \<open>Reading at an index: \<open>val[idx:]\<close> panics past the end, as do the integer readers on short slices.\<close>

definition gfrom :: "bytes \<Rightarrow> nat \<Rightarrow> bytes res" where
  "gfrom val idx = gslice val idx (length val)"

definition get_id :: "bytes \<Rightarrow> nat \<Rightarrow> (BlockID \<times> nat) res" where
  "get_id val idx =
     bindE (gfrom val idx) (\<lambda>s. bindE (Uint16 s) (\<lambda>w. let ksize = unat w in
     bindE (gslice val (idx + 2) (idx + 2 + ksize)) (\<lambda>k.
     bindE (decodeBlockID k) (\<lambda>i. Inr (i, idx + 2 + ksize)))))"

definition get_prev :: "bytes \<Rightarrow> nat \<Rightarrow> (BlockID \<times> nat) res" where
  "get_prev val idx =
     bindE (gfrom val idx) (\<lambda>s. bindE (Uint16 s) (\<lambda>w. let ksize = unat w in
     if ksize > 0 then
       bindE (gslice val (idx + 2) (idx + 2 + ksize)) (\<lambda>k.
       bindE (decodeBlockID k) (\<lambda>i. Inr (i, idx + 2 + ksize)))
     else Inr (zeroID, idx + 2)))"

fun get_links :: "bytes \<Rightarrow> nat \<Rightarrow> nat \<Rightarrow> (BlockID list \<times> nat) res" where
  "get_links val 0 idx = Inr ([], idx)"
| "get_links val (Suc n) idx =
     bindE (get_id val idx) (\<lambda>(link, idx). bindE (get_links val n idx) (\<lambda>(links, idx). Inr (link # links, idx)))"

definition get_size :: "bytes \<Rightarrow> nat \<Rightarrow> (nat \<times> nat) res" where
  "get_size val idx = bindE (gfrom val idx) (\<lambda>s. bindE (Uint32 s) (\<lambda>w. Inr (unat w, idx + 4)))"

definition get_dep :: "bytes \<Rightarrow> nat \<Rightarrow> (Dep \<times> nat) res" where
  "get_dep val idx =
     bindE (get_id val idx) (\<lambda>(i, idx).
     bindE (get_prev val idx) (\<lambda>(prev, idx).
     bindE (get_size val idx) (\<lambda>(lsize, idx).
     bindE (get_links val lsize idx) (\<lambda>(links, idx).
     Inr (\<lparr>dBlock = i, dDeps = links, dPrev = prev\<rparr>, idx)))))"

fun get_deps :: "bytes \<Rightarrow> nat \<Rightarrow> nat \<Rightarrow> (Dep list \<times> nat) res" where
  "get_deps val 0 idx = Inr ([], idx)"
| "get_deps val (Suc n) idx =
     bindE (get_dep val idx) (\<lambda>(dep, idx). bindE (get_deps val n idx) (\<lambda>(deps, idx). Inr (dep # deps, idx)))"

text \<open>The part of the loop of \<open>getBlockGraphs\<close> that decodes the value of an item.\<close>

definition decode_graph :: "BlockID \<Rightarrow> bytes \<Rightarrow> BlockGraph res" where
  "decode_graph i val =
     bindE (get_prev val 0) (\<lambda>(prev, idx).
     bindE (get_size val idx) (\<lambda>(sz, idx).
     bindE (get_deps val sz idx) (\<lambda>(deps, idx).
     Inr \<lparr>gBlock = i, gDeps = deps, gPrev = prev\<rparr>)))"

section \<open>Keys are unambiguous\<close>

lemma encodeBlockID_eq_iff [simp]: "encodeBlockID i = encodeBlockID j \<longleftrightarrow> i = j"
  by (cases i; cases j) (auto simp: encodeBlockID_def lexinum.key_eq_iff)

lemma key_layout:
  "blockGraphKey i = blockGraphPrefix # encodeBlockID i" "blockKey i = blockPrefix # encodeBlockID i"
  "includedKey i = includedPrefix # encodeBlockID i" "notIncludedKey i = notIncludedPrefix # encodeBlockID i"
  by (simp_all add: blockGraphKey_def blockKey_def includedKey_def notIncludedKey_def encodeBlockID_def)

lemma encodeBlockID_less: "encodeBlockID i < encodeBlockID j \<longleftrightarrow>
    Node i < Node j \<or> Node i = Node j \<and> (Round i < Round j \<or> Round i = Round j \<and> Hash i < Hash j)"
  by (simp add: encodeBlockID_def lexinum.key_less_iff)

section \<open>Round trips\<close>

lemma decode_id_skip:
  "0 \<notin> set us \<Longrightarrow> decode_id_loop d i (us @ 0 # vs) stage n r = decode_id_loop d (i + length us) (0 # vs) stage n r"
  by (induction us arbitrary: i) auto

lemma decodeBlockID_encode [codec]: "decodeBlockID (encodeBlockID i) = Inr i"
proof -
  let ?n = "Encode (Node i)" and ?r = "Encode (Round i)" and ?d = "encodeBlockID i"
  have d: "?d = ?n @ 0 # ?r @ 0 # Hash i" by (simp add: encodeBlockID_def)
  have 1: "gslice ?d 0 (length ?n) = Inr ?n" using gslice_middle [of "[]" ?n] by (simp add: d)
  have 2: "gslice ?d (Suc (length ?n)) (Suc (length ?n + length ?r)) = Inr ?r"
    using gslice_middle [of "?n @ [0]" ?r "0 # Hash i"] by (simp add: d)
  have 3: "gslice ?d (Suc (Suc (length ?n + length ?r))) (length ?d) = Inr (Hash i)"
    by (simp add: d gslice_def)
  have "decodeBlockID ?d = decode_id_loop ?d (length ?n) (0 # ?r @ 0 # Hash i) 0 0 0"
    using decode_id_skip [OF Encode_no_zero, of ?d 0 "Node i" "?r @ 0 # Hash i"] by (simp add: decodeBlockID_def d)
  also have "\<dots> = decode_id_loop ?d (Suc (length ?n)) (?r @ 0 # Hash i) 1 (Node i) (Suc (length ?n))"
    by (simp add: 1 lexinum.dec_enc)
  also have "\<dots> = decode_id_loop ?d (Suc (length ?n + length ?r)) (0 # Hash i) 1 (Node i) (Suc (length ?n))"
    using decode_id_skip [OF Encode_no_zero, of ?d "Suc (length ?n)" "Round i"] by simp
  also have "\<dots> = Inr i" by (simp add: 2 3 lexinum.dec_enc)
  finally show ?thesis .
qed

lemma round_bounds_skip:
  "0 \<notin> set us \<Longrightarrow> round_bounds i (us @ 0 # vs) r = round_bounds (i + length us) (0 # vs) r"
  by (induction us arbitrary: i) auto

lemma decodeBlockRound_key [codec]: "decodeBlockRound (p # encodeBlockID i) = Inr (Round i)"
proof -
  let ?n = "Encode (Node i)" and ?r = "Encode (Round i)" and ?d = "p # encodeBlockID i"
  have "round_bounds 0 (encodeBlockID i) 0 = round_bounds (Suc (length ?n)) (?r @ 0 # Hash i) (length ?n + 2)"
    using round_bounds_skip [OF Encode_no_zero, of 0 "Node i" "?r @ 0 # Hash i" 0] by (simp add: encodeBlockID_def)
  also have "\<dots> = (length ?n + 2, Suc (Suc (length ?n + length ?r)))"
    using round_bounds_skip [OF Encode_no_zero, of "Suc (length ?n)" "Round i" "Hash i" "length ?n + 2"] by simp
  finally have b: "round_bounds 0 (encodeBlockID i) 0 = (length ?n + 2, Suc (Suc (length ?n + length ?r)))" .
  have "gslice ?d (length ?n + 2) (Suc (Suc (length ?n + length ?r))) = Inr ?r"
    using gslice_middle [of "p # ?n @ [0]" ?r "0 # Hash i"] by (simp add: encodeBlockID_def)
  moreover have "gslice ?d 1 (length ?d) = Inr (encodeBlockID i)" by (simp add: gslice_def)
  ultimately show ?thesis by (simp add: decodeBlockRound_def b lexinum.dec_enc)
qed

text \<open>
  What the readers of the value rely on: an item that was appended is read back at its position, and
  the index moves past it. A counted loop over such items reads back the list.
\<close>

locale item_codec =
  fixes put :: "'a \<Rightarrow> bytes"
    and get :: "bytes \<Rightarrow> nat \<Rightarrow> ('a \<times> nat) res"
    and getn :: "bytes \<Rightarrow> nat \<Rightarrow> nat \<Rightarrow> ('a list \<times> nat) res"
    and fits :: "'a \<Rightarrow> bool"
  assumes item: "fits x \<Longrightarrow> get (pre @ put x @ post) (length pre) = Inr (x, length pre + length (put x))"
    and none: "getn val 0 idx = Inr ([], idx)"
    and more: "getn val (Suc n) idx =
      bindE (get val idx) (\<lambda>(x, idx). bindE (getn val n idx) (\<lambda>(xs, idx). Inr (x # xs, idx)))"
begin

lemma items:
  "\<forall>x\<in>set xs. fits x \<Longrightarrow> getn (pre @ concat (map put xs) @ post) (length xs) (length pre) =
     Inr (xs, length pre + length (concat (map put xs)))"
proof (induction xs arbitrary: pre)
  case (Cons x xs)
  have "getn ((pre @ put x) @ concat (map put xs) @ post) (length xs) (length (pre @ put x)) =
      Inr (xs, length (pre @ put x) + length (concat (map put xs)))" using Cons by (intro Cons.IH) simp
  with item [of x pre "concat (map put xs) @ post"] Cons.prems show ?case by (simp add: more)
qed (simp add: none)

end

definition id_fits :: "BlockID \<Rightarrow> bool" where
  "id_fits i \<longleftrightarrow> length (encodeBlockID i) < 2 ^ 16"

definition prev_fits :: "BlockID \<Rightarrow> bool" where
  "prev_fits i \<longleftrightarrow> (if Valid i then id_fits i else i = zeroID)"

definition dep_fits :: "Dep \<Rightarrow> bool" where
  "dep_fits dep \<longleftrightarrow> id_fits (dBlock dep) \<and> prev_fits (dPrev dep) \<and> list_all id_fits (dDeps dep) \<and> length (dDeps dep) < 2 ^ 32"

definition graph_fits :: "BlockGraph \<Rightarrow> bool" where
  "graph_fits g \<longleftrightarrow> prev_fits (gPrev g) \<and> list_all dep_fits (gDeps g) \<and> length (gDeps g) < 2 ^ 32"

lemma unat_of_nat_u16: "n < 2 ^ 16 \<Longrightarrow> unat (of_nat n :: u16) = n"
  by (simp add: unsigned_of_nat take_bit_nat_eq_self)

lemma unat_of_nat_u32: "n < 2 ^ 32 \<Longrightarrow> unat (of_nat n :: u32) = n"
  by (simp add: unsigned_of_nat take_bit_nat_eq_self)

lemma gfrom_append [simp]: "gfrom (pre @ us) (length pre) = Inr us"
  by (simp add: gfrom_def gslice_def)

lemma encodeBlockID_nonempty: "0 < length (encodeBlockID i)"
  by (simp add: encodeBlockID_def)

lemma gslice_behind [simp]:
  "length p = l + 2 \<Longrightarrow> gslice (p @ m @ r) (l + 2) (l + 2 + length m) = Inr m"
  using gslice_middle [of p m r] by simp

lemma id_item:
  assumes "id_fits i"
  shows "get_id (pre @ put_id i @ post) (length pre) = Inr (i, length pre + length (put_id i))"
    "get_prev (pre @ put_id i @ post) (length pre) = Inr (i, length pre + length (put_id i))"
proof -
  let ?e = "encodeBlockID i" and ?l = "of_nat (length (encodeBlockID i)) :: u16"
  have l: "unat ?l = length ?e" using assms by (simp add: id_fits_def unat_of_nat_u16)
  have s: "gslice (pre @ PutUint16 ?l @ ?e @ post) (length pre + 2) (length pre + 2 + length ?e) = Inr ?e"
    using gslice_behind [of "pre @ PutUint16 ?l" "length pre" ?e post] by simp
  show "get_id (pre @ put_id i @ post) (length pre) = Inr (i, length pre + length (put_id i))"
    using s by (simp add: get_id_def put_id_def l decodeBlockID_encode)
  show "get_prev (pre @ put_id i @ post) (length pre) = Inr (i, length pre + length (put_id i))"
    using s encodeBlockID_nonempty [of i] by (simp add: get_prev_def put_id_def l decodeBlockID_encode)
qed

lemma Uint16_zero: "Uint16 (0 # 0 # r) = Inr 0"
  by (simp add: Uint16_def le_read_def numeral_2_eq_2)

lemma prev_item:
  "prev_fits i \<Longrightarrow> get_prev (pre @ put_prev i @ post) (length pre) = Inr (i, length pre + length (put_prev i))"
proof (cases "Valid i")
  case False
  assume "prev_fits i"
  with False show ?thesis by (simp add: prev_fits_def put_prev_def get_prev_def Uint16_zero)
qed (simp add: prev_fits_def put_prev_def id_item)

lemma size_item:
  "n < 2 ^ 32 \<Longrightarrow> get_size (pre @ PutUint32 (of_nat n) @ post) (length pre) = Inr (n, length pre + 4)"
  by (simp add: get_size_def unat_of_nat_u32)

interpretation links: item_codec put_id get_id get_links id_fits
  by unfold_locales (simp_all add: id_item)

lemma dep_item:
  assumes "dep_fits dep"
  shows "get_dep (pre @ put_dep dep @ post) (length pre) = Inr (dep, length pre + length (put_dep dep))"
proof -
  define p1 where "p1 = pre @ put_id (dBlock dep)"
  define p2 where "p2 = p1 @ put_prev (dPrev dep)"
  define p3 where "p3 = p2 @ PutUint32 (of_nat (length (dDeps dep)))"
  define ls where "ls = concat (map put_id (dDeps dep))"
  have val: "pre @ put_dep dep @ post = p3 @ ls @ post" by (simp add: put_dep_def p1_def p2_def p3_def ls_def)
  have fits: "id_fits (dBlock dep)" "prev_fits (dPrev dep)" "\<forall>x\<in>set (dDeps dep). id_fits x" "length (dDeps dep) < 2 ^ 32"
    using assms by (simp_all add: dep_fits_def list_all_iff)
  have "get_id (p3 @ ls @ post) (length pre) = Inr (dBlock dep, length p1)"
    using id_item(1) [OF fits(1), of pre] by (simp add: p1_def p2_def p3_def)
  moreover have "get_prev (p3 @ ls @ post) (length p1) = Inr (dPrev dep, length p2)"
    using prev_item [OF fits(2), of p1] by (simp add: p2_def p3_def)
  moreover have "get_size (p3 @ ls @ post) (length p2) = Inr (length (dDeps dep), length p3)"
    using size_item [OF fits(4), of p2] by (simp add: p3_def)
  moreover have "get_links (p3 @ ls @ post) (length (dDeps dep)) (length p3) = Inr (dDeps dep, length p3 + length ls)"
    unfolding ls_def by (rule links.items [OF fits(3)])
  ultimately show ?thesis
    by (simp add: get_dep_def val) (simp add: put_dep_def p1_def p2_def p3_def ls_def)
qed

interpretation deps: item_codec put_dep get_dep get_deps dep_fits
  by unfold_locales (simp_all add: dep_item)

lemma decode_encode_graph [codec]:
  assumes "graph_fits g"
  shows "decode_graph (gBlock g) (encodeBlockGraph g) = Inr g"
proof -
  define p1 where "p1 = put_prev (gPrev g)"
  define p2 where "p2 = p1 @ PutUint32 (of_nat (length (gDeps g)))"
  define ds where "ds = concat (map put_dep (gDeps g))"
  have val: "encodeBlockGraph g = p2 @ ds" by (simp add: encodeBlockGraph_def p1_def p2_def ds_def)
  have fits: "prev_fits (gPrev g)" "\<forall>x\<in>set (gDeps g). dep_fits x" "length (gDeps g) < 2 ^ 32"
    using assms by (simp_all add: graph_fits_def list_all_iff)
  have "get_prev (p2 @ ds) 0 = Inr (gPrev g, length p1)"
    using prev_item [OF fits(1), of "[]"] by (simp add: p1_def p2_def)
  moreover have "get_size (p2 @ ds) (length p1) = Inr (length (gDeps g), length p2)"
    using size_item [OF fits(3), of p1] by (simp add: p2_def)
  moreover have "get_deps (p2 @ ds) (length (gDeps g)) (length p2) = Inr (gDeps g, length p2 + length ds)"
    using deps.items [OF fits(2), of p2 "[]"] by (simp add: ds_def)
  ultimately show ?thesis by (simp add: decode_graph_def val)
qed

end
