(* ===== verification/Depgraph.thy ===== *)
theory Depgraph
  imports Messages Wire
begin

text \<open>
  The file \<open>broadcast/depgraph.go\<close>: blocks received from other nodes wait here until every block they
  refer to is included in a block of this node. The store is consulted through \<open>lookup\<close>, its
  \<open>isIncluded\<close>. The mutexes guard single operations; an operation of the model is one critical section
  or one iteration of the goroutine \<open>process\<close>.
\<close>

section \<open>Data\<close>

record blockData =
  bd_deps :: "BlockID list"
  bd_id :: BlockID
  bd_prev :: BlockID
  bd_ref :: SignedData

record depgraph =
  dg_await :: "(BlockID, BlockID list) gmap"
  dg_blocks :: "blockData list"
  dg_icache :: "(BlockID, bool) gmap"
  dg_in :: "blockData list"
  dg_pending :: "(BlockID, blockData) gmap"
  dg_self :: u64
  dg_tcache :: "(BlockID, bool) gmap"

type_synonym lookup = "BlockID \<Rightarrow> bool res"

definition newDepgraph :: "u64 \<Rightarrow> depgraph" where
  "newDepgraph self = \<lparr>dg_await = [], dg_blocks = [], dg_icache = [], dg_in = [], dg_pending = [],
     dg_self = self, dg_tcache = []\<rparr>"

section \<open>Operations\<close>

definition actuallyIncluded :: "BlockID \<Rightarrow> depgraph \<Rightarrow> depgraph" where
  "actuallyIncluded i d = d\<lparr>dg_tcache := AList.delete i (dg_tcache d)\<rparr>"

definition dg_add :: "blockData \<Rightarrow> depgraph \<Rightarrow> depgraph" where
  "dg_add info d = d\<lparr>dg_in := dg_in d @ [info]\<rparr>"

definition await_list :: "depgraph \<Rightarrow> BlockID \<Rightarrow> BlockID list" where
  "await_list d i = (case map_of (dg_await d) i of None \<Rightarrow> [] | Some l \<Rightarrow> l)"

definition await_add :: "BlockID \<Rightarrow> BlockID \<Rightarrow> depgraph \<Rightarrow> depgraph" where
  "await_add i dep d = (case map_of (dg_await d) dep of
       Some await \<Rightarrow> (if i \<in> set await then d
                     else d\<lparr>dg_await := AList.update dep (await @ [i]) (dg_await d)\<rparr>)
     | None \<Rightarrow> d\<lparr>dg_await := AList.update dep [i] (dg_await d)\<rparr>)"

definition addPending :: "blockData \<Rightarrow> BlockID list \<Rightarrow> depgraph \<Rightarrow> depgraph" where
  "addPending block deps d =
     fold (await_add (bd_id block)) deps (d\<lparr>dg_pending := AList.update (bd_id block) block (dg_pending d)\<rparr>)"

fun fit_count :: "int \<Rightarrow> int \<Rightarrow> blockData list \<Rightarrow> nat" where
  "fit_count limit sz [] = 0"
| "fit_count limit sz (block # blocks) =
     (let sz' = sz + int (SignedData_Size (bd_ref block)) in
      if sz' > limit then 0 else Suc (fit_count limit sz' blocks))"

definition getBlocks :: "int \<Rightarrow> depgraph \<Rightarrow> blockData list \<times> depgraph" where
  "getBlocks limit d =
     (let idx = fit_count limit 0 (dg_blocks d)
      in (take idx (dg_blocks d), d\<lparr>dg_blocks := drop idx (dg_blocks d)\<rparr>))"

definition isIncluded :: "lookup \<Rightarrow> BlockID \<Rightarrow> depgraph \<Rightarrow> (bool \<times> depgraph) res" where
  "isIncluded lookup i d = (case map_of (dg_tcache d) i of
       Some inc \<Rightarrow> Inr (inc, d)
     | None \<Rightarrow> (case map_of (dg_icache d) i of
         Some inc \<Rightarrow> Inr (inc, d)
       | None \<Rightarrow> (case lookup i of
           Inl e \<Rightarrow> Inl (Fatal ''Couldn't check if block has been included'')
         | Inr inc \<Rightarrow> Inr (inc, d\<lparr>dg_icache := AList.update i inc (dg_icache d)\<rparr>))))"

definition markIncluded :: "BlockID \<Rightarrow> depgraph \<Rightarrow> depgraph" where
  "markIncluded i d = d\<lparr>dg_icache := AList.update i True (dg_icache d),
     dg_tcache := AList.update i True (dg_tcache d)\<rparr>"

text \<open>
  The arguments of the call \<open>log.Debug("Missing dependency", ...)\<close> are evaluated at every log level: both
  ids are printed, which panics on a hash of less than 12 bytes.
\<close>

definition log_missing :: "BlockID \<Rightarrow> BlockID \<Rightarrow> unit res" where
  "log_missing i dep = bindE (BlockID_String i) (\<lambda>_. bindE (BlockID_String dep) (\<lambda>_. Inr ()))"

text \<open>The loop of \<open>processBlock\<close> over the referenced blocks, collecting the missing ones.\<close>

fun missing_deps :: "lookup \<Rightarrow> BlockID \<Rightarrow> BlockID list \<Rightarrow> depgraph \<Rightarrow> BlockID list \<Rightarrow> (BlockID list \<times> depgraph) res" where
  "missing_deps lookup i [] d deps = Inr (deps, d)"
| "missing_deps lookup i (dep # rest) d deps =
     (if Node dep = dg_self d then missing_deps lookup i rest d deps
      else bindE (isIncluded lookup dep d) (\<lambda>(inc, d').
        if inc then missing_deps lookup i rest d' deps
        else bindE (log_missing i dep) (\<lambda>_. missing_deps lookup i rest d' (deps @ [dep]))))"

definition processBlock :: "lookup \<Rightarrow> blockData \<Rightarrow> depgraph \<Rightarrow> (bool \<times> depgraph) res" where
  "processBlock lookup block d =
     bindE (isIncluded lookup (bd_id block) d) (\<lambda>(inc, d1).
     if inc then Inr (True, d1)
     else bindE (if Valid (bd_prev block)
                 then bindE (isIncluded lookup (bd_prev block) d1) (\<lambda>(inc, d2).
                        if inc then Inr ([], d2)
                        else bindE (log_missing (bd_id block) (bd_prev block)) (\<lambda>_. Inr ([bd_prev block], d2)))
                 else Inr ([], d1)) (\<lambda>(deps0, d2).
       bindE (missing_deps lookup (bd_id block) (bd_deps block) d2 deps0) (\<lambda>(deps, d3).
       if deps \<noteq> [] then Inr (False, addPending block deps d3)
       else (let d4 = markIncluded (bd_id block) d3
             in Inr (True, d4\<lparr>dg_blocks := dg_blocks d4 @ [block]\<rparr>)))))"

text \<open>The loop of \<open>process\<close> over the blocks that wait for \<open>next\<close>. A missing entry of \<open>pending\<close> is a nil
  pointer that \<open>processBlock\<close> reads.\<close>

fun visit_revdeps :: "lookup \<Rightarrow> BlockID list \<Rightarrow> BlockID list \<Rightarrow> BlockID set \<Rightarrow> depgraph \<Rightarrow>
    (BlockID list \<times> BlockID set \<times> depgraph) res" where
  "visit_revdeps lookup [] processed seen d = Inr (processed, seen, d)"
| "visit_revdeps lookup (revdep # revdeps) processed seen d =
     (if revdep \<in> seen then visit_revdeps lookup revdeps processed seen d
      else (case map_of (dg_pending d) revdep of
         None \<Rightarrow> Inl (Panic ''nil pointer dereference'')
       | Some block \<Rightarrow> bindE (processBlock lookup block d) (\<lambda>(ok, d').
           if ok then visit_revdeps lookup revdeps (processed @ [revdep]) {} d'
           else visit_revdeps lookup revdeps processed (insert revdep seen) d')))"

definition finish_visit :: "bool \<Rightarrow> BlockID \<Rightarrow> depgraph \<Rightarrow> depgraph" where
  "finish_visit first nxt d =
     (let d1 = d\<lparr>dg_await := AList.delete nxt (dg_await d)\<rparr>
      in if first then d1 else d1\<lparr>dg_pending := AList.delete nxt (dg_pending d1)\<rparr>)"

text \<open>The loop over \<open>processed\<close>: \<open>None\<close> stands for not returning.\<close>

partial_function (option) drain :: "lookup \<Rightarrow> bool \<Rightarrow> BlockID list \<Rightarrow> BlockID set \<Rightarrow> depgraph \<Rightarrow> depgraph res option" where
  "drain lookup first processed seen d = (case processed of
       [] \<Rightarrow> Some (Inr d)
     | nxt # rest \<Rightarrow> (case visit_revdeps lookup (await_list d nxt) rest seen d of
         Inl e \<Rightarrow> Some (Inl e)
       | Inr (processed', seen', d') \<Rightarrow> drain lookup False processed' seen' (finish_visit first nxt d')))"

declare drain.simps [code]

text \<open>One iteration of \<open>process\<close> on the next received block.\<close>

definition process_info :: "lookup \<Rightarrow> blockData \<Rightarrow> depgraph \<Rightarrow> depgraph res option" where
  "process_info lookup info d = (case processBlock lookup info d of
       Inl e \<Rightarrow> Some (Inl e)
     | Inr (ok, d') \<Rightarrow> if ok then drain lookup True [bd_id info] {bd_id info} d' else Some (Inr d'))"

definition prune_icache :: "nat \<Rightarrow> depgraph \<Rightarrow> depgraph" where
  "prune_icache i d =
     (if i mod 100 = 0 \<and> length (dg_icache d) > 1000 then d\<lparr>dg_icache := take 1000 (dg_icache d)\<rparr> else d)"

text \<open>Iteration \<open>i\<close> of the goroutine; with an empty \<open>in\<close> it waits.\<close>

definition process_step :: "lookup \<Rightarrow> nat \<Rightarrow> depgraph \<Rightarrow> depgraph res option" where
  "process_step lookup i d =
     (let d1 = prune_icache i d in
      case dg_in d1 of [] \<Rightarrow> Some (Inr d1)
      | info # rest \<Rightarrow> process_info lookup info (d1\<lparr>dg_in := rest\<rparr>))"

end
