(* ===== verification/Cache.thy ===== *)
theory Cache
  imports Wire
begin

text \<open>
  The file \<open>broadcast/cache.go\<close>: the cache of the node's own blocks, and the rounds received from each
  peer. The mutexes make every operation one step.
\<close>

section \<open>Own blocks\<close>

record ownBlocks =
  ob_data :: "(u64, SignedData) gmap"
  ob_latest :: u64

definition ob_get :: "u64 \<Rightarrow> ownBlocks \<Rightarrow> SignedData option" where
  "ob_get round ob = map_of (ob_data ob) round"

text \<open>The limit is computed in wrapping arithmetic.\<close>

definition ob_prune :: "nat \<Rightarrow> ownBlocks \<Rightarrow> ownBlocks" where
  "ob_prune sz ob =
     (if length (ob_data ob) \<le> sz then ob
      else let limit = ob_latest ob - of_nat sz
           in ob\<lparr>ob_data := filter (\<lambda>(round, block). round \<ge> limit) (ob_data ob)\<rparr>)"

definition ob_set :: "u64 \<Rightarrow> SignedData \<Rightarrow> ownBlocks \<Rightarrow> ownBlocks" where
  "ob_set round block ob = ob\<lparr>ob_data := AList.update round block (ob_data ob), ob_latest := round\<rparr>"

lemma ob_get_set [simp]: "ob_get r (ob_set round block ob) = (if r = round then Some block else ob_get r ob)"
  by (simp add: ob_get_def ob_set_def)

lemma ob_get_prune: "ob_get r (ob_prune n ob) = Some b \<Longrightarrow> ob_get r ob = Some b"
  by (auto simp: ob_get_def ob_prune_def Let_def map_of_filter_key split: if_splits)

section \<open>Received rounds\<close>

record receivedInfo =
  ri_latest :: u64
  ri_sequence :: u64

definition rm_get :: "u64 \<Rightarrow> (u64, receivedInfo) gmap \<Rightarrow> receivedInfo" where
  "rm_get nodeID r = (case map_of r nodeID of None \<Rightarrow> \<lparr>ri_latest = 0, ri_sequence = 0\<rparr> | Some info \<Rightarrow> info)"

definition rm_set :: "u64 \<Rightarrow> u64 \<Rightarrow> (u64, receivedInfo) gmap \<Rightarrow> (u64, receivedInfo) gmap" where
  "rm_set nodeID round r =
     (let info = rm_get nodeID r;
          info1 = (if ri_latest info < round then info\<lparr>ri_latest := round\<rparr> else info);
          info2 = (if ri_sequence info1 + 1 = round then info1\<lparr>ri_sequence := round\<rparr> else info1)
      in AList.update nodeID info2 r)"

definition rm_setSequence :: "u64 \<Rightarrow> u64 \<Rightarrow> (u64, receivedInfo) gmap \<Rightarrow> (u64, receivedInfo) gmap" where
  "rm_setSequence nodeID round r = AList.update nodeID ((rm_get nodeID r)\<lparr>ri_sequence := round\<rparr>) r"

lemma rm_get_update: "rm_get n (AList.update k v r) = (if n = k then v else rm_get n r)"
  by (simp add: rm_get_def)

lemma rm_get_set:
  "rm_get n (rm_set k round r) = (if n = k then
     \<lparr>ri_latest = max (ri_latest (rm_get k r)) round,
      ri_sequence = (if ri_sequence (rm_get k r) + 1 = round then round else ri_sequence (rm_get k r))\<rparr>
   else rm_get n r)"
  by (auto simp: rm_set_def Let_def rm_get_update max_def intro: receivedInfo.equality)

section \<open>Properties\<close>

lemma max_fold: "fold max rs (a :: u64) = Max (insert a (set rs))"
proof (induction rs arbitrary: a)
  case (Cons r rs)
  have "Max (insert a (insert r (set rs))) = max a (Max (insert r (set rs)))" by (rule Max_insert) simp_all
  moreover have "Max (insert (max r a) (set rs)) = max a (Max (insert r (set rs)))"
    by (cases "set rs = {}") (auto simp: Max_insert max.assoc max.left_commute max.commute)
  ultimately show ?case using Cons by (simp add: max.commute)
qed simp



end
