(* ===== verification/Store.thy ===== *)
theory Store
  imports Keys Depgraph Cache
begin

text \<open>
  The file \<open>broadcast/store.go\<close>: the block store on top of the key-value database badger. The database is
  third-party code; its operations are the fields of the argument \<open>B\<close>, the protobuf codec is \<open>P\<close> and the
  hash function \<open>sha\<close>. A method of the store returns a value or a failure, and a method that writes
  returns the updated store. The lock of the store makes every method one step.
\<close>

section \<open>The database\<close>

text \<open>
  \<open>db.View\<close> and \<open>db.Update\<close> run a function on a transaction; \<open>Update\<close> commits it when the function returns
  no error. \<open>Seek\<close> gives the items an iterator visits from a key on.
\<close>

record ('db, 'txn, 'item) badger =
  Begin :: "'db \<Rightarrow> 'txn"
  Commit_txn :: "'txn \<Rightarrow> 'db \<Rightarrow> 'db res"
  Get :: "'txn \<Rightarrow> bytes \<Rightarrow> 'item res"
  Key :: "'item \<Rightarrow> bytes"
  Value :: "'item \<Rightarrow> bytes res"
  Set :: "bytes \<Rightarrow> bytes \<Rightarrow> 'txn \<Rightarrow> 'txn res"
  Delete :: "bytes \<Rightarrow> 'txn \<Rightarrow> 'txn res"
  Seek :: "'txn \<Rightarrow> bytes \<Rightarrow> 'item list"

abbreviation ErrKeyNotFound :: failure where
  "ErrKeyNotFound \<equiv> Err ''Key not found''"

definition errDBClosed :: failure where
  "errDBClosed = Err ''broadcast: DB has been closed''"

record 'db store =
  closed :: bool
  db :: 'db
  nodeCount :: nat

definition View :: "('db, 'txn, 'item) badger \<Rightarrow> 'db store \<Rightarrow> ('txn \<Rightarrow> 'a res) \<Rightarrow> 'a res" where
  "View B s f = (if closed s then Inl errDBClosed else f (Begin B (db s)))"

definition Update :: "('db, 'txn, 'item) badger \<Rightarrow> 'db store \<Rightarrow> ('txn \<Rightarrow> 'txn res) \<Rightarrow> 'db store res" where
  "Update B s f = bindE (f (Begin B (db s))) (\<lambda>t. bindE (Commit_txn B t (db s)) (\<lambda>d. Inr (s\<lparr>db := d\<rparr>)))"

text \<open>\<open>txn.Get\<close> followed by \<open>item.Value\<close>, and an iterator that stops at the end of a prefix.\<close>

definition read_value :: "('db, 'txn, 'item) badger \<Rightarrow> 'txn \<Rightarrow> bytes \<Rightarrow> bytes res" where
  "read_value B t key = bindE (Get B t key) (Value B)"

definition seek_prefix :: "('db, 'txn, 'item) badger \<Rightarrow> 'txn \<Rightarrow> bytes \<Rightarrow> bytes \<Rightarrow> 'item list" where
  "seek_prefix B t start prefix = takeWhile (\<lambda>item. take (length prefix) (Key B item) = prefix) (Seek B t start)"

section \<open>Blocks\<close>

text \<open>The loop over the references of a block; \<open>fail\<close> is what an undecodable one does.\<close>

fun reference_ids :: "proto \<Rightarrow> SignedData list \<Rightarrow> BlockID list res" where
  "reference_ids P [] = Inr []"
| "reference_ids P (sref # rest) = (case uBlockReference P (Data sref) of
       Inl e \<Rightarrow> Inl (Fatal ''Unable to decode block reference'')
     | Inr ref \<Rightarrow> bindE (reference_ids P rest) (\<lambda>ids.
         Inr (\<lparr>Hash = refHash ref, Node = refNode ref, Round = refRound ref\<rparr> # ids)))"

definition getBlockData :: "proto \<Rightarrow> (bytes \<Rightarrow> bytes) \<Rightarrow> SignedData \<Rightarrow> blockData res" where
  "getBlockData P sha sd = (case uBlock P (Data sd) of
       Inl e \<Rightarrow> Inl (Fatal ''Unable to decode signed block'')
     | Inr block \<Rightarrow>
       let hash = sha (Data sd);
           ref = \<lparr>refHash = hash, refNode = bNode block, refRound = bRound block\<rparr>;
           i = \<lparr>Hash = hash, Node = bNode block, Round = bRound block\<rparr> in
       (case mBlockReference P ref of
         Inl e \<Rightarrow> Inl (Fatal ''Unable to encode block reference'')
       | Inr enc \<Rightarrow>
         bindE (if bRound block \<noteq> 1 then
                  (case Previous block of None \<Rightarrow> Inl (Panic ''nil pointer dereference'')
                   | Some pr \<Rightarrow> (case uBlockReference P (Data pr) of
                       Inl e \<Rightarrow> Inl (Fatal ''Unable to decode block's previous reference'')
                     | Inr r \<Rightarrow> Inr \<lparr>Hash = refHash r, Node = refNode r, Round = refRound r\<rparr>))
                else Inr zeroID) (\<lambda>prev.
         bindE (reference_ids P (References block)) (\<lambda>deps.
         Inr \<lparr>bd_deps = deps, bd_id = i, bd_prev = prev, bd_ref = \<lparr>Data = enc, Signature = Signature sd\<rparr>\<rparr>))))"

definition store_getBlock :: "('db, 'txn, 'item) badger \<Rightarrow> proto \<Rightarrow> BlockID \<Rightarrow> 'db store \<Rightarrow> SignedData res" where
  "store_getBlock B P i s = View B s (\<lambda>t. bindE (read_value B t (blockKey i)) (uSignedData P))"

text \<open>The method holds the read lock while \<open>getBlock\<close> takes it again; \<open>getBlock\<close> returns no nil block.\<close>

definition store_getBlockData ::
    "('db, 'txn, 'item) badger \<Rightarrow> proto \<Rightarrow> (bytes \<Rightarrow> bytes) \<Rightarrow> BlockID \<Rightarrow> 'db store \<Rightarrow> blockData res" where
  "store_getBlockData B P sha i s =
     (if closed s then Inl errDBClosed else bindE (store_getBlock B P i s) (getBlockData P sha))"

fun read_blocks :: "('db, 'txn, 'item) badger \<Rightarrow> proto \<Rightarrow> 'txn \<Rightarrow> bytes list \<Rightarrow> SignedData list res" where
  "read_blocks B P t [] = Inr []"
| "read_blocks B P t (key # keys) =
     bindE (read_value B t key) (\<lambda>val. bindE (uSignedData P val) (\<lambda>block.
     bindE (read_blocks B P t keys) (\<lambda>blocks. Inr (block # blocks))))"

definition store_getBlocks :: "('db, 'txn, 'item) badger \<Rightarrow> proto \<Rightarrow> BlockID list \<Rightarrow> 'db store \<Rightarrow> SignedData list res" where
  "store_getBlocks B P ids s = View B s (\<lambda>t. read_blocks B P t (map blockKey ids))"

definition store_getOwnBlock :: "('db, 'txn, 'item) badger \<Rightarrow> proto \<Rightarrow> u64 \<Rightarrow> 'db store \<Rightarrow> SignedData res" where
  "store_getOwnBlock B P round s = View B s (\<lambda>t. bindE (read_value B t (ownBlockKey round)) (uSignedData P))"

text \<open>The loop of \<open>getNotIncluded\<close>: the block of every key of the prefix.\<close>

definition store_getNotIncluded ::
    "('db, 'txn, 'item) badger \<Rightarrow> proto \<Rightarrow> (bytes \<Rightarrow> bytes) \<Rightarrow> 'db store \<Rightarrow> blockData list res" where
  "store_getNotIncluded B P sha s =
     bindE (View B s (\<lambda>t. read_blocks B P t
       (map (\<lambda>item. blockPrefix # tl (Key B item)) (seek_prefix B t [notIncludedPrefix] [notIncludedPrefix])))) (\<lambda>blocks.
     foldE (\<lambda>block data. bindE (getBlockData P sha block) (\<lambda>d. Inr (data @ [d]))) blocks [])"

text \<open>The result is written over the error branch: a missing key means not included.\<close>

definition store_isIncluded :: "('db, 'txn, 'item) badger \<Rightarrow> BlockID \<Rightarrow> 'db store \<Rightarrow> bool res" where
  "store_isIncluded B i s = View B s (\<lambda>t. (case Get B t (includedKey i) of
       Inl e \<Rightarrow> if e = ErrKeyNotFound then Inr False else Inl e
     | Inr item \<Rightarrow> bindE (Value B item) (\<lambda>val.
         if val = [] then Inl (Panic ''index out of range'') else Inr (val ! 0 = 1))))"

definition store_setBlock ::
    "('db, 'txn, 'item) badger \<Rightarrow> proto \<Rightarrow> BlockID \<Rightarrow> SignedData \<Rightarrow> 'db store \<Rightarrow> 'db store res" where
  "store_setBlock B P i block s =
     (if closed s then Inl errDBClosed
      else bindE (mSignedData P block) (\<lambda>val. Update B s (\<lambda>t.
        (case Get B t (includedKey i) of
          Inr _ \<Rightarrow> Inr t
        | Inl e \<Rightarrow> if e \<noteq> ErrKeyNotFound then Inl e
            else bindE (Set B (includedKey i) [0] t) (\<lambda>t.
              bindE (Set B (notIncludedKey i) [] t) (\<lambda>t. Set B (blockKey i) val t))))))"

section \<open>Own blocks and block graphs\<close>

definition store_setOwnBlock ::
    "('db, 'txn, 'item) badger \<Rightarrow> proto \<Rightarrow> SignedData \<Rightarrow> SignedData \<Rightarrow> BlockGraph \<Rightarrow> 'db store \<Rightarrow> 'db store res" where
  "store_setOwnBlock B P block blockRef graph s =
     (if closed s then Inl errDBClosed
      else bindE (mSignedData P block) (\<lambda>val. bindE (mSignedData P blockRef) (\<lambda>blockRefVal.
        Update B s (\<lambda>t.
          bindE (Set B (blockKey (gBlock graph)) val t) (\<lambda>t.
          bindE (Set B [lastBlockRefPrefix] blockRefVal t) (\<lambda>t.
          bindE (Set B (blockGraphKey (gBlock graph)) (encodeBlockGraph graph) t) (\<lambda>t.
          bindE (Set B [lastHashPrefix] (Hash (gBlock graph)) t) (\<lambda>t.
          bindE (Set B [lastRoundPrefix] (PutUint64 (Round (gBlock graph))) t) (\<lambda>t.
          bindE (foldE (\<lambda>ref. Set B (includedKey (dBlock ref)) [1]) (gDeps graph) t) (\<lambda>t.
          bindE (foldE (\<lambda>ref. Delete B (notIncludedKey (dBlock ref))) (gDeps graph) t) (\<lambda>t.
          Set B (ownBlockKey (Round (gBlock graph))) val t)))))))))))"

text \<open>The loop of \<open>getBlockGraphs\<close>; it stops when \<open>limit\<close> graphs are read (never, for a limit below 1).\<close>

fun read_graphs :: "('db, 'txn, 'item) badger \<Rightarrow> int \<Rightarrow> 'item list \<Rightarrow> BlockGraph list \<Rightarrow> BlockGraph list res" where
  "read_graphs B limit [] blocks = Inr blocks"
| "read_graphs B limit (item # items) blocks =
     bindE (gslice (Key B item) 1 (length (Key B item))) (\<lambda>k. bindE (decodeBlockID k) (\<lambda>i.
     bindE (Value B item) (\<lambda>val. bindE (decode_graph i val) (\<lambda>block.
       let blocks' = blocks @ [block] in
       if int (length blocks') = limit then Inr blocks' else read_graphs B limit items blocks'))))"

definition store_getBlockGraphs ::
    "('db, 'txn, 'item) badger \<Rightarrow> u64 \<Rightarrow> u64 \<Rightarrow> int \<Rightarrow> 'db store \<Rightarrow> BlockGraph list res" where
  "store_getBlockGraphs B nodeID from limit s =
     (let prefix = [blockGraphPrefix] @ Encode nodeID @ [0]; start = prefix @ Encode from in
      View B s (\<lambda>t. read_graphs B limit (seek_prefix B t start prefix) []))"

definition store_getLastRoundData :: "('db, 'txn, 'item) badger \<Rightarrow> proto \<Rightarrow> 'db store \<Rightarrow> (u64 \<times> bytes \<times> SignedData) res" where
  "store_getLastRoundData B P s = View B s (\<lambda>t.
     bindE (read_value B t [lastHashPrefix]) (\<lambda>hash.
     bindE (read_value B t [lastRoundPrefix]) (\<lambda>val. bindE (Uint64 val) (\<lambda>round.
     bindE (read_value B t [lastBlockRefPrefix]) (\<lambda>val. bindE (uSignedData P val) (\<lambda>blockRef.
     Inr (round, hash, blockRef)))))))"

section \<open>Rounds\<close>

text \<open>The inner loop of \<open>getMissing\<close>, from \<open>i\<close> up to \<open>next\<close>. The flag says that the limit was reached.\<close>

function missing_rounds :: "int \<Rightarrow> u64 \<Rightarrow> u64 \<Rightarrow> int \<Rightarrow> u64 \<Rightarrow> u64 list \<Rightarrow> bool \<times> int \<times> u64 \<times> u64 list" where
  "missing_rounds limit i nxt added latest rounds =
     (if i < nxt then
        (if added = limit then (True, added, i, rounds @ [i])
         else missing_rounds limit (i + 1) nxt (added + 1) i (rounds @ [i]))
      else (False, added, latest, rounds))"
  by pat_completeness auto
termination
proof (relation "measure (\<lambda>(limit, i, nxt, _). unat nxt - unat i)", goal_cases)
  case (2 limit i nxt added latest rounds)
  then have "unat i < unat nxt" "unat (i + 1) = Suc (unat i)" by (simp_all add: word_less_nat_alt unat_incr)
  then show ?case by simp
qed simp

declare missing_rounds.simps [simp del]

fun missing_items :: "('db, 'txn, 'item) badger \<Rightarrow> int \<Rightarrow> 'item list \<Rightarrow> int \<Rightarrow> u64 \<Rightarrow> u64 list \<Rightarrow> (u64 list \<times> u64) res" where
  "missing_items B limit [] added latest rounds = Inr (rounds, latest)"
| "missing_items B limit (item # items) added latest rounds =
     bindE (decodeBlockRound (Key B item)) (\<lambda>nxt.
       let (stop, added', latest', rounds') = missing_rounds limit (latest + 1) nxt added latest rounds in
       if stop then Inr (rounds', latest') else missing_items B limit items added' nxt rounds')"

definition store_getMissing ::
    "('db, 'txn, 'item) badger \<Rightarrow> u64 \<Rightarrow> u64 \<Rightarrow> int \<Rightarrow> 'db store \<Rightarrow> (u64 list \<times> u64) res" where
  "store_getMissing B nodeID since limit s =
     (let prefix = [blockPrefix] @ Encode nodeID @ [0]; start = prefix @ Encode (since + 1) in
      View B s (\<lambda>t. missing_items B limit (seek_prefix B t start prefix) 0 since []))"

definition store_getDeliverAcknowledged :: "('db, 'txn, 'item) badger \<Rightarrow> 'db store \<Rightarrow> u64 res" where
  "store_getDeliverAcknowledged B s = View B s (\<lambda>t. bindE (read_value B t [roundAcknowledgedPrefix]) Uint64)"

definition store_setDeliverAcknowledged :: "('db, 'txn, 'item) badger \<Rightarrow> u64 \<Rightarrow> 'db store \<Rightarrow> 'db store res" where
  "store_setDeliverAcknowledged B round s =
     (if closed s then Inl errDBClosed
      else Update B s (Set B [roundAcknowledgedPrefix] (PutUint64 round)))"

text \<open>The value of an interpreted round: a count and the keys of the blocks, each with its length.\<close>

definition put_key :: "bytes \<Rightarrow> bytes" where
  "put_key key = PutUint16 (of_nat (length key)) @ key"

definition encode_interpreted :: "BlockID list \<Rightarrow> bytes" where
  "encode_interpreted ids = PutUint64 (of_nat (length ids)) @ concat (map (\<lambda>i. put_key (blockKey i)) ids)"

definition store_setInterpreted :: "('db, 'txn, 'item) badger \<Rightarrow> Interpreted \<Rightarrow> 'db store \<Rightarrow> 'db store res" where
  "store_setInterpreted B data s =
     (if closed s then Inl errDBClosed
      else Update B s (\<lambda>t.
        bindE (Set B (interpretedKey (iRound data)) (encode_interpreted (iBlocks data)) t) (\<lambda>t.
        Set B [lastInterpretedPrefix] (PutUint64 (iRound data) @ PutUint64 (iConsumed data)) t)))"

fun interpreted_blocks :: "('db, 'txn, 'item) badger \<Rightarrow> proto \<Rightarrow> 'txn \<Rightarrow> bytes \<Rightarrow> nat \<Rightarrow> nat \<Rightarrow> SignedData list res" where
  "interpreted_blocks B P t val 0 idx = Inr []"
| "interpreted_blocks B P t val (Suc n) idx =
     bindE (gslice val idx (idx + 2)) (\<lambda>k. bindE (Uint16 k) (\<lambda>w. let ksize = unat w in
     bindE (gslice val (idx + 2) (idx + 2 + ksize)) (\<lambda>key.
     bindE (read_value B t key) (\<lambda>v. bindE (uSignedData P v) (\<lambda>block.
     bindE (interpreted_blocks B P t val n (idx + 2 + ksize)) (\<lambda>blocks. Inr (block # blocks)))))))"

text \<open>A count of \<open>2^63\<close> or more is negative as an \<open>int\<close>, and the loop does not run.\<close>

definition store_getInterpreted :: "('db, 'txn, 'item) badger \<Rightarrow> proto \<Rightarrow> u64 \<Rightarrow> 'db store \<Rightarrow> SignedData list res" where
  "store_getInterpreted B P round s = View B s (\<lambda>t.
     bindE (read_value B t (interpretedKey round)) (\<lambda>val.
     bindE (gslice val 0 8) (\<lambda>b. bindE (Uint64 b) (\<lambda>w. interpreted_blocks B P t val (nat (sint w)) 8))))"

definition store_getLastInterpreted :: "('db, 'txn, 'item) badger \<Rightarrow> 'db store \<Rightarrow> (u64 \<times> u64) res" where
  "store_getLastInterpreted B s = View B s (\<lambda>t.
     bindE (read_value B t [lastInterpretedPrefix]) (\<lambda>val.
     bindE (gslice val 0 8) (\<lambda>b. bindE (Uint64 b) (\<lambda>round.
     bindE (gslice val 8 16) (\<lambda>b. bindE (Uint64 b) (\<lambda>consumed. Inr (round, consumed)))))))"

section \<open>The received and sent maps\<close>

fun received_entries :: "bytes \<Rightarrow> nat \<Rightarrow> nat \<Rightarrow> (u64, receivedInfo) gmap \<Rightarrow> (u64, receivedInfo) gmap res" where
  "received_entries val 0 idx data = Inr data"
| "received_entries val (Suc n) idx data =
     bindE (gslice val idx (idx + 8)) (\<lambda>b. bindE (Uint64 b) (\<lambda>k.
     bindE (gslice val (idx + 8) (idx + 16)) (\<lambda>b. bindE (Uint64 b) (\<lambda>l.
     bindE (gslice val (idx + 16) (idx + 24)) (\<lambda>b. bindE (Uint64 b) (\<lambda>sq.
     received_entries val n (idx + 24) (AList.update k \<lparr>ri_latest = l, ri_sequence = sq\<rparr> data)))))))"

definition store_getReceivedMap :: "('db, 'txn, 'item) badger \<Rightarrow> 'db store \<Rightarrow> (u64, receivedInfo) gmap res" where
  "store_getReceivedMap B s = View B s (\<lambda>t.
     bindE (read_value B t [receivedMapPrefix]) (\<lambda>val.
     bindE (gslice val 0 8) (\<lambda>b. bindE (Uint64 b) (\<lambda>n. received_entries val (nat (sint n)) 8 []))))"

definition store_setReceivedMap :: "('db, 'txn, 'item) badger \<Rightarrow> (u64, receivedInfo) gmap \<Rightarrow> 'db store \<Rightarrow> 'db store res" where
  "store_setReceivedMap B data s =
     (if closed s then Inl errDBClosed
      else Update B s (Set B [receivedMapPrefix] (PutUint64 (of_nat (length data)) @
        concat (map (\<lambda>(k, v). PutUint64 k @ PutUint64 (ri_latest v) @ PutUint64 (ri_sequence v)) data))))"

fun sent_entries :: "bytes \<Rightarrow> nat \<Rightarrow> nat \<Rightarrow> (u64, u64) gmap \<Rightarrow> (u64, u64) gmap res" where
  "sent_entries val 0 idx data = Inr data"
| "sent_entries val (Suc n) idx data =
     bindE (gslice val idx (idx + 8)) (\<lambda>b. bindE (Uint64 b) (\<lambda>k.
     bindE (gslice val (idx + 8) (idx + 16)) (\<lambda>b. bindE (Uint64 b) (\<lambda>v.
     sent_entries val n (idx + 16) (AList.update k v data)))))"

definition store_getSentMap :: "('db, 'txn, 'item) badger \<Rightarrow> 'db store \<Rightarrow> (u64, u64) gmap res" where
  "store_getSentMap B s = View B s (\<lambda>t.
     bindE (read_value B t [sentMapPrefix]) (\<lambda>val.
     bindE (gslice val 0 8) (\<lambda>b. bindE (Uint64 b) (\<lambda>n. sent_entries val (nat (sint n)) 8 []))))"

definition store_setSentMap :: "('db, 'txn, 'item) badger \<Rightarrow> (u64, u64) gmap \<Rightarrow> 'db store \<Rightarrow> 'db store res" where
  "store_setSentMap B data s =
     (if closed s then Inl errDBClosed
      else Update B s (Set B [sentMapPrefix] (PutUint64 (of_nat (length data)) @
        concat (map (\<lambda>(k, v). PutUint64 k @ PutUint64 v) data))))"

section \<open>The blocks of a round\<close>

text \<open>
  \<open>getRoundBlocks\<close>, which no other code calls. It takes the key to be a prefix, the round in 20 bytes,
  the node in 20 bytes and the hash.
\<close>

fun round_items :: "('db, 'txn, 'item) badger \<Rightarrow> proto \<Rightarrow> u64 \<Rightarrow> 'item list \<Rightarrow> (BlockID, Block) gmap \<Rightarrow> (BlockID, Block) gmap res" where
  "round_items B P round [] data = Inr data"
| "round_items B P round (item # items) data =
     (let key = Key B item in
     bindE (Value B item) (\<lambda>val.
     bindE (gslice key 21 (length key)) (\<lambda>k. bindE (Decode k) (\<lambda>nodeID.
     bindE (gslice key 41 (length key)) (\<lambda>hash.
     bindE (uSignedData P val) (\<lambda>sd. bindE (uBlock P (Data sd)) (\<lambda>block.
     round_items B P round items
       (AList.update \<lparr>Hash = hash, Node = nodeID, Round = round\<rparr> block data))))))))"

definition store_getRoundBlocks ::
    "('db, 'txn, 'item) badger \<Rightarrow> proto \<Rightarrow> u64 \<Rightarrow> 'db store \<Rightarrow> (BlockID, Block) gmap res" where
  "store_getRoundBlocks B P round s =
     (let prefix = [blockPrefix] @ Encode round in
      View B s (\<lambda>t. round_items B P round (seek_prefix B t prefix prefix) []))"

end
