(* ===== verification/Broadcast.thy ===== *)
theory Broadcast
  imports Configs ServiceMsg Store Graph
begin

text \<open>
  The file \<open>broadcast/broadcast.go\<close>: the service that makes blocks, exchanges them with the other nodes
  and feeds the dependency graph and the interpreter. The goroutines are operations on one state: one
  iteration of a loop is one operation. The database, the codec, the hash function and the signatures
  are the fields of an argument \<open>E\<close>; what comes from the network and the clock is an argument of the
  operation that reads it.
\<close>

section \<open>State\<close>

record ('db, 'txn, 'item, 'key) env =
  eB :: "('db, 'txn, 'item) badger"
  eP :: proto
  eSha :: "bytes \<Rightarrow> bytes"
  eSign :: "bytes \<Rightarrow> bytes"
  eVerify :: "'key \<Rightarrow> bytes \<Rightarrow> bytes \<Rightarrow> bool"

text \<open>
  A callback is recorded as registered or not, with the calls that were made to it. \<open>s_entries\<close> is the
  channel of the interpreter, which \<open>Graph.Add\<close> sends on.
\<close>

record ('db, 'key) Service =
  s_cb :: bool
  s_calls :: "(u64 \<times> SignedData list) list"
  s_depgraph :: depgraph
  s_graph :: Graph
  s_entries :: "BlockGraph list"
  s_interpreted :: u64
  s_keys :: "(u64, 'key) gmap"
  s_maxBlocks :: int
  s_maxPayload :: int
  s_nodeID :: u64
  s_ownBlocks :: ownBlocks
  s_peers :: "u64 list"
  s_prevhash :: bytes
  s_prevref :: "SignedData option"
  s_refSizeLimit :: int
  s_received :: "(u64, receivedInfo) gmap"
  s_round :: u64
  s_sent :: "(u64, u64) gmap"
  s_store :: "'db store"
  s_txCount :: int
  s_txCountLimit :: int
  s_txData :: bytes
  s_txIdx :: nat
  s_txSizeLimit :: int

text \<open>\<open>log.Fatal\<close> on an error, an error replaced by another, and an error that is dropped.\<close>

definition orFatal :: "string \<Rightarrow> 'a res \<Rightarrow> 'a res" where
  "orFatal msg r = (case r of Inl (Err e) \<Rightarrow> Inl (Fatal msg) | _ \<Rightarrow> r)"

definition rewordE :: "string \<Rightarrow> 'a res \<Rightarrow> 'a res" where
  "rewordE msg r = (case r of Inl (Err e) \<Rightarrow> Inl (Err msg) | _ \<Rightarrow> r)"

definition orElse :: "'a \<Rightarrow> 'a res \<Rightarrow> 'a res" where
  "orElse x r = (case r of Inl (Err e) \<Rightarrow> Inr x | _ \<Rightarrow> r)"

section \<open>Reading blocks\<close>

text \<open>A nil block is \<open>None\<close>.\<close>

definition svc_getBlock ::
    "('db, 'txn, 'item, 'key) env \<Rightarrow> u64 \<Rightarrow> u64 \<Rightarrow> bytes \<Rightarrow> ('db, 'key) Service \<Rightarrow> SignedData option res" where
  "svc_getBlock E nodeID round hash s =
     orElse None (bindE (store_getBlock (eB E) (eP E) \<lparr>Hash = hash, Node = nodeID, Round = round\<rparr> (s_store s))
       (\<lambda>block. Inr (Some block)))"

definition svc_getBlocks ::
    "('db, 'txn, 'item, 'key) env \<Rightarrow> BlockID list \<Rightarrow> ('db, 'key) Service \<Rightarrow> SignedData list res" where
  "svc_getBlocks E ids s = orFatal ''Unable to retrieve blocks'' (store_getBlocks (eB E) (eP E) ids (s_store s))"

definition svc_getOwnBlock ::
    "('db, 'txn, 'item, 'key) env \<Rightarrow> u64 \<Rightarrow> ('db, 'key) Service \<Rightarrow> (SignedData \<times> ('db, 'key) Service) res" where
  "svc_getOwnBlock E round s = (case ob_get round (s_ownBlocks s) of
       Some block \<Rightarrow> Inr (block, s)
     | None \<Rightarrow> bindE (store_getOwnBlock (eB E) (eP E) round (s_store s)) (\<lambda>block.
         Inr (block, s\<lparr>s_ownBlocks := ob_set round block (s_ownBlocks s)\<rparr>)))"

text \<open>
  The loop of \<open>getUnsent\<close> over the rounds up to \<open>cur\<close>. It ends also when the round counter wraps, because
  every block adds to the total.
\<close>

function unsent_loop ::
    "('db, 'txn, 'item, 'key) env \<Rightarrow> int \<Rightarrow> u64 \<Rightarrow> u64 \<Rightarrow> u64 \<Rightarrow> int \<Rightarrow> SignedData list \<Rightarrow> ('db, 'key) Service \<Rightarrow>
     (SignedData list \<times> ('db, 'key) Service) res" where
  "unsent_loop E maxPayload cur last0 i tot blocks s =
     (if i \<le> cur then
        bindE (orFatal ''Unable to retrieve own block'' (svc_getOwnBlock E i s)) (\<lambda>(block, s').
          let tot' = tot + int (length (Data block)) + int (length (Signature block)) + 100 in
          if tot' > maxPayload then
            (if i = last0 then Inl (Fatal ''Size of individual block exceeds max payload size'') else Inr (blocks, s'))
          else unsent_loop E maxPayload cur last0 (i + 1) tot' (blocks @ [block]) s')
      else Inr (blocks, s))"
  by pat_completeness auto
termination
  by (relation "measure (\<lambda>(E, maxPayload, cur, last0, i, tot, blocks, s). nat (maxPayload - tot))") auto

declare unsent_loop.simps [simp del]

definition sent_to :: "u64 \<Rightarrow> ('db, 'key) Service \<Rightarrow> u64" where
  "sent_to peerID s = (case map_of (s_sent s) peerID of None \<Rightarrow> 0 | Some r \<Rightarrow> r)"

text \<open>\<open>None\<close>: the peer has every block, and the call waits for the next one.\<close>

definition getUnsent ::
    "('db, 'txn, 'item, 'key) env \<Rightarrow> u64 \<Rightarrow> ('db, 'key) Service \<Rightarrow> (SignedData list option \<times> ('db, 'key) Service) res" where
  "getUnsent E peerID s =
     (let cur = s_round s; last0 = sent_to peerID s + 1 in
      if cur \<ge> last0 then
        bindE (unsent_loop E (s_maxPayload s) cur last0 last0 0 [] s) (\<lambda>(blocks, s'). Inr (Some blocks, s'))
      else Inr (None, s))"

definition markSent :: "u64 \<Rightarrow> u64 \<Rightarrow> ('db, 'key) Service \<Rightarrow> ('db, 'key) Service" where
  "markSent peerID round s = s\<lparr>s_sent := AList.update peerID round (s_sent s)\<rparr>"

section \<open>Receiving blocks\<close>

definition block_ref_id :: "BlockReference \<Rightarrow> BlockID" where
  "block_ref_id r = \<lparr>Hash = refHash r, Node = refNode r, Round = refRound r\<rparr>"

text \<open>The checks of \<open>processBlock\<close> on the previous block; the result is \<open>prevID\<close>.\<close>

definition check_previous ::
    "('db, 'txn, 'item, 'key) env \<Rightarrow> 'key \<Rightarrow> Block \<Rightarrow> BlockID res" where
  "check_previous E key block =
     (if bRound block \<noteq> 1 then (case Previous block of
         None \<Rightarrow> Inl (Err ''broadcast: nil previous block'')
       | Some p \<Rightarrow>
         if \<not> eVerify E key (Data p) (Signature p) then
           Inl (Err ''broadcast: unable to verify signature for previous block'')
         else bindE (uBlockReference (eP E) (Data p)) (\<lambda>prev.
           if refNode prev \<noteq> bNode block then Inl (Err ''broadcast: previous block node does not match'')
           else if refRound prev + 1 \<noteq> bRound block then Inl (Err ''broadcast: previous block round is invalid'')
           else Inr (block_ref_id prev)))
      else Inr zeroID)"

text \<open>The loop over the references; every element is checked before the next is decoded.\<close>

fun check_references ::
    "('db, 'txn, 'item, 'key) env \<Rightarrow> (u64, 'key) gmap \<Rightarrow> u64 \<Rightarrow> SignedData list \<Rightarrow> BlockID list res" where
  "check_references E keys node [] = Inr []"
| "check_references E keys node (sref # rest) =
     bindE (rewordE ''broadcast: unable to decode block reference'' (uBlockReference (eP E) (Data sref))) (\<lambda>ref.
     (case map_of keys (refNode ref) of
       None \<Rightarrow> Inl (Err ''broadcast: unable to find signing.key for node in block reference'')
     | Some key \<Rightarrow>
       if \<not> eVerify E key (Data sref) (Signature sref) then
         Inl (Err ''broadcast: unable to verify signature for block reference'')
       else if refNode ref = node then
         Inl (Err ''broadcast: block references includes a block from same node'')
       else bindE (check_references E keys node rest) (\<lambda>deps. Inr (block_ref_id ref # deps))))"

definition svc_setBlock ::
    "('db, 'txn, 'item, 'key) env \<Rightarrow> BlockID \<Rightarrow> SignedData \<Rightarrow> ('db, 'key) Service \<Rightarrow> ('db, 'key) Service res" where
  "svc_setBlock E i block s =
     bindE (store_setBlock (eB E) (eP E) i block (s_store s)) (\<lambda>st. Inr (s\<lparr>s_store := st\<rparr>))"

text \<open>The last statements of \<open>processBlock\<close>: the block enters the dependency graph and its round is noted.\<close>

definition enqueue :: "blockData \<Rightarrow> ('db, 'key) Service \<Rightarrow> ('db, 'key) Service" where
  "enqueue bd s =
     s\<lparr>s_depgraph := dg_add bd (s_depgraph s),
       s_received := rm_set (Node (bd_id bd)) (Round (bd_id bd)) (s_received s)\<rparr>"

definition svc_processBlock ::
    "('db, 'txn, 'item, 'key) env \<Rightarrow> SignedData \<Rightarrow> ('db, 'key) Service \<Rightarrow> (u64 \<times> ('db, 'key) Service) res" where
  "svc_processBlock E sd s =
     bindE (uBlock (eP E) (Data sd)) (\<lambda>block.
     (case map_of (s_keys s) (bNode block) of
       None \<Rightarrow> Inl (Err ''broadcast: unable to find signing.key for node'')
     | Some key \<Rightarrow>
       let hash = eSha E (Data sd);
           i = \<lparr>Hash = hash, Node = bNode block, Round = bRound block\<rparr> in
       bindE (rewordE ''broadcast: unable to encode block reference''
         (mBlockReference (eP E) \<lparr>refHash = hash, refNode = bNode block, refRound = bRound block\<rparr>)) (\<lambda>enc.
       if \<not> eVerify E key enc (Signature sd) then Inl (Err ''broadcast: unable to verify signature for block'')
       else bindE (check_previous E key block) (\<lambda>prevID.
       bindE (check_references E (s_keys s) (bNode block) (References block)) (\<lambda>deps.
       bindE (orFatal ''Could not set received block'' (svc_setBlock E i sd s)) (\<lambda>s1.
       Inr (bRound block,
         enqueue \<lparr>bd_deps = deps, bd_id = i, bd_prev = prevID, bd_ref = \<lparr>Data = enc, Signature = Signature sd\<rparr>\<rparr> s1)))))))"

text \<open>A nil element of a list of blocks is read through.\<close>

definition svc_processBlock_ptr ::
    "('db, 'txn, 'item, 'key) env \<Rightarrow> SignedData option \<Rightarrow> ('db, 'key) Service \<Rightarrow> (u64 \<times> ('db, 'key) Service) res" where
  "svc_processBlock_ptr E p s =
     (case p of None \<Rightarrow> Inl (Panic ''nil pointer dereference'') | Some sd \<Rightarrow> svc_processBlock E sd s)"

section \<open>Handling messages\<close>

text \<open>A handler returns its response or an error, and the state: blocks accepted before an error stay.\<close>

fun broadcast_blocks ::
    "('db, 'txn, 'item, 'key) env \<Rightarrow> SignedData option list \<Rightarrow> u64 \<Rightarrow> ('db, 'key) Service \<Rightarrow> u64 res \<times> ('db, 'key) Service" where
  "broadcast_blocks E [] last0 s = (Inr last0, s)"
| "broadcast_blocks E (block # blocks) last0 s = (case svc_processBlock_ptr E block s of
       Inl e \<Rightarrow> (Inl e, s)
     | Inr (round, s') \<Rightarrow> broadcast_blocks E blocks round s')"

definition handleBroadcastList ::
    "('db, 'txn, 'item, 'key) env \<Rightarrow> u64 \<Rightarrow> smessage \<Rightarrow> ('db, 'key) Service \<Rightarrow> smessage res \<times> ('db, 'key) Service" where
  "handleBroadcastList E peerID msg s = (case uListBlocks (eP E) (smPayload msg) of
       Inl e \<Rightarrow> (Inl e, s)
     | Inr list \<Rightarrow> (case broadcast_blocks E (lbBlocks list) 0 s of
         (Inl e, s') \<Rightarrow> (Inl e, s')
       | (Inr last0, s') \<Rightarrow>
         (bindE (mAckBroadcast (eP E) \<lparr>Last = last0\<rparr>) (\<lambda>data.
            Inr \<lparr>smID = 0, smError = [], smOpcode = OP_ACK_BROADCAST, smPayload = data\<rparr>), s')))"

fun requested_blocks ::
    "('db, 'txn, 'item, 'key) env \<Rightarrow> BlockReference list \<Rightarrow> ('db, 'key) Service \<Rightarrow> SignedData option list res" where
  "requested_blocks E [] s = Inr []"
| "requested_blocks E (ref # refs) s =
     bindE (svc_getBlock E (refNode ref) (refRound ref) (refHash ref) s) (\<lambda>block.
     bindE (requested_blocks E refs s) (\<lambda>blocks. Inr (block # blocks)))"

definition handleGetBlocks ::
    "('db, 'txn, 'item, 'key) env \<Rightarrow> u64 \<Rightarrow> smessage \<Rightarrow> ('db, 'key) Service \<Rightarrow> smessage res \<times> ('db, 'key) Service" where
  "handleGetBlocks E peerID msg s =
     (bindE (uGetBlocks (eP E) (smPayload msg)) (\<lambda>req.
      if int (length (gbBlocks req)) > s_maxBlocks s then Inl (Err ''broadcast: requested blocks exceeds max block limit'')
      else bindE (requested_blocks E (gbBlocks req) s) (\<lambda>blocks.
        bindE (mListBlocks (eP E) \<lparr>lbBlocks = blocks\<rparr>) (\<lambda>data.
        Inr \<lparr>smID = 0, smError = [], smOpcode = OP_LIST_BLOCKS, smPayload = data\<rparr>))), s)"

text \<open>The loop of \<open>handleGetRounds\<close>: a round that cannot be read is left out.\<close>

fun own_round_blocks ::
    "('db, 'txn, 'item, 'key) env \<Rightarrow> u64 list \<Rightarrow> ('db, 'key) Service \<Rightarrow> SignedData list \<Rightarrow>
     SignedData list res \<times> ('db, 'key) Service" where
  "own_round_blocks E [] s blocks = (Inr blocks, s)"
| "own_round_blocks E (round # rounds) s blocks = (case svc_getOwnBlock E round s of
       Inl (Err e) \<Rightarrow> own_round_blocks E rounds s blocks
     | Inl e \<Rightarrow> (Inl e, s)
     | Inr (block, s') \<Rightarrow> own_round_blocks E rounds s' (blocks @ [block]))"

definition handleGetRounds ::
    "('db, 'txn, 'item, 'key) env \<Rightarrow> u64 \<Rightarrow> smessage \<Rightarrow> ('db, 'key) Service \<Rightarrow> smessage res \<times> ('db, 'key) Service" where
  "handleGetRounds E peerID msg s = (case uGetRounds (eP E) (smPayload msg) of
       Inl e \<Rightarrow> (Inl e, s)
     | Inr req \<Rightarrow>
       if int (length (Rounds req)) > s_maxBlocks s then
         (Inl (Err ''broadcast: requested rounds exceeds max block limit''), s)
       else (case own_round_blocks E (Rounds req) s [] of
         (Inl e, s') \<Rightarrow> (Inl e, s')
       | (Inr blocks, s') \<Rightarrow>
         (bindE (mListBlocks (eP E) \<lparr>lbBlocks = map Some blocks\<rparr>) (\<lambda>data.
            Inr \<lparr>smID = 0, smError = [], smOpcode = OP_LIST_BLOCKS, smPayload = data\<rparr>), s')))"

definition svc_Handle ::
    "('db, 'txn, 'item, 'key) env \<Rightarrow> u64 \<Rightarrow> smessage \<Rightarrow> ('db, 'key) Service \<Rightarrow> smessage res \<times> ('db, 'key) Service" where
  "svc_Handle E peerID msg s =
     (if smOpcode msg = OP_BROADCAST then handleBroadcastList E peerID msg s
      else if smOpcode msg = OP_GET_BLOCKS then handleGetBlocks E peerID msg s
      else if smOpcode msg = OP_GET_ROUNDS then handleGetRounds E peerID msg s
      else (Inl (Err ''broadcast: unknown message opcode''), s))"

definition Service_Name :: string where
  "Service_Name = ''broadcast''"

section \<open>Making blocks\<close>

definition svc_setOwnBlock ::
    "('db, 'txn, 'item, 'key) env \<Rightarrow> SignedData \<Rightarrow> SignedData \<Rightarrow> BlockGraph \<Rightarrow> ('db, 'key) Service \<Rightarrow> ('db, 'key) Service res" where
  "svc_setOwnBlock E block blockRef graph s =
     (let s1 = s\<lparr>s_ownBlocks := ob_set (Round (gBlock graph)) block (s_ownBlocks s)\<rparr> in
      bindE (store_setOwnBlock (eB E) (eP E) block blockRef graph (s_store s1)) (\<lambda>st. Inr (s1\<lparr>s_store := st\<rparr>)))"

definition graph_add :: "BlockGraph \<Rightarrow> ('db, 'key) Service \<Rightarrow> ('db, 'key) Service" where
  "graph_add graph s = s\<lparr>s_entries := s_entries s @ [graph]\<rparr>"

text \<open>The rate adaptation; \<open>drifted\<close> says that the last round took too long.\<close>

definition next_rate :: "RateLimit \<Rightarrow> bool \<Rightarrow> int \<Rightarrow> int" where
  "next_rate rl drifted rate =
     (if drifted then (let r = RateDecrease rl rate in if r < InitialRate rl then InitialRate rl else r)
      else rate + RateIncrease rl)"

text \<open>The local variables \<open>rate\<close> and \<open>round\<close> of \<open>genBlocks\<close>.\<close>

record genVars =
  gv_rate :: int
  gv_round :: u64

definition gen_start :: "RateLimit \<Rightarrow> ('db, 'key) Service \<Rightarrow> genVars" where
  "gen_start rl s = \<lparr>gv_rate = InitialRate rl, gv_round = s_round s\<rparr>"

definition gen_graph :: "bytes \<Rightarrow> u64 \<Rightarrow> blockData list \<Rightarrow> ('db, 'key) Service \<Rightarrow> BlockGraph" where
  "gen_graph hash round refs s =
     \<lparr>gBlock = \<lparr>Hash = hash, Node = s_nodeID s, Round = round\<rparr>,
      gDeps = map (\<lambda>ref. \<lparr>dBlock = bd_id ref, dDeps = bd_deps ref, dPrev = bd_prev ref\<rparr>) refs,
      gPrev = (if round \<noteq> 1 then \<lparr>Hash = s_prevhash s, Node = s_nodeID s, Round = round - 1\<rparr> else zeroID)\<rparr>"

definition gen_block :: "u64 \<Rightarrow> blockData list \<Rightarrow> bytes \<Rightarrow> ('db, 'key) Service \<Rightarrow> Block" where
  "gen_block round refs txs s =
     \<lparr>bNode = s_nodeID s, Previous = s_prevref s, References = map bd_ref refs, bRound = round,
      bTransactions = Some \<lparr>Count = of_int (s_txCount s), TxsData = txs\<rparr>\<rparr>"

text \<open>What follows the write of the block.\<close>

definition finish_round :: "blockData list \<Rightarrow> SignedData \<Rightarrow> BlockGraph \<Rightarrow> ('db, 'key) Service \<Rightarrow> ('db, 'key) Service" where
  "finish_round refs blockRef graph s =
     (let round = Round (gBlock graph);
          s1 = graph_add graph (s\<lparr>s_depgraph := fold (\<lambda>ref. actuallyIncluded (bd_id ref)) refs (s_depgraph s)\<rparr>);
          s2 = s1\<lparr>s_prevhash := Hash (gBlock graph), s_prevref := Some blockRef, s_round := round\<rparr> in
      if round mod 50 = 0 then s2\<lparr>s_ownBlocks := ob_prune 50 (s_ownBlocks s2)\<rparr> else s2)"

text \<open>One iteration of \<open>genBlocks\<close>.\<close>

definition genBlocks_step ::
    "('db, 'txn, 'item, 'key) env \<Rightarrow> RateLimit \<Rightarrow> bool \<Rightarrow> genVars \<Rightarrow> ('db, 'key) Service \<Rightarrow> (genVars \<times> ('db, 'key) Service) res" where
  "genBlocks_step E rl drifted g s =
     (let rate = next_rate rl drifted (gv_rate g);
          round = gv_round g + 1;
          (refs, dg) = Depgraph.getBlocks (s_refSizeLimit s) (s_depgraph s);
          s1 = s\<lparr>s_txCountLimit := rate, s_depgraph := dg\<rparr> in
      bindE (gslice (s_txData s1) 0 (s_txIdx s1)) (\<lambda>txs.
      bindE (orFatal ''Got unexpected error encoding latest block'' (mBlock (eP E) (gen_block round refs txs s1))) (\<lambda>data.
      let s2 = s1\<lparr>s_txCount := 0, s_txIdx := 0\<rparr>; hash = eSha E data in
      bindE (orFatal ''Got unexpected error encoding latest block reference''
        (mBlockReference (eP E) \<lparr>refHash = hash, refNode = s_nodeID s2, refRound = round\<rparr>)) (\<lambda>refData.
      let sd = \<lparr>Data = data, Signature = eSign E refData\<rparr>;
          blockRef = \<lparr>Data = refData, Signature = Signature sd\<rparr>;
          graph = gen_graph hash round refs s2 in
      bindE (orFatal ''Could not write own block to the DB'' (svc_setOwnBlock E sd blockRef graph s2)) (\<lambda>s3.
      Inr (\<lparr>gv_rate = rate, gv_round = round\<rparr>, finish_round refs blockRef graph s3))))))"

section \<open>Transactions\<close>

text \<open>\<open>binary.PutUint\<close> into a slice of the buffer, and \<open>copy\<close> to a tail of it.\<close>

definition put_at :: "nat \<Rightarrow> bytes \<Rightarrow> bytes \<Rightarrow> bytes res" where
  "put_at i v buf = (if i + length v \<le> length buf then Inr (take i buf @ v @ drop (i + length v) buf)
     else Inl (Panic ''slice bounds out of range''))"

definition copy_at :: "nat \<Rightarrow> bytes \<Rightarrow> bytes \<Rightarrow> bytes res" where
  "copy_at i src buf = (if i \<le> length buf then
       (let n = min (length buf - i) (length src) in Inr (take i buf @ take n src @ drop (i + n) buf))
     else Inl (Panic ''slice bounds out of range''))"

datatype add_result = TooLarge | Waits | Added

text \<open>One attempt of \<open>AddTransaction\<close>; after \<open>Waits\<close> it is repeated when the next block is made.\<close>

definition AddTransaction :: "bytes \<Rightarrow> u64 \<Rightarrow> ('db, 'key) Service \<Rightarrow> (add_result \<times> ('db, 'key) Service) res" where
  "AddTransaction txdata fee s =
     (let sz = length txdata in
      if sz \<ge> 2 ^ 32 \<or> int sz > s_txSizeLimit s then Inr (TooLarge, s)
      else if s_txCount s = s_txCountLimit s then Inr (Waits, s)
      else if int (s_txIdx s + sz + 100) > s_txSizeLimit s then Inr (Waits, s)
      else
        bindE (put_at (s_txIdx s) (PutUint64 fee) (s_txData s)) (\<lambda>buf.
        bindE (put_at (s_txIdx s + 8) (PutUint32 (of_nat sz)) buf) (\<lambda>buf.
        bindE (copy_at (s_txIdx s + 12) txdata buf) (\<lambda>buf.
        Inr (Added, s\<lparr>s_txData := buf, s_txCount := s_txCount s + 1, s_txIdx := s_txIdx s + 12 + sz\<rparr>)))))"

section \<open>Interpretation and delivery\<close>

text \<open>The error of \<open>setInterpreted\<close> is dropped.\<close>

definition blockmaniaCallback ::
    "('db, 'txn, 'item, 'key) env \<Rightarrow> Interpreted \<Rightarrow> ('db, 'key) Service \<Rightarrow> ('db, 'key) Service res" where
  "blockmaniaCallback E data s =
     bindE (orElse (s_store s) (store_setInterpreted (eB E) data (s_store s))) (\<lambda>st.
     let s1 = s\<lparr>s_store := st\<rparr> in
     if \<not> s_cb s1 then Inr (s1\<lparr>s_interpreted := iRound data\<rparr>)
     else bindE (svc_getBlocks E (iBlocks data) s1) (\<lambda>blocks. Inr (s1\<lparr>s_calls := s_calls s1 @ [(iRound data, blocks)]\<rparr>)))"

text \<open>The interpreter takes the next entry and calls back for what it delivers.\<close>

definition interpret_step ::
    "('db, 'txn, 'item, 'key) env \<Rightarrow> ('db, 'key) Service \<Rightarrow> ('db, 'key) Service res" where
  "interpret_step E s = (case s_entries s of
       [] \<Rightarrow> Inr s
     | e # es \<Rightarrow> bindE (run_step e (s_graph s)) (\<lambda>g.
         foldE (blockmaniaCallback E) (drop (length (g_delivered (s_graph s))) (g_delivered g))
           (s\<lparr>s_entries := es, s_graph := g\<rparr>)))"

definition Acknowledge :: "('db, 'txn, 'item, 'key) env \<Rightarrow> u64 \<Rightarrow> ('db, 'key) Service \<Rightarrow> ('db, 'key) Service res" where
  "Acknowledge E round s =
     bindE (orElse (s_store s) (store_setDeliverAcknowledged (eB E) round (s_store s))) (\<lambda>st. Inr (s\<lparr>s_store := st\<rparr>))"

text \<open>A key that is not in the database gives the default, any other error ends the process.\<close>

definition orDefault :: "string \<Rightarrow> 'a \<Rightarrow> 'a res \<Rightarrow> 'a res" where
  "orDefault msg x r = (if r = Inl ErrKeyNotFound then Inr x else orFatal msg r)"

text \<open>The loop of \<open>Register\<close>; \<open>None\<close> stands for not returning, when the counter wraps.\<close>

partial_function (option) replay_rounds ::
    "('db, 'txn, 'item, 'key) env \<Rightarrow> u64 \<Rightarrow> u64 \<Rightarrow> ('db, 'key) Service \<Rightarrow> ('db, 'key) Service res option" where
  "replay_rounds E i latest s =
     (if i \<le> latest then (case orFatal ''Unable to load blocks for a round'' (store_getInterpreted (eB E) (eP E) i (s_store s)) of
         Inl e \<Rightarrow> Some (Inl e)
       | Inr blocks \<Rightarrow> replay_rounds E (i + 1) latest (s\<lparr>s_calls := s_calls s @ [(i, blocks)]\<rparr>))
      else Some (Inr s))"

declare replay_rounds.simps [code]

text \<open>A second registration ends the process (it also unlocks a mutex that is not held).\<close>

definition Register :: "('db, 'txn, 'item, 'key) env \<Rightarrow> ('db, 'key) Service \<Rightarrow> ('db, 'key) Service res option" where
  "Register E s =
     (if s_cb s then Some (Inl (Fatal ''Attempt to register a broadcast.Callback when one already exists''))
      else let s1 = s\<lparr>s_cb := True\<rparr> in
      (case orDefault ''Could not load latest acknowledged round from DB'' 0 (store_getDeliverAcknowledged (eB E) (s_store s1)) of
        Inl e \<Rightarrow> Some (Inl e)
      | Inr ack \<Rightarrow> replay_rounds E (ack + 1) (s_interpreted s1) s1))"

section \<open>Exchanging blocks\<close>

text \<open>
  The connection loops of \<open>fillMissingBlocks\<close> and \<open>maintainBroadcast\<close> start alike: \<open>backoff\<close> and \<open>retry\<close> are their
  local variables. The result of the dial, the signed hello and the result of sending it come from
  the network and the key.
\<close>

definition next_backoff :: "BroadcastCfg \<Rightarrow> bool \<Rightarrow> int \<Rightarrow> int" where
  "next_backoff cfg retry backoff =
     (if retry then (let b = backoff * 2 in if b > MaxBackoff cfg then MaxBackoff cfg else b) else backoff)"

definition connect_step ::
    "BroadcastCfg \<Rightarrow> unit res \<Rightarrow> Hello res \<Rightarrow> (Hello \<Rightarrow> unit res) \<Rightarrow> bool \<Rightarrow> int \<Rightarrow> (bool \<times> int) res" where
  "connect_step cfg dial hello send retry backoff =
     (let b = next_backoff cfg retry backoff in
      bindE (orElse (True, b) (bindE dial (\<lambda>_. Inr (False, InitialBackoff cfg)))) (\<lambda>(retry, b).
      if retry then Inr (True, b)
      else orElse (True, b) (bindE hello (\<lambda>h. bindE (send h) (\<lambda>_. Inr (False, b))))))"

text \<open>The local variables \<open>rounds\<close> (empty when nil) and \<open>latest\<close> of \<open>fillMissingBlocks\<close>.\<close>

record fillVars =
  fv_rounds :: "u64 list"
  fv_latest :: u64

text \<open>What to ask for; the flag says whether there is something to ask for.\<close>

definition fill_rounds ::
    "('db, 'txn, 'item, 'key) env \<Rightarrow> u64 \<Rightarrow> fillVars \<Rightarrow> ('db, 'key) Service \<Rightarrow> (bool \<times> fillVars \<times> ('db, 'key) Service) res" where
  "fill_rounds E peerID f s =
     (if fv_rounds f \<noteq> [] then Inr (True, f, s)
      else let info = rm_get peerID (s_received s) in
      if ri_latest info = ri_sequence info then Inr (False, f, s)
      else bindE (orFatal ''Could not load missing rounds info from DB''
        (store_getMissing (eB E) peerID (ri_sequence info) (s_maxBlocks s) (s_store s))) (\<lambda>(rounds, latest).
        let f' = \<lparr>fv_rounds = rounds, fv_latest = latest\<rparr> in
        if rounds = [] then
          Inr (False, f', if latest \<noteq> ri_sequence info \<and> latest \<noteq> 0
            then s\<lparr>s_received := rm_setSequence peerID latest (s_received s)\<rparr> else s)
        else Inr (True, f', s)))"

fun fill_blocks ::
    "('db, 'txn, 'item, 'key) env \<Rightarrow> SignedData option list \<Rightarrow> u64 list \<Rightarrow> ('db, 'key) Service \<Rightarrow> (u64 list \<times> ('db, 'key) Service) res" where
  "fill_blocks E [] seen s = Inr (seen, s)"
| "fill_blocks E (block # blocks) seen s = (case svc_processBlock_ptr E block s of
       Inl (Err e) \<Rightarrow> fill_blocks E blocks seen s
     | Inl e \<Rightarrow> Inl e
     | Inr (round, s') \<Rightarrow> fill_blocks E blocks (round # seen) s')"

definition fill_response ::
    "('db, 'txn, 'item, 'key) env \<Rightarrow> u64 \<Rightarrow> SignedData option list \<Rightarrow> fillVars \<Rightarrow> ('db, 'key) Service \<Rightarrow> (fillVars \<times> ('db, 'key) Service) res" where
  "fill_response E peerID blocks f s = bindE (fill_blocks E blocks [] s) (\<lambda>(seen, s').
     let missing = filter (\<lambda>round. round \<notin> set seen) (fv_rounds f);
         latestSeen = foldl (\<lambda>l round. if round \<in> set seen then round else l) 0 (fv_rounds f) in
     Inr (f\<lparr>fv_rounds := missing\<rparr>,
       if latestSeen \<noteq> 0 then s'\<lparr>s_received := rm_setSequence peerID
         (if missing \<noteq> [] then fv_latest f else latestSeen) (s_received s')\<rparr> else s'))"

text \<open>One iteration of the inner loop; \<open>send\<close> and \<open>reply\<close> are the connection. The flag is \<open>retry\<close>.\<close>

definition fillMissing_step ::
    "('db, 'txn, 'item, 'key) env \<Rightarrow> (smessage \<Rightarrow> unit res) \<Rightarrow> smessage res \<Rightarrow> u64 \<Rightarrow> fillVars \<Rightarrow> ('db, 'key) Service \<Rightarrow>
     (bool \<times> fillVars \<times> ('db, 'key) Service) res" where
  "fillMissing_step E send reply peerID f s = bindE (fill_rounds E peerID f s) (\<lambda>(ask, f', s').
     if \<not> ask then Inr (False, f', s')
     else bindE (orFatal ''Could not encode request for get rounds'' (mGetRounds (eP E) \<lparr>Rounds = fv_rounds f'\<rparr>)) (\<lambda>req.
       bindE (orElse None (bindE (send \<lparr>smID = 0, smError = [], smOpcode = OP_GET_ROUNDS, smPayload = req\<rparr>) (\<lambda>_.
         bindE reply (\<lambda>resp. bindE (uListBlocks (eP E) (smPayload resp)) (\<lambda>list. Inr (Some (lbBlocks list))))))) (\<lambda>got.
       if got = None \<or> got = Some [] then Inr (True, f', s')
       else bindE (fill_response E peerID (the got) f' s') (\<lambda>(f'', s''). Inr (False, f'', s'')))))"

text \<open>One iteration of the inner loop of \<open>maintainBroadcast\<close>.\<close>

definition maintainBroadcast_step ::
    "('db, 'txn, 'item, 'key) env \<Rightarrow> (smessage \<Rightarrow> unit res) \<Rightarrow> smessage res \<Rightarrow> u64 \<Rightarrow> ('db, 'key) Service \<Rightarrow>
     (bool \<times> ('db, 'key) Service) res" where
  "maintainBroadcast_step E send reply peerID s = bindE (getUnsent E peerID s) (\<lambda>(blocks, s').
     if blocks = None \<or> blocks = Some [] then Inr (False, s')
     else bindE (orFatal ''Could not encode list blocks for broadcast''
         (mListBlocks (eP E) \<lparr>lbBlocks = map Some (the blocks)\<rparr>)) (\<lambda>payload.
       bindE (orElse None (bindE (send \<lparr>smID = 0, smError = [], smOpcode = OP_BROADCAST, smPayload = payload\<rparr>) (\<lambda>_.
         bindE reply (\<lambda>resp. bindE (uAckBroadcast (eP E) (smPayload resp)) (\<lambda>ack. Inr (Some (Last ack))))))) (\<lambda>ack.
       case ack of None \<Rightarrow> Inr (True, s') | Some round \<Rightarrow> Inr (False, markSent peerID round s'))))"

text \<open>A tick of \<open>writeReceivedMap\<close> and of \<open>writeSentMap\<close>; errors are dropped.\<close>

definition writeReceivedMap_tick ::
    "('db, 'txn, 'item, 'key) env \<Rightarrow> ('db, 'key) Service \<Rightarrow> ('db, 'key) Service res" where
  "writeReceivedMap_tick E s =
     bindE (orElse (s_store s) (store_setReceivedMap (eB E) (s_received s) (s_store s))) (\<lambda>st. Inr (s\<lparr>s_store := st\<rparr>))"

definition writeSentMap_tick ::
    "('db, 'txn, 'item, 'key) env \<Rightarrow> ('db, 'key) Service \<Rightarrow> ('db, 'key) Service res" where
  "writeSentMap_tick E s =
     bindE (orElse (s_store s) (store_setSentMap (eB E) (s_sent s) (s_store s))) (\<lambda>st. Inr (s\<lparr>s_store := st\<rparr>))"

section \<open>Starting\<close>

text \<open>The loops of \<open>replayGraphChanges\<close> and \<open>Replay\<close> over batches of block graphs, with the graphs added and the
  error that ended the loop. \<open>None\<close> stands for not returning.\<close>

partial_function (option) replay_batches ::
    "('db, 'txn, 'item) badger \<Rightarrow> u64 \<Rightarrow> int \<Rightarrow> u64 \<Rightarrow> 'db store \<Rightarrow> BlockGraph list \<Rightarrow> (BlockGraph list \<times> failure option) option" where
  "replay_batches B nodeID batch from st added = (case store_getBlockGraphs B nodeID from batch st of
       Inl e \<Rightarrow> Some (added, Some e)
     | Inr blocks \<Rightarrow>
       if int (length blocks) < batch then Some (added @ blocks, None)
       else replay_batches B nodeID batch (from + of_int batch) st (added @ blocks))"

declare replay_batches.simps [code]

definition replayGraphChanges ::
    "('db, 'txn, 'item, 'key) env \<Rightarrow> u64 \<Rightarrow> ('db, 'key) Service \<Rightarrow> ('db, 'key) Service res option" where
  "replayGraphChanges E from s =
     (case orFatal ''Unable to load block data for unincluded blocks'' (store_getNotIncluded (eB E) (eP E) (eSha E) (s_store s)) of
       Inl e \<Rightarrow> Some (Inl e)
     | Inr blocks \<Rightarrow>
       let s1 = s\<lparr>s_depgraph := fold dg_add blocks (s_depgraph s)\<rparr> in
       (case replay_batches (eB E) (s_nodeID s1) 100 from (s_store s1) [] of
         None \<Rightarrow> None
       | Some (added, Some e) \<Rightarrow> Some (orFatal ''Unable to load block graphs for uninterpreted blocks'' (Inl e))
       | Some (added, None) \<Rightarrow> Some (Inr (fold graph_add added s1))))"

text \<open>
  \<open>loadState\<close>, without the goroutine it starts; \<open>load_fields\<close> is what comes before the replay. The maps of a
  new database have an entry for every peer. \<open>totalNodes\<close> is the size of the network's topology and \<open>grow\<close> the runtime's growth policy for slices.
\<close>

definition load_fields ::
    "('db, 'txn, 'item, 'key) env \<Rightarrow> (nat \<Rightarrow> nat) \<Rightarrow> u64 \<Rightarrow> ('db, 'key) Service \<Rightarrow> (u64 \<times> ('db, 'key) Service) res" where
  "load_fields E grow totalNodes s =
     (let st = s_store s; B = eB E in
      bindE (orDefault ''Could not load latest round data from DB'' (0, [], None)
        (bindE (store_getLastRoundData B (eP E) st) (\<lambda>(round, hash, ref). Inr (round, hash, Some ref)))) (\<lambda>(round, prevhash, prevref).
      bindE (orDefault ''Could not load last interpreted from DB'' (0, 0) (store_getLastInterpreted B st)) (\<lambda>(interpreted, consumed).
      bindE (orDefault ''Could not load received map from DB''
        (fold (\<lambda>peer. AList.update peer \<lparr>ri_latest = 0, ri_sequence = 0\<rparr>) (s_peers s) []) (store_getReceivedMap B st)) (\<lambda>rmap.
      bindE (orDefault ''Could not load sent map from DB''
        (fold (\<lambda>peer. AList.update peer 0) (s_peers s) []) (store_getSentMap B st)) (\<lambda>sent.
      Inr (consumed,
        s\<lparr>s_depgraph := newDepgraph (s_nodeID s),
          s_graph := New grow \<lparr>LastInterpreted = interpreted, Peers = sort (s_nodeID s # s_peers s),
            SelfID = s_nodeID s, TotalNodes = totalNodes\<rparr>,
          s_entries := [], s_interpreted := interpreted, s_prevhash := prevhash, s_prevref := prevref,
          s_received := rmap, s_round := round, s_sent := sent\<rparr>))))))"

definition loadState ::
    "('db, 'txn, 'item, 'key) env \<Rightarrow> (nat \<Rightarrow> nat) \<Rightarrow> u64 \<Rightarrow> ('db, 'key) Service \<Rightarrow> ('db, 'key) Service res option" where
  "loadState E grow totalNodes s = (case load_fields E grow totalNodes s of
       Inl e \<Rightarrow> Some (Inl e)
     | Inr (consumed, s') \<Rightarrow> replayGraphChanges E consumed s')"

record 'key ServiceCfg =
  cfg_Keys :: "(u64, 'key) gmap"
  cfg_MaxPayload :: int
  cfg_NetConsensus :: NetConsensus
  cfg_RateLimit :: RateLimit
  cfg_NodeID :: u64
  cfg_Peers :: "u64 list"

text \<open>
  \<open>New\<close>; \<open>opened\<close> is the result of opening the database. The graphs are nil until \<open>loadState\<close> sets them. The
  sum of the limits is taken to fit an \<open>int\<close>.
\<close>

definition new_service :: "(nat \<Rightarrow> nat) \<Rightarrow> 'db \<Rightarrow> 'key ServiceCfg \<Rightarrow> u64 \<Rightarrow> int \<Rightarrow> int \<Rightarrow> ('db, 'key) Service" where
  "new_service grow d cfg totalNodes refSizeLimit txSizeLimit =
     \<lparr>s_cb = False, s_calls = [], s_depgraph = newDepgraph (cfg_NodeID cfg),
      s_graph = New grow \<lparr>LastInterpreted = 0, Peers = [], SelfID = cfg_NodeID cfg, TotalNodes = totalNodes\<rparr>,
      s_entries = [], s_interpreted = 0, s_keys = cfg_Keys cfg,
      s_maxBlocks = cfg_MaxPayload cfg div (refSizeLimit + txSizeLimit + 100),
      s_maxPayload = cfg_MaxPayload cfg, s_nodeID = cfg_NodeID cfg,
      s_ownBlocks = \<lparr>ob_data = [], ob_latest = 0\<rparr>, s_peers = cfg_Peers cfg, s_prevhash = [], s_prevref = None,
      s_refSizeLimit = refSizeLimit, s_received = [], s_round = 0, s_sent = [],
      s_store = \<lparr>closed = False, db = d, nodeCount = length (cfg_Peers cfg) + 1\<rparr>,
      s_txCount = 0, s_txCountLimit = InitialRate (cfg_RateLimit cfg),
      s_txData = replicate (nat txSizeLimit) 0, s_txIdx = 0, s_txSizeLimit = txSizeLimit\<rparr>"

definition svc_New ::
    "('db, 'txn, 'item, 'key) env \<Rightarrow> (nat \<Rightarrow> nat) \<Rightarrow> 'db res \<Rightarrow> 'key ServiceCfg \<Rightarrow> u64 \<Rightarrow> ('db, 'key) Service res option" where
  "svc_New E grow opened cfg totalNodes =
     (case
        bindE opened (\<lambda>d.
        bindE (ByteSize_Int (BlockReferencesSizeLimit (cfg_NetConsensus cfg))) (\<lambda>refSizeLimit.
        bindE (ByteSize_Int (BlockTransactionsSizeLimit (cfg_NetConsensus cfg))) (\<lambda>txSizeLimit.
        Inr (new_service grow d cfg totalNodes refSizeLimit txSizeLimit))))
      of Inl e \<Rightarrow> Some (Inl e)
       | Inr s \<Rightarrow> loadState E grow totalNodes s)"

text \<open>\<open>Replay\<close> of \<open>broadcast/replay.go\<close>: its argument \<open>start\<close> is not used. The result is the list of the graphs
  added and an error.\<close>

definition Replay ::
    "('db, 'txn, 'item) badger \<Rightarrow> 'db res \<Rightarrow> u64 \<Rightarrow> u64 \<Rightarrow> int \<Rightarrow> (BlockGraph list \<times> failure option) option" where
  "Replay B opened nodeID start batch = (case opened of
       Inl e \<Rightarrow> Some ([], Some e)
     | Inr d \<Rightarrow> replay_batches B nodeID batch 0 \<lparr>closed = False, db = d, nodeCount = 0\<rparr> [])"

section \<open>The processing of received blocks\<close>

text \<open>An iteration of the goroutine \<open>process\<close> of the dependency graph, which reads the service's store.\<close>

definition depgraph_step ::
    "('db, 'txn, 'item, 'key) env \<Rightarrow> nat \<Rightarrow> ('db, 'key) Service \<Rightarrow> ('db, 'key) Service res option" where
  "depgraph_step E n s = (case process_step (\<lambda>i. store_isIncluded (eB E) i (s_store s)) n (s_depgraph s) of
       None \<Rightarrow> None
     | Some r \<Rightarrow> Some (bindE r (\<lambda>d. Inr (s\<lparr>s_depgraph := d\<rparr>))))"

end
