(* ===== verification/StoreInv.thy ===== *)
theory StoreInv
  imports Store
begin

text \<open>
  What the store promises, given a database that keeps what it is told. The documented behaviour of
  badger is the predicate \<open>badger_ok\<close>; every write of the store refines an update of the map from keys to
  values, and the reads are functions of that map.
\<close>

section \<open>The documented behaviour of the database\<close>

text \<open>
  \<open>c\<close> is the content of a database and \<open>tc\<close> what a transaction sees. A transaction starts with the content
  of the database, reads its own writes and replaces the content when it is committed; \<open>Get\<close> of a
  missing key is \<open>ErrKeyNotFound\<close>; an iterator visits the keys in byte order. Keys are not empty. The
  predicate describes a database that is open, within its size limits and without i/o failures.
\<close>

definition badger_ok :: "('db, 'txn, 'item) badger \<Rightarrow> ('db \<Rightarrow> bytes \<rightharpoonup> bytes) \<Rightarrow> ('txn \<Rightarrow> bytes \<rightharpoonup> bytes) \<Rightarrow> bool" where
  "badger_ok B c tc \<longleftrightarrow>
     (\<forall>d. tc (Begin B d) = c d) \<and>
     (\<forall>t k. k \<noteq> [] \<longrightarrow> (case tc t k of None \<Rightarrow> Get B t k = Inl ErrKeyNotFound
        | Some v \<Rightarrow> \<exists>item. Get B t k = Inr item \<and> Value B item = Inr v)) \<and>
     (\<forall>k v t. k \<noteq> [] \<longrightarrow> (\<exists>t'. Set B k v t = Inr t' \<and> tc t' = (tc t)(k \<mapsto> v))) \<and>
     (\<forall>k t. k \<noteq> [] \<longrightarrow> (\<exists>t'. Delete B k t = Inr t' \<and> tc t' = (tc t)(k := None))) \<and>
     (\<forall>t d. \<exists>d'. Commit_txn B t d = Inr d' \<and> c d' = tc t) \<and>
     (\<forall>t start. sorted_wrt (<) (map (Key B) (Seek B t start)) \<and>
        Key B ` set (Seek B t start) = {k \<in> dom (tc t). start \<le> k} \<and>
        (\<forall>item\<in>set (Seek B t start). Value B item = Inr (the (tc t (Key B item)))))"

text \<open>A transaction function that succeeds and leaves the content \<open>m\<close>.\<close>

definition leaves :: "('txn \<Rightarrow> bytes \<rightharpoonup> bytes) \<Rightarrow> 'txn res \<Rightarrow> (bytes \<rightharpoonup> bytes) \<Rightarrow> bool" where
  "leaves tc r m \<longleftrightarrow> (\<exists>t. r = Inr t \<and> tc t = m)"

lemma leaves_Inr [simp]: "leaves tc (Inr t) m \<longleftrightarrow> tc t = m"
  by (auto simp: leaves_def)

lemma leaves_Set: "badger_ok B c tc \<Longrightarrow> k \<noteq> [] \<Longrightarrow> leaves tc (Set B k v t) ((tc t)(k \<mapsto> v))"
  by (auto simp: badger_ok_def leaves_def)

lemma leaves_Delete: "badger_ok B c tc \<Longrightarrow> k \<noteq> [] \<Longrightarrow> leaves tc (Delete B k t) ((tc t)(k := None))"
  by (auto simp: badger_ok_def leaves_def)

lemma leaves_last_Set: "badger_ok B c tc \<Longrightarrow> k \<noteq> [] \<Longrightarrow> (tc t)(k \<mapsto> v) = m \<Longrightarrow> leaves tc (Set B k v t) m"
  using leaves_Set [of B c tc k v t] by simp

lemma leaves_then_Set:
  assumes "badger_ok B c tc" "k \<noteq> []" and "\<And>t'. tc t' = (tc t)(k \<mapsto> v) \<Longrightarrow> leaves tc (f t') m"
  shows "leaves tc (bindE (Set B k v t) f) m"
  using leaves_Set [OF assms(1,2), of v t] assms(3) by (auto simp: leaves_def)

lemma leaves_then_foldE:
  assumes step: "\<And>x t. leaves tc (f x t) (g x (tc t))" and "\<And>t'. tc t' = fold g xs (tc t) \<Longrightarrow> leaves tc (h t') m"
  shows "leaves tc (bindE (foldE f xs t) h) m"
proof -
  have "leaves tc (foldE f xs t) (fold g xs (tc t))"
  proof (induction xs arbitrary: t)
    case (Cons x xs)
    obtain t' where "f x t = Inr t'" "tc t' = g x (tc t)" using step [of x t] by (auto simp: leaves_def)
    with Cons [of t'] show ?case by simp
  qed simp
  with assms(2) show ?thesis by (auto simp: leaves_def)
qed

lemma Get_spec:
  assumes "badger_ok B c tc" "k \<noteq> []"
  shows "tc t k = None \<Longrightarrow> Get B t k = Inl ErrKeyNotFound"
    and "tc t k = Some v \<Longrightarrow> \<exists>item. Get B t k = Inr item \<and> Value B item = Inr v"
proof -
  have "case tc t k of None \<Rightarrow> Get B t k = Inl ErrKeyNotFound
      | Some v \<Rightarrow> \<exists>item. Get B t k = Inr item \<and> Value B item = Inr v"
    using assms by (simp add: badger_ok_def)
  then show "tc t k = None \<Longrightarrow> Get B t k = Inl ErrKeyNotFound"
    and "tc t k = Some v \<Longrightarrow> \<exists>item. Get B t k = Inr item \<and> Value B item = Inr v" by simp_all
qed

lemma read_value_spec:
  assumes "badger_ok B c tc" "k \<noteq> []"
  shows "read_value B t k = (case tc t k of None \<Rightarrow> Inl ErrKeyNotFound | Some v \<Rightarrow> Inr v)"
  using Get_spec [OF assms, of t] by (cases "tc t k") (auto simp: read_value_def)

lemma Begin_spec: "badger_ok B c tc \<Longrightarrow> tc (Begin B d) = c d"
  by (simp add: badger_ok_def)

lemma Update_spec:
  assumes "badger_ok B c tc" "\<not> closed s" "leaves tc (f (Begin B (db s))) m"
  shows "\<exists>s'. Update B s f = Inr s' \<and> c (db s') = m \<and> \<not> closed s'"
proof -
  obtain t where t: "f (Begin B (db s)) = Inr t" "tc t = m" using assms(3) by (auto simp: leaves_def)
  have "\<exists>d. Commit_txn B t (db s) = Inr d \<and> c d = tc t" using assms(1) by (simp add: badger_ok_def)
  then obtain d where "Commit_txn B t (db s) = Inr d" "c d = tc t" by blast
  with t assms(2) show ?thesis by (simp add: Update_def)
qed

section \<open>Iterating over a prefix\<close>

lemma prefix_interval:
  fixes p :: bytes
  assumes "p @ x \<le> k" "take (length p) k' = p" "k \<le> k'"
  shows "take (length p) k = p"
  using assms
proof (induction p arbitrary: k k')
  case (Cons a p)
  obtain b ks where k: "k = b # ks" using Cons.prems(1) by (cases k) auto
  obtain ks' where k': "k' = a # ks'" using Cons.prems(2) by (cases k') auto
  have "a \<le> b" using Cons.prems(1) k by auto
  moreover have "b \<le> a" using Cons.prems(3) k k' by auto
  ultimately have "a = b" by simp
  with Cons k k' show ?case by simp
qed simp

lemma takeWhile_sorted:
  fixes ks :: "bytes list"
  assumes "sorted_wrt (<) ks" "\<forall>k\<in>set ks. p @ x \<le> k"
  shows "takeWhile (\<lambda>k. take (length p) k = p) ks = filter (\<lambda>k. take (length p) k = p) ks"
  using assms
proof (induction ks)
  case (Cons k ks)
  show ?case
  proof (cases "take (length p) k = p")
    case False
    have "take (length p) k' \<noteq> p" if "k' \<in> set ks" for k'
      using prefix_interval [of p x k k'] False Cons.prems that by (auto simp: less_imp_le)
    with False show ?thesis by (simp add: filter_False)
  qed (use Cons in simp)
qed simp

lemma map_takeWhile: "map f (takeWhile (\<lambda>x. P (f x)) xs) = takeWhile P (map f xs)"
  by (induction xs) auto

text \<open>The keys of a prefix from a start on: \<open>ks\<close> lists them in order.\<close>

lemma seek_prefix_spec:
  assumes B: "badger_ok B c tc" and ks: "sorted_wrt (<) ks"
    and keys: "set ks = {k \<in> dom (tc t). p @ x \<le> k \<and> take (length p) k = p}"
  shows "map (Key B) (seek_prefix B t (p @ x) p) = ks"
    and "\<forall>item\<in>set (seek_prefix B t (p @ x) p). Value B item = Inr (the (tc t (Key B item)))"
proof -
  let ?all = "map (Key B) (Seek B t (p @ x))"
  have all: "sorted_wrt (<) ?all" "set ?all = {k \<in> dom (tc t). p @ x \<le> k}"
    and val: "\<forall>item\<in>set (Seek B t (p @ x)). Value B item = Inr (the (tc t (Key B item)))"
    using B by (simp_all add: badger_ok_def)
  show "\<forall>item\<in>set (seek_prefix B t (p @ x) p). Value B item = Inr (the (tc t (Key B item)))"
    using val by (auto simp: seek_prefix_def dest: set_takeWhileD)
  have "map (Key B) (seek_prefix B t (p @ x) p) = takeWhile (\<lambda>k. take (length p) k = p) ?all"
    unfolding seek_prefix_def by (rule map_takeWhile)
  also have "\<dots> = filter (\<lambda>k. take (length p) k = p) ?all"
    using all by (intro takeWhile_sorted [of _ p x]) auto
  finally have eq: "map (Key B) (seek_prefix B t (p @ x) p) = filter (\<lambda>k. take (length p) k = p) ?all" .
  have "sorted_wrt (<) (filter (\<lambda>k. take (length p) k = p) ?all)" using all(1) by (rule sorted_wrt_filter)
  moreover have "set (filter (\<lambda>k. take (length p) k = p) ?all) = set ks" unfolding keys using all(2) by auto
  ultimately show "map (Key B) (seek_prefix B t (p @ x) p) = ks"
    unfolding eq using ks by (intro strict_sorted_equal) auto
qed

section \<open>Writes refine updates of a map\<close>

datatype store_write =
    WriteBlock BlockID SignedData
  | WriteOwn SignedData SignedData BlockGraph
  | WriteInterpreted Interpreted
  | WriteAck u64
  | WriteReceived "(u64, receivedInfo) gmap"
  | WriteSent "(u64, u64) gmap"

fun apply_write :: "('db, 'txn, 'item) badger \<Rightarrow> proto \<Rightarrow> store_write \<Rightarrow> 'db store \<Rightarrow> 'db store res" where
  "apply_write B P (WriteBlock i block) = store_setBlock B P i block"
| "apply_write B P (WriteOwn block ref graph) = store_setOwnBlock B P block ref graph"
| "apply_write B P (WriteInterpreted data) = store_setInterpreted B data"
| "apply_write B P (WriteAck round) = store_setDeliverAcknowledged B round"
| "apply_write B P (WriteReceived data) = store_setReceivedMap B data"
| "apply_write B P (WriteSent data) = store_setSentMap B data"

text \<open>\<open>enc\<close> is the wire form of a signed block.\<close>

fun updated :: "(SignedData \<Rightarrow> bytes) \<Rightarrow> store_write \<Rightarrow> (bytes \<rightharpoonup> bytes) \<Rightarrow> (bytes \<rightharpoonup> bytes)" where
  "updated enc (WriteBlock i block) m =
     (if m (includedKey i) \<noteq> None then m
      else m(includedKey i \<mapsto> [0], notIncludedKey i \<mapsto> [], blockKey i \<mapsto> enc block))"
| "updated enc (WriteOwn block ref graph) m =
     (fold (\<lambda>d m. m(notIncludedKey (dBlock d) := None)) (gDeps graph)
       (fold (\<lambda>d m. m(includedKey (dBlock d) \<mapsto> [1])) (gDeps graph)
         (m(blockKey (gBlock graph) \<mapsto> enc block, [lastBlockRefPrefix] \<mapsto> enc ref,
            blockGraphKey (gBlock graph) \<mapsto> encodeBlockGraph graph, [lastHashPrefix] \<mapsto> Hash (gBlock graph),
            [lastRoundPrefix] \<mapsto> PutUint64 (Round (gBlock graph))))))(ownBlockKey (Round (gBlock graph)) \<mapsto> enc block)"
| "updated enc (WriteInterpreted data) m =
     m(interpretedKey (iRound data) \<mapsto> encode_interpreted (iBlocks data),
       [lastInterpretedPrefix] \<mapsto> PutUint64 (iRound data) @ PutUint64 (iConsumed data))"
| "updated enc (WriteAck round) m = m([roundAcknowledgedPrefix] \<mapsto> PutUint64 round)"
| "updated enc (WriteReceived data) m = m([receivedMapPrefix] \<mapsto> PutUint64 (of_nat (length data)) @
     concat (map (\<lambda>(k, v). PutUint64 k @ PutUint64 (ri_latest v) @ PutUint64 (ri_sequence v)) data))"
| "updated enc (WriteSent data) m = m([sentMapPrefix] \<mapsto> PutUint64 (of_nat (length data)) @
     concat (map (\<lambda>(k, v). PutUint64 k @ PutUint64 v) data))"

text \<open>What the store needs of the codec: signed blocks survive it.\<close>

definition signed_codec :: "proto \<Rightarrow> (SignedData \<Rightarrow> bytes) \<Rightarrow> bool" where
  "signed_codec P enc \<longleftrightarrow> (\<forall>sd. mSignedData P sd = Inr (enc sd) \<and> uSignedData P (enc sd) = Inr sd)"

lemma keys_nonempty [simp]:
  "blockKey i \<noteq> []" "blockGraphKey i \<noteq> []" "includedKey i \<noteq> []" "notIncludedKey i \<noteq> []" "ownBlockKey r \<noteq> []" "interpretedKey r \<noteq> []"
  by (simp_all add: key_layout ownBlockKey_def interpretedKey_def)

lemma set_block_leaves:
  assumes B: "badger_ok B c tc" and t: "tc t = m"
  shows "leaves tc (case Get B t (includedKey i) of Inr _ \<Rightarrow> Inr t
    | Inl e \<Rightarrow> if e \<noteq> ErrKeyNotFound then Inl e
        else bindE (Set B (includedKey i) [0] t) (\<lambda>t.
          bindE (Set B (notIncludedKey i) [] t) (\<lambda>t. Set B (blockKey i) val t)))
    (if m (includedKey i) \<noteq> None then m
     else m(includedKey i \<mapsto> [0], notIncludedKey i \<mapsto> [], blockKey i \<mapsto> val))"
proof (cases "m (includedKey i)")
  case None
  then have "Get B t (includedKey i) = Inl ErrKeyNotFound" using Get_spec(1) [OF B] t by simp
  moreover have "leaves tc (bindE (Set B (includedKey i) [0] t) (\<lambda>t.
      bindE (Set B (notIncludedKey i) [] t) (\<lambda>t. Set B (blockKey i) val t)))
      (m(includedKey i \<mapsto> [0], notIncludedKey i \<mapsto> [], blockKey i \<mapsto> val))"
    by (rule leaves_then_Set [OF B], simp)+ (rule leaves_last_Set [OF B], use t in simp_all)
  ultimately show ?thesis using None by simp
next
  case (Some v)
  with Get_spec(2) [OF B, of "includedKey i" t v] t show ?thesis by auto
qed

lemma set_own_leaves:
  assumes B: "badger_ok B c tc" and t: "tc t = m"
  shows "leaves tc
    (bindE (Set B (blockKey (gBlock graph)) (enc block) t) (\<lambda>t.
     bindE (Set B [lastBlockRefPrefix] (enc ref) t) (\<lambda>t.
     bindE (Set B (blockGraphKey (gBlock graph)) (encodeBlockGraph graph) t) (\<lambda>t.
     bindE (Set B [lastHashPrefix] (Hash (gBlock graph)) t) (\<lambda>t.
     bindE (Set B [lastRoundPrefix] (PutUint64 (Round (gBlock graph))) t) (\<lambda>t.
     bindE (foldE (\<lambda>ref. Set B (includedKey (dBlock ref)) [1]) (gDeps graph) t) (\<lambda>t.
     bindE (foldE (\<lambda>ref. Delete B (notIncludedKey (dBlock ref))) (gDeps graph) t) (\<lambda>t.
     Set B (ownBlockKey (Round (gBlock graph))) (enc block) t))))))))
    (updated enc (WriteOwn block ref graph) m)"
  by (rule leaves_then_Set [OF B], simp)+
    (rule leaves_then_foldE [where g = "\<lambda>d m. m(includedKey (dBlock d) \<mapsto> [1])"], rule leaves_Set [OF B], simp,
     rule leaves_then_foldE [where g = "\<lambda>d m. m(notIncludedKey (dBlock d) := None)"], rule leaves_Delete [OF B], simp,
     rule leaves_last_Set [OF B], simp_all add: t)

lemma write_spec:
  assumes B: "badger_ok B c tc" and P: "signed_codec P enc" and s: "\<not> closed s"
  shows "\<exists>s'. apply_write B P w s = Inr s' \<and> c (db s') = updated enc w (c (db s)) \<and> \<not> closed s'"
proof -
  have t: "tc (Begin B (db s)) = c (db s)" by (rule Begin_spec [OF B])
  have P': "mSignedData P sd = Inr (enc sd)" for sd using P by (simp add: signed_codec_def)
  note upd = Update_spec [OF B s]
  show ?thesis
  proof (cases w)
    case (WriteBlock i block)
    show ?thesis unfolding WriteBlock apply_write.simps updated.simps store_setBlock_def if_not_P [OF s] P' bindE_Inr
      by (rule upd, rule set_block_leaves [OF B t])
  next
    case (WriteOwn block ref graph)
    show ?thesis unfolding WriteOwn apply_write.simps store_setOwnBlock_def if_not_P [OF s] P' bindE_Inr
      by (rule upd, rule set_own_leaves [OF B t])
  next
    case (WriteInterpreted data)
    show ?thesis unfolding WriteInterpreted apply_write.simps updated.simps store_setInterpreted_def if_not_P [OF s]
      by (rule upd, rule leaves_then_Set [OF B], simp, rule leaves_last_Set [OF B]) (use t in simp_all)
  next
    case (WriteAck round)
    show ?thesis unfolding WriteAck apply_write.simps updated.simps store_setDeliverAcknowledged_def if_not_P [OF s]
      by (rule upd, rule leaves_last_Set [OF B]) (use t in simp_all)
  next
    case (WriteReceived data)
    show ?thesis unfolding WriteReceived apply_write.simps updated.simps store_setReceivedMap_def if_not_P [OF s]
      by (rule upd, rule leaves_last_Set [OF B]) (use t in simp_all)
  next
    case (WriteSent data)
    show ?thesis unfolding WriteSent apply_write.simps updated.simps store_setSentMap_def if_not_P [OF s]
      by (rule upd, rule leaves_last_Set [OF B]) (use t in simp_all)
  qed
qed

lemma writes_spec:
  assumes B: "badger_ok B c tc" and P: "signed_codec P enc"
  shows "\<not> closed s \<Longrightarrow> \<exists>s'. foldE (apply_write B P) ws s = Inr s' \<and> c (db s') = fold (updated enc) ws (c (db s)) \<and> \<not> closed s'"
proof (induction ws arbitrary: s)
  case (Cons w ws)
  obtain s1 where "apply_write B P w s = Inr s1" "c (db s1) = updated enc w (c (db s))" "\<not> closed s1"
    using write_spec [OF B P Cons.prems] by blast
  with Cons.IH [of s1] show ?case by simp
qed simp

section \<open>The families of keys\<close>

lemma fold_fun_upd: "fold (\<lambda>d m. m(key d := v)) ds m = (\<lambda>k. if k \<in> key ` set ds then v else m k)"
  by (induction ds arbitrary: m) (auto simp: fun_eq_iff)

lemmas key_simps = key_layout ownBlockKey_def interpretedKey_def prefix_defs fold_fun_upd image_image

lemma updated_graph:
  "updated enc w m (blockGraphPrefix # r) = (case w of
     WriteOwn block ref g \<Rightarrow> if r = encodeBlockID (gBlock g) then Some (encodeBlockGraph g) else m (blockGraphPrefix # r)
   | _ \<Rightarrow> m (blockGraphPrefix # r))"
  by (cases w) (auto simp: key_simps)

lemma updated_included:
  "updated enc w m (includedPrefix # r) = (case w of
     WriteBlock i block \<Rightarrow> if r = encodeBlockID i \<and> m (includedPrefix # r) = None then Some [0] else m (includedPrefix # r)
   | WriteOwn block ref g \<Rightarrow> if r \<in> (\<lambda>d. encodeBlockID (dBlock d)) ` set (gDeps g) then Some [1] else m (includedPrefix # r)
   | _ \<Rightarrow> m (includedPrefix # r))"
  by (cases w) (auto simp: key_simps)

lemma updated_notIncluded:
  "updated enc w m (notIncludedPrefix # r) = (case w of
     WriteBlock i block \<Rightarrow> if r = encodeBlockID i \<and> m (includedPrefix # r) = None then Some [] else m (notIncludedPrefix # r)
   | WriteOwn block ref g \<Rightarrow> if r \<in> (\<lambda>d. encodeBlockID (dBlock d)) ` set (gDeps g) then None else m (notIncludedPrefix # r)
   | _ \<Rightarrow> m (notIncludedPrefix # r))"
  by (cases w) (auto simp: key_simps)

lemma updated_block:
  "updated enc w m (blockPrefix # r) = (case w of
     WriteBlock i block \<Rightarrow> if r = encodeBlockID i \<and> m (includedPrefix # r) = None then Some (enc block) else m (blockPrefix # r)
   | WriteOwn block ref g \<Rightarrow> if r = encodeBlockID (gBlock g) then Some (enc block) else m (blockPrefix # r)
   | _ \<Rightarrow> m (blockPrefix # r))"
  by (cases w) (auto simp: key_simps)

lemma updated_ownBlock:
  "updated enc w m (ownBlockPrefix # r) = (case w of
     WriteOwn block ref g \<Rightarrow> if r = Encode (Round (gBlock g)) then Some (enc block) else m (ownBlockPrefix # r)
   | _ \<Rightarrow> m (ownBlockPrefix # r))"
  by (cases w) (auto simp: key_simps)

lemma updated_interpreted:
  "updated enc w m (interpretedPrefix # r) = (case w of
     WriteInterpreted data \<Rightarrow> if r = Encode (iRound data) then Some (encode_interpreted (iBlocks data)) else m (interpretedPrefix # r)
   | _ \<Rightarrow> m (interpretedPrefix # r))"
  by (cases w) (auto simp: key_simps)

lemma updated_last:
  "updated enc w m [lastHashPrefix] = (case w of WriteOwn block ref g \<Rightarrow> Some (Hash (gBlock g)) | _ \<Rightarrow> m [lastHashPrefix])"
  "updated enc w m [lastRoundPrefix] =
     (case w of WriteOwn block ref g \<Rightarrow> Some (PutUint64 (Round (gBlock g))) | _ \<Rightarrow> m [lastRoundPrefix])"
  "updated enc w m [lastBlockRefPrefix] = (case w of WriteOwn block ref g \<Rightarrow> Some (enc ref) | _ \<Rightarrow> m [lastBlockRefPrefix])"
  "updated enc w m [lastInterpretedPrefix] =
     (case w of WriteInterpreted data \<Rightarrow> Some (PutUint64 (iRound data) @ PutUint64 (iConsumed data)) | _ \<Rightarrow> m [lastInterpretedPrefix])"
  "updated enc w m [roundAcknowledgedPrefix] = (case w of WriteAck r \<Rightarrow> Some (PutUint64 r) | _ \<Rightarrow> m [roundAcknowledgedPrefix])"
  by (cases w; auto simp: key_simps)+

declare updated.simps [simp del]

section \<open>The content after a sequence of writes\<close>

definition content :: "(SignedData \<Rightarrow> bytes) \<Rightarrow> store_write list \<Rightarrow> (bytes \<rightharpoonup> bytes)" where
  "content enc ws = fold (updated enc) ws Map.empty"

lemma content_Nil [simp]: "content enc [] = Map.empty"
  by (simp add: content_def)

lemma content_snoc [simp]: "content enc (ws @ [w]) = updated enc w (content enc ws)"
  by (simp add: content_def)

fun own_graph :: "store_write \<Rightarrow> BlockGraph list" where
  "own_graph (WriteOwn block ref g) = [g]"
| "own_graph _ = []"

definition own_graphs :: "store_write list \<Rightarrow> BlockGraph list" where
  "own_graphs ws = concat (map own_graph ws)"

definition included_ids :: "store_write list \<Rightarrow> BlockID set" where
  "included_ids ws = (\<Union>g\<in>set (own_graphs ws). dBlock ` set (gDeps g))"

definition received_ids :: "store_write list \<Rightarrow> BlockID set" where
  "received_ids ws = {i. \<exists>block. WriteBlock i block \<in> set ws}"

lemma history_snoc [simp]:
  "own_graphs (ws @ [w]) = own_graphs ws @ own_graph w"
  "included_ids (ws @ [w]) = included_ids ws \<union> (\<Union>g\<in>set (own_graph w). dBlock ` set (gDeps g))"
  "received_ids (ws @ [w]) = received_ids ws \<union> (case w of WriteBlock i block \<Rightarrow> {i} | _ \<Rightarrow> {})"
  "own_graphs [] = []" "included_ids [] = {}" "received_ids [] = {}"
  by (auto simp: own_graphs_def included_ids_def received_ids_def split: store_write.splits)

lemma content_included:
  "content enc ws (includedKey i) =
     (if i \<in> included_ids ws then Some [1] else if i \<in> received_ids ws then Some [0] else None)"
proof (induction ws rule: rev_induct)
  case (snoc w ws)
  then show ?case by (cases w) (auto simp: key_layout updated_included)
qed simp

lemma content_notIncluded:
  "content enc ws (notIncludedPrefix # r) =
     (if r \<in> encodeBlockID ` (received_ids ws - included_ids ws) then Some [] else None)"
proof (induction ws rule: rev_induct)
  case (snoc w ws)
  have "content enc ws (includedPrefix # encodeBlockID i) =
      (if i \<in> included_ids ws then Some [1] else if i \<in> received_ids ws then Some [0] else None)" for i
    using content_included [of enc ws i] by (simp add: key_layout)
  with snoc show ?case by (cases w) (auto simp: updated_notIncluded split: if_splits)
qed simp

lemma content_graph:
  "distinct (map gBlock (own_graphs ws)) \<Longrightarrow>
   content enc ws (blockGraphPrefix # r) =
     map_of (map (\<lambda>g. (encodeBlockID (gBlock g), encodeBlockGraph g)) (own_graphs ws)) r"
proof (induction ws rule: rev_induct)
  case (snoc w ws)
  show ?case
  proof (cases w)
    case (WriteOwn block ref g)
    with snoc.prems have "map_of (map (\<lambda>g. (encodeBlockID (gBlock g), encodeBlockGraph g)) (own_graphs ws))
        (encodeBlockID (gBlock g)) = None" by (auto simp: map_of_eq_None_iff)
    with snoc WriteOwn show ?thesis by (auto simp: updated_graph map_add_def split: option.splits)
  qed (use snoc in \<open>simp_all add: updated_graph\<close>)
qed simp

lemma content_received_block:
  "i \<in> received_ids ws - included_ids ws \<Longrightarrow> \<exists>sd. content enc ws (blockKey i) = Some (enc sd) \<and>
     (WriteBlock i sd \<in> set ws \<or> (\<exists>ref g. WriteOwn sd ref g \<in> set ws \<and> gBlock g = i))"
proof (induction ws rule: rev_induct)
  case (snoc w ws)
  have k: "content enc ws (includedPrefix # encodeBlockID i) = None \<longleftrightarrow> i \<notin> included_ids ws \<union> received_ids ws"
    using content_included [of enc ws i] by (simp add: key_layout)
  show ?case
  proof (cases "i \<in> received_ids ws")
    case True
    with snoc.prems have "i \<in> received_ids ws - included_ids ws" by auto
    from snoc.IH [OF this] obtain sd where sd: "content enc ws (blockKey i) = Some (enc sd)"
      "WriteBlock i sd \<in> set ws \<or> (\<exists>ref g. WriteOwn sd ref g \<in> set ws \<and> gBlock g = i)" by blast
    with True k show ?thesis by (cases w) (auto simp: key_layout updated_block)
  next
    case False
    with snoc.prems obtain sd where "w = WriteBlock i sd" "i \<notin> included_ids ws"
      by (auto split: store_write.splits)
    with False k show ?thesis by (intro exI [of _ sd]) (auto simp: key_layout updated_block)
  qed
qed simp

section \<open>Reads\<close>

text \<open>An open store whose content results from the writes \<open>ws\<close>.\<close>

definition stored :: "('db \<Rightarrow> bytes \<rightharpoonup> bytes) \<Rightarrow> (SignedData \<Rightarrow> bytes) \<Rightarrow> store_write list \<Rightarrow> 'db store \<Rightarrow> bool" where
  "stored c enc ws s \<longleftrightarrow> \<not> closed s \<and> c (db s) = content enc ws"

lemma View_read:
  assumes "badger_ok B c tc" "stored c enc ws s" "k \<noteq> []"
  shows "View B s (\<lambda>t. bindE (read_value B t k) f) =
    (case content enc ws k of None \<Rightarrow> Inl ErrKeyNotFound | Some v \<Rightarrow> f v)"
  using assms read_value_spec [OF assms(1,3)] Begin_spec [OF assms(1)]
  by (simp add: View_def stored_def split: option.split)

lemma isIncluded_stored:
  assumes B: "badger_ok B c tc" and s: "stored c enc ws s"
  shows "store_isIncluded B i s = Inr (i \<in> included_ids ws)"
proof -
  let ?t = "Begin B (db s)"
  have t: "tc ?t (includedKey i) =
      (if i \<in> included_ids ws then Some [1] else if i \<in> received_ids ws then Some [0] else None)"
    using s by (simp add: Begin_spec [OF B] stored_def content_included)
  have "\<not> closed s" using s by (simp add: stored_def)
  with t Get_spec [OF B, of "includedKey i" ?t] show ?thesis
    by (cases "tc ?t (includedKey i)") (auto simp: store_isIncluded_def View_def split: if_splits)
qed

lemma own_block_stored:
  assumes B: "badger_ok B c tc" and P: "signed_codec P enc" and s: "stored c enc (ws @ [WriteOwn block ref g]) s"
  shows "store_getOwnBlock B P (Round (gBlock g)) s = Inr block"
    and "store_getBlock B P (gBlock g) s = Inr block"
    and "store_getLastRoundData B P s = Inr (Round (gBlock g), Hash (gBlock g), ref)"
proof -
  have P': "uSignedData P (enc sd) = Inr sd" for sd using P by (simp add: signed_codec_def)
  have U: "Uint64 (PutUint64 v) = Inr v" for v using Uint64_Put [of v "[]"] by simp
  show "store_getOwnBlock B P (Round (gBlock g)) s = Inr block"
    unfolding store_getOwnBlock_def View_read [OF B s keys_nonempty(5)]
    by (simp add: ownBlockKey_def updated_ownBlock P')
  show "store_getBlock B P (gBlock g) s = Inr block"
    unfolding store_getBlock_def View_read [OF B s keys_nonempty(1)]
    by (simp add: key_layout updated_block P')
  have t: "tc (Begin B (db s)) = content enc (ws @ [WriteOwn block ref g])" "\<not> closed s"
    using s by (simp_all add: Begin_spec [OF B] stored_def)
  show "store_getLastRoundData B P s = Inr (Round (gBlock g), Hash (gBlock g), ref)"
    by (simp add: store_getLastRoundData_def View_def t read_value_spec [OF B] updated_last U P')
qed

text \<open>Blocks that were received and not included in an own block.\<close>

lemma prefix_keys:
  "x \<in> dom m \<and> [p] @ [] \<le> x \<and> take (length [p]) x = [p] \<longleftrightarrow> (\<exists>r. x = p # r \<and> m (p # r) \<noteq> None)" for x :: bytes
  by (cases x) auto

lemma key_ordered_list:
  fixes key :: "'a \<Rightarrow> bytes"
  assumes "finite A" "inj_on key A"
  obtains xs where "distinct xs" "set xs = A" "sorted_wrt (<) (map key xs)"
proof -
  obtain ys where ys: "distinct ys" "set ys = A" using finite_distinct_list [OF assms(1)] by blast
  let ?xs = "sort_key key ys"
  have "distinct (map key ?xs)" using ys assms(2) by (simp add: distinct_map)
  then have "sorted_wrt (<) (map key ?xs)" by (simp add: strict_sorted_iff)
  with that [of ?xs] ys show ?thesis by simp
qed

lemma finite_ids: "finite (received_ids ws)" "finite (included_ids ws)"
proof -
  have "received_ids ws \<subseteq> (\<lambda>w. case w of WriteBlock i b \<Rightarrow> i | _ \<Rightarrow> zeroID) ` set ws"
    by (force simp: received_ids_def image_iff split: store_write.splits)
  then show "finite (received_ids ws)" by (rule finite_subset) simp
qed (simp add: included_ids_def)

lemma foldE_collect:
  "\<forall>x\<in>set xs. g x = Inr (f x) \<Longrightarrow> foldE (\<lambda>x ys. bindE (g x) (\<lambda>y. Inr (ys @ [y]))) xs ys = Inr (ys @ map f xs)"
  by (induction xs arbitrary: ys) auto

text \<open>The ids under which blocks are written are those their content gives.\<close>

fun write_named :: "proto \<Rightarrow> (bytes \<Rightarrow> bytes) \<Rightarrow> store_write \<Rightarrow> bool" where
  "write_named P sha (WriteBlock i sd) = (case getBlockData P sha sd of Inl e \<Rightarrow> False | Inr bd \<Rightarrow> bd_id bd = i)"
| "write_named P sha (WriteOwn sd ref g) = (case getBlockData P sha sd of Inl e \<Rightarrow> False | Inr bd \<Rightarrow> bd_id bd = gBlock g)"
| "write_named P sha _ = True"

lemma notIncluded_stored:
  assumes B: "badger_ok B c tc" and P: "signed_codec P enc" and s: "stored c enc ws s"
    and named: "list_all (write_named P sha) ws"
  shows "\<exists>bds. store_getNotIncluded B P sha s = Inr bds \<and> distinct (map bd_id bds) \<and>
    bd_id ` set bds = received_ids ws - included_ids ws \<and>
    (\<forall>bd\<in>set bds. \<exists>sd. getBlockData P sha sd = Inr bd \<and>
      (WriteBlock (bd_id bd) sd \<in> set ws \<or> (\<exists>ref g. WriteOwn sd ref g \<in> set ws \<and> gBlock g = bd_id bd)))"
proof -
  let ?ids = "received_ids ws - included_ids ws" and ?t = "Begin B (db s)" and ?p = notIncludedPrefix
  have t: "tc ?t = content enc ws" "\<not> closed s" using s by (simp_all add: Begin_spec [OF B] stored_def)
  have "\<exists>sd bd. content enc ws (blockKey i) = Some (enc sd) \<and> getBlockData P sha sd = Inr bd \<and> bd_id bd = i \<and>
      (WriteBlock i sd \<in> set ws \<or> (\<exists>ref g. WriteOwn sd ref g \<in> set ws \<and> gBlock g = i))"
    if i: "i \<in> ?ids" for i
  proof -
    obtain sd where sd: "content enc ws (blockKey i) = Some (enc sd)"
      "WriteBlock i sd \<in> set ws \<or> (\<exists>ref g. WriteOwn sd ref g \<in> set ws \<and> gBlock g = i)"
      using content_received_block [OF i, of enc] by blast
    have nm: "write_named P sha w" if "w \<in> set ws" for w using named that by (simp add: list_all_iff)
    from sd(2) have "\<exists>bd. getBlockData P sha sd = Inr bd \<and> bd_id bd = i"
      by (auto dest!: nm split: sum.splits)
    with sd show ?thesis by blast
  qed
  then obtain sdf bdf where f: "\<forall>i\<in>?ids. content enc ws (blockKey i) = Some (enc (sdf i)) \<and>
      getBlockData P sha (sdf i) = Inr (bdf i) \<and> bd_id (bdf i) = i \<and>
      (WriteBlock i (sdf i) \<in> set ws \<or> (\<exists>ref g. WriteOwn (sdf i) ref g \<in> set ws \<and> gBlock g = i))" by metis
  have "finite ?ids" "inj_on notIncludedKey ?ids" using finite_ids(1) by (auto simp: inj_on_def key_layout)
  then obtain xs where xs: "distinct xs" "set xs = ?ids" "sorted_wrt (<) (map notIncludedKey xs)"
    by (rule key_ordered_list)
  have "set (map notIncludedKey xs) = {k \<in> dom (tc ?t). [?p] @ [] \<le> k \<and> take (length [?p]) k = [?p]}"
    unfolding prefix_keys t(1) by (auto simp: content_notIncluded key_layout xs(2) split: if_splits)
  from seek_prefix_spec(1) [OF B xs(3) this]
  have keys: "map (Key B) (seek_prefix B ?t [?p] [?p]) = map notIncludedKey xs" by simp
  have "map (\<lambda>item. blockPrefix # tl (Key B item)) (seek_prefix B ?t [?p] [?p]) =
      map (\<lambda>k. blockPrefix # tl k) (map (Key B) (seek_prefix B ?t [?p] [?p]))" by simp
  also have "\<dots> = map blockKey xs" unfolding keys by (simp add: key_layout)
  finally have items: "map (\<lambda>item. blockPrefix # tl (Key B item)) (seek_prefix B ?t [?p] [?p]) = map blockKey xs" .
  have "read_blocks B P ?t (map blockKey xs) = Inr (map sdf xs)"
  proof -
    have "\<forall>i\<in>set xs. tc ?t (blockKey i) = Some (enc (sdf i))" using f xs(2) t(1) by simp
    then show ?thesis using P by (induction xs) (auto simp: read_value_spec [OF B] signed_codec_def)
  qed
  moreover have "foldE (\<lambda>block data. bindE (getBlockData P sha block) (\<lambda>d. Inr (data @ [d]))) (map sdf xs) [] = Inr (map bdf xs)"
    using foldE_collect [of "map sdf xs" "getBlockData P sha" "\<lambda>sd. projr (getBlockData P sha sd)" "[]"] f xs(2)
    by simp
  ultimately have "store_getNotIncluded B P sha s = Inr (map bdf xs)"
    by (simp add: store_getNotIncluded_def View_def t(2) items)
  moreover have "map bd_id (map bdf xs) = xs"
    unfolding map_map by (rule map_idI) (use f xs(2) in auto)
  ultimately have r: "store_getNotIncluded B P sha s = Inr (map bdf xs)" "distinct (map bd_id (map bdf xs))"
    "bd_id ` set (map bdf xs) = ?ids" using xs(1,2) by (metis, metis, metis list.set_map)
  have "\<exists>sd. getBlockData P sha sd = Inr bd \<and>
      (WriteBlock (bd_id bd) sd \<in> set ws \<or> (\<exists>ref g. WriteOwn sd ref g \<in> set ws \<and> gBlock g = bd_id bd))"
    if "bd \<in> set (map bdf xs)" for bd using that f xs(2) by fastforce
  with r show ?thesis by blast
qed

text \<open>The block graphs of the node, from a round on.\<close>

lemma separated_less_plain:
  fixes xs ys :: bytes
  assumes "0 \<notin> set xs" and "0 \<notin> set ys"
  shows "xs @ 0 # us < ys \<longleftrightarrow> xs < ys"
  using assms
proof (induction xs arbitrary: ys)
  case Nil
  then show ?case by (cases ys) (auto simp: word_greater_zero_iff)
next
  case (Cons x xs)
  then show ?case by (cases ys) auto
qed

lemma append_le_same [simp]: "xs @ us \<le> xs @ vs \<longleftrightarrow> us \<le> vs" for xs us vs :: bytes
  by (induction xs) auto

lemma Encode_le_key: "Encode a \<le> Encode b @ 0 # us \<longleftrightarrow> a \<le> b"
  using separated_less_plain [OF Encode_no_zero Encode_no_zero, of b us a] lexinum.enc_less_iff [of b a]
  by (simp add: linorder_not_less [symmetric])

lemma read_graphs_spec:
  assumes "map (Key B) items = map (\<lambda>g. blockGraphKey (gBlock g)) gs"
    and "\<forall>item\<in>set items. Value B item = Inr (val (Key B item))"
    and "\<forall>g\<in>set gs. graph_fits g \<and> val (blockGraphKey (gBlock g)) = encodeBlockGraph g"
    and "int (length acc) < limit"
  shows "read_graphs B limit items acc = Inr (acc @ take (nat limit - length acc) gs)"
  using assms
proof (induction items arbitrary: gs acc)
  case (Cons item items)
  then obtain g gs' where gs: "gs = g # gs'" "Key B item = blockGraphKey (gBlock g)"
    "map (Key B) items = map (\<lambda>g. blockGraphKey (gBlock g)) gs'" by (cases gs) auto
  have "gslice (Key B item) 1 (length (Key B item)) = Inr (encodeBlockID (gBlock g))"
    by (simp add: gs key_layout gslice_def)
  moreover have "Value B item = Inr (encodeBlockGraph g)" "graph_fits g" using Cons.prems(2,3) gs by auto
  ultimately have step: "read_graphs B limit (item # items) acc =
      (if int (length (acc @ [g])) = limit then Inr (acc @ [g]) else read_graphs B limit items (acc @ [g]))"
    by (simp add: decodeBlockID_encode decode_encode_graph)
  show ?case
  proof (cases "int (length (acc @ [g])) = limit")
    case True
    then have "nat limit - length acc = 1" by (simp add: nat_eq_iff)
    with True step gs show ?thesis by simp
  next
    case False
    with Cons.prems(4) have less: "int (length (acc @ [g])) < limit" by simp
    then have "nat limit - length acc = Suc (nat limit - length (acc @ [g]))" by simp
    moreover have "read_graphs B limit items (acc @ [g]) = Inr ((acc @ [g]) @ take (nat limit - length (acc @ [g])) gs')"
      using Cons.prems(2,3) gs less by (intro Cons.IH) auto
    ultimately show ?thesis using step False gs(1) by simp
  qed
qed simp

lemma block_graphs_stored:
  assumes B: "badger_ok B c tc" and s: "stored c enc ws s" and limit: "0 < limit"
    and own: "\<forall>g\<in>set (own_graphs ws). Node (gBlock g) = self \<and> graph_fits g"
    and rounds: "sorted_wrt (<) (map (\<lambda>g. Round (gBlock g)) (own_graphs ws))"
  shows "store_getBlockGraphs B self from limit s =
    Inr (take (nat limit) (filter (\<lambda>g. from \<le> Round (gBlock g)) (own_graphs ws)))"
proof -
  let ?gs = "own_graphs ws" and ?t = "Begin B (db s)"
  let ?p = "[blockGraphPrefix] @ Encode self @ [0]" and ?fs = "filter (\<lambda>g. from \<le> Round (gBlock g)) (own_graphs ws)"
  let ?key = "\<lambda>g. blockGraphKey (gBlock g)"
  have t: "tc ?t = content enc ws" "\<not> closed s" using s by (simp_all add: Begin_spec [OF B] stored_def)
  have "sorted_wrt (\<lambda>g g'. Round (gBlock g) < Round (gBlock g')) ?gs" using rounds by (simp add: sorted_wrt_map)
  then have "sorted_wrt (\<lambda>g g'. ?key g < ?key g') ?gs"
    by (rule sorted_wrt_mono_rel [rotated]) (use own in \<open>auto simp: key_layout encodeBlockID_less\<close>)
  then have sorted: "sorted_wrt (<) (map ?key ?gs)" by (simp add: sorted_wrt_map)
  then have "sorted_wrt (<) (map ?key ?fs)" unfolding sorted_wrt_map by (rule sorted_wrt_filter)
  have "distinct (map ?key ?gs)" using sorted strict_sorted_iff by blast
  then have d: "distinct (map gBlock ?gs)" by (auto simp: distinct_map inj_on_def)
  have k: "?p @ Encode from \<le> ?key g \<and> take (length ?p) (?key g) = ?p \<longleftrightarrow> from \<le> Round (gBlock g)" if "g \<in> set ?gs" for g
    using own that by (simp add: key_layout encodeBlockID_def Encode_le_key)
  have dom: "content enc ws (blockGraphPrefix # r) = Some v \<longleftrightarrow> (\<exists>g\<in>set ?gs. r = encodeBlockID (gBlock g) \<and> v = encodeBlockGraph g)" for r v
    unfolding content_graph [OF d] using d by (subst map_of_eq_Some_iff) (auto simp: distinct_map inj_on_def image_iff)
  have "set (map ?key ?fs) = {k \<in> dom (tc ?t). ?p @ Encode from \<le> k \<and> take (length ?p) k = ?p}"
  proof (intro equalityI subsetI)
    fix x assume "x \<in> set (map ?key ?fs)"
    then obtain g where g: "g \<in> set ?gs" "x = ?key g" "from \<le> Round (gBlock g)" by auto
    then have "content enc ws x = Some (encodeBlockGraph g)" by (auto simp: key_layout dom)
    with g k show "x \<in> {k \<in> dom (tc ?t). ?p @ Encode from \<le> k \<and> take (length ?p) k = ?p}" by (auto simp: t)
  next
    fix x assume x: "x \<in> {k \<in> dom (tc ?t). ?p @ Encode from \<le> k \<and> take (length ?p) k = ?p}"
    then obtain r where "x = blockGraphPrefix # r" by (cases x) auto
    with x obtain g where "g \<in> set ?gs" "x = ?key g" by (auto simp: t dom key_layout)
    with x k [of g] show "x \<in> set (map ?key ?fs)" by auto
  qed
  note seek = seek_prefix_spec [OF B \<open>sorted_wrt (<) (map ?key ?fs)\<close> this]
  have "content enc ws (?key g) = Some (encodeBlockGraph g)" if "g \<in> set ?gs" for g
    using that by (auto simp: key_layout dom)
  then have "read_graphs B limit (seek_prefix B ?t (?p @ Encode from) ?p) [] = Inr (take (nat limit) ?fs)"
    using read_graphs_spec [OF seek(1), of "\<lambda>k. the (tc ?t k)" "[]" limit] seek(2) own limit by (simp add: t)
  then show ?thesis by (simp add: store_getBlockGraphs_def View_def t)
qed

section \<open>Missing rounds\<close>

definition rounds_between :: "u64 \<Rightarrow> u64 \<Rightarrow> u64 list" where
  "rounds_between l n = map of_nat [Suc (unat l)..<unat n]"

fun gaps :: "u64 \<Rightarrow> u64 list \<Rightarrow> u64 list" where
  "gaps l [] = []"
| "gaps l (n # ns) = rounds_between l n @ gaps n ns"

lemma rounds_between_Cons:
  assumes "l < l + 1" "l + 1 < n"
  shows "rounds_between l n = (l + 1) # rounds_between (l + 1) n"
proof -
  have u: "unat (l + 1) = Suc (unat l)" using assms(1) by (rule unat_incr)
  then have "Suc (unat l) < unat n" using assms(2) by (simp add: word_less_nat_alt)
  then have "[Suc (unat l)..<unat n] = Suc (unat l) # [Suc (Suc (unat l))..<unat n]" by (simp add: upt_conv_Cons)
  moreover have "word_of_nat (Suc (unat l)) = l + 1" by (simp add: add.commute)
  ultimately show ?thesis by (simp add: rounds_between_def u)
qed

lemma rounds_between_Nil: "\<not> l + 1 < n \<Longrightarrow> l < l + 1 \<Longrightarrow> rounds_between l n = []"
  using unat_incr [of l "l + 1"] by (simp add: rounds_between_def word_less_nat_alt)

text \<open>The loop stops when it has one more round than the limit.\<close>

lemma missing_rounds_spec:
  "l < l + 1 \<Longrightarrow> int (length rounds) \<le> limit \<Longrightarrow>
   missing_rounds limit (l + 1) n (int (length rounds)) l rounds =
   (if int (length (rounds @ rounds_between l n)) \<le> limit
    then (False, int (length (rounds @ rounds_between l n)), last (l # rounds_between l n), rounds @ rounds_between l n)
    else (True, limit, rounds_between l n ! (nat limit - length rounds), take (Suc (nat limit)) (rounds @ rounds_between l n)))"
proof (induction "unat n - unat l" arbitrary: l rounds rule: less_induct)
  case less
  show ?case
  proof (cases "l + 1 < n")
    case False
    with less.prems show ?thesis by (simp add: missing_rounds.simps [of _ "l + 1"] rounds_between_Nil)
  next
    case True
    have rb: "rounds_between l n = (l + 1) # rounds_between (l + 1) n" using less.prems(1) True by (rule rounds_between_Cons)
    have u: "unat (l + 1) = Suc (unat l)" using less.prems(1) by (rule unat_incr)
    have l2: "l + 1 < l + 1 + 1" using True unat_incr [OF True] by (simp add: word_less_nat_alt)
    show ?thesis
    proof (cases "int (length rounds) = limit")
      case stop: True
      then have "nat limit = length rounds" by simp
      with True stop rb show ?thesis by (simp add: missing_rounds.simps [of _ "l + 1"])
    next
      case False
      with less.prems(2) have le: "int (length (rounds @ [l + 1])) \<le> limit" by simp
      have "unat n - unat (l + 1) < unat n - unat l" using True u by (simp add: word_less_nat_alt)
      note IH = less.hyps [OF this l2 le]
      have len: "int (length (rounds @ [l + 1])) = int (length rounds) + 1" by simp
      have "missing_rounds limit (l + 1) n (int (length rounds)) l rounds =
          missing_rounds limit (l + 1 + 1) n (int (length (rounds @ [l + 1]))) (l + 1) (rounds @ [l + 1])"
        by (subst missing_rounds.simps) (simp only: True False if_True if_False len)
      also note IH
      also have "nat limit - length rounds = Suc (nat limit - length (rounds @ [l + 1]))" using le by simp
      then have "(if int (length ((rounds @ [l + 1]) @ rounds_between (l + 1) n)) \<le> limit
          then (False, int (length ((rounds @ [l + 1]) @ rounds_between (l + 1) n)),
            last ((l + 1) # rounds_between (l + 1) n), (rounds @ [l + 1]) @ rounds_between (l + 1) n)
          else (True, limit, rounds_between (l + 1) n ! (nat limit - length (rounds @ [l + 1])),
            take (Suc (nat limit)) ((rounds @ [l + 1]) @ rounds_between (l + 1) n))) =
        (if int (length (rounds @ rounds_between l n)) \<le> limit
          then (False, int (length (rounds @ rounds_between l n)), last (l # rounds_between l n), rounds @ rounds_between l n)
          else (True, limit, rounds_between l n ! (nat limit - length rounds), take (Suc (nat limit)) (rounds @ rounds_between l n)))"
        by (simp add: rb)
      finally show ?thesis .
    qed
  qed
qed

lemma missing_items_spec:
  assumes "\<forall>item\<in>set items. decodeBlockRound (Key B item) = Inr (rnd item)"
    and "l < l + 1" "\<forall>item\<in>set items. rnd item < rnd item + 1"
    and "int (length rounds) \<le> limit"
  shows "missing_items B limit items (int (length rounds)) l rounds =
    Inr (if int (length (rounds @ gaps l (map rnd items))) \<le> limit
      then (rounds @ gaps l (map rnd items), last (l # map rnd items))
      else (take (Suc (nat limit)) (rounds @ gaps l (map rnd items)), (rounds @ gaps l (map rnd items)) ! nat limit))"
  using assms
proof (induction items arbitrary: l rounds)
  case (Cons item items)
  let ?n = "rnd item"
  note m = missing_rounds_spec [OF Cons.prems(2,4), of ?n]
  show ?case
  proof (cases "int (length (rounds @ rounds_between l ?n)) \<le> limit")
    case True
    have "missing_items B limit items (int (length (rounds @ rounds_between l ?n))) ?n (rounds @ rounds_between l ?n) =
      Inr (if int (length ((rounds @ rounds_between l ?n) @ gaps ?n (map rnd items))) \<le> limit
      then ((rounds @ rounds_between l ?n) @ gaps ?n (map rnd items), last (?n # map rnd items))
      else (take (Suc (nat limit)) ((rounds @ rounds_between l ?n) @ gaps ?n (map rnd items)),
        ((rounds @ rounds_between l ?n) @ gaps ?n (map rnd items)) ! nat limit))"
      using Cons.prems(1,3) True by (intro Cons.IH) auto
    then show ?thesis using m True Cons.prems(1) by simp
  next
    case False
    then have len: "nat limit < length (rounds @ rounds_between l ?n)" using Cons.prems(4) by linarith
    have le: "length rounds \<le> nat limit" using Cons.prems(4) by simp
    with len have "nat limit - length rounds < length (rounds_between l ?n)" by simp
    with False m Cons.prems(1) len le show ?thesis by (simp add: nth_append)
  qed
qed simp

text \<open>The rounds of a node between the first and the last stored block after \<open>since\<close> that have no block.\<close>

definition gap_rounds :: "u64 \<Rightarrow> u64 set \<Rightarrow> u64 set" where
  "gap_rounds l N = {r. l < r \<and> r \<notin> N \<and> (\<exists>n\<in>N. r < n)}"

lemma unat_below: "k < unat (n :: u64) \<Longrightarrow> unat (word_of_nat k :: u64) = k"
proof -
  have "unat n < 2 ^ LENGTH(64)" by (rule unsigned_less)
  then show "k < unat n \<Longrightarrow> unat (word_of_nat k :: u64) = k" by (simp add: unsigned_of_nat take_bit_nat_eq_self)
qed

lemma set_rounds_between: "set (rounds_between l n) = {r. l < r \<and> r < n}"
proof -
  have "r \<in> set (rounds_between l n)" if "l < r" "r < n" for r
  proof -
    have "unat r \<in> {Suc (unat l)..<unat n}" using that by (simp add: word_less_nat_alt)
    moreover have "word_of_nat (unat r) = r" by simp
    ultimately show ?thesis unfolding rounds_between_def set_map set_upt by (metis imageI)
  qed
  moreover have "l < r \<and> r < n" if r: "r \<in> set (rounds_between l n)" for r
  proof -
    obtain k where k: "r = word_of_nat k" "unat l < k" "k < unat n" using r by (auto simp: rounds_between_def)
    then have "unat r = k" by (simp add: unat_below)
    with k show ?thesis by (simp add: word_less_nat_alt)
  qed
  ultimately show ?thesis by blast
qed

lemma sorted_rounds_between: "sorted_wrt (<) (rounds_between l n)"
proof -
  have "\<forall>k\<in>set [Suc (unat l)..<unat n]. unat (word_of_nat k :: u64) = k" by (auto intro: unat_below)
  moreover have "sorted_wrt (<) [Suc (unat l)..<unat n]" by simp
  ultimately show ?thesis unfolding rounds_between_def sorted_wrt_map
    by (elim sorted_wrt_mono_rel [rotated]) (simp add: word_less_nat_alt)
qed

lemma set_gaps:
  "sorted ns \<Longrightarrow> \<forall>n\<in>set ns. l < n \<Longrightarrow> set (gaps l ns) = gap_rounds l (set ns)"
proof (induction ns arbitrary: l)
  case Nil
  then show ?case by (simp add: gap_rounds_def)
next
  case (Cons n ns)
  show ?case
  proof (cases "n \<in> set ns")
    case True
    then have "ns \<noteq> []" by auto
    then obtain m ms where ns: "ns = m # ms" by (cases ns) auto
    with Cons.prems True have "m = n" by auto
    then have "gaps n ns = gaps n ms" using ns by (simp add: rounds_between_def)
    moreover have "gaps l ns = rounds_between l n @ gaps n ms" using ns \<open>m = n\<close> by simp
    ultimately have "gaps l (n # ns) = gaps l ns" by simp
    with Cons.IH [of l] Cons.prems True show ?thesis by (simp add: insert_absorb)
  next
    case False
    have "\<forall>m\<in>set ns. n < m" using Cons.prems(1) False by (auto simp: less_le)
    then have "set (gaps n ns) = gap_rounds n (set ns)" using Cons by simp
    with Cons.prems \<open>\<forall>m\<in>set ns. n < m\<close> show ?thesis
      by (auto simp: set_rounds_between gap_rounds_def dest: less_trans)
  qed
qed

lemma sorted_gaps: "sorted ns \<Longrightarrow> \<forall>n\<in>set ns. l \<le> n \<Longrightarrow> sorted_wrt (<) (gaps l ns)"
proof (induction ns arbitrary: l)
  case (Cons n ns)
  have "n < r" if "r \<in> set (gaps n ns)" for r
    using that Cons.prems(1)
  proof (induction ns arbitrary: n)
    case (Cons m ms)
    then show ?case by (auto simp: set_rounds_between intro: le_less_trans)
  qed simp
  with Cons show ?case
    by (auto simp: sorted_wrt_append sorted_rounds_between set_rounds_between intro: less_trans)
qed simp

lemma finite_dom_updated: "finite (dom m) \<Longrightarrow> finite (dom (updated enc w m))"
proof -
  have upd: "finite (dom (\<lambda>k. if k \<in> key ` set (ds :: Dep list) then v else m' k))"
    if "finite (dom m')" for key ds v and m' :: "bytes \<rightharpoonup> bytes"
    by (rule finite_subset [of _ "key ` set ds \<union> dom m'"]) (use that in \<open>auto split: if_splits\<close>)
  show "finite (dom m) \<Longrightarrow> finite (dom (updated enc w m))"
    by (cases w) (auto simp: updated.simps fold_fun_upd intro!: upd finite_insert [THEN iffD2] simp del: fun_upd_apply)
qed

lemma finite_content: "finite (dom (content enc ws))"
  by (induction ws rule: rev_induct) (simp_all add: finite_dom_updated)

lemma content_block_key: "content enc ws (blockPrefix # r) \<noteq> None \<Longrightarrow> \<exists>i. r = encodeBlockID i"
proof (induction ws rule: rev_induct)
  case (snoc w ws)
  then show ?case by (cases w) (auto simp: updated_block split: if_splits)
qed simp

text \<open>The rounds after \<open>since\<close> for which a block of a node is stored.\<close>

definition stored_rounds :: "(SignedData \<Rightarrow> bytes) \<Rightarrow> store_write list \<Rightarrow> u64 \<Rightarrow> u64 \<Rightarrow> u64 set" where
  "stored_rounds enc ws n since = {Round i | i. Node i = n \<and> since < Round i \<and> content enc ws (blockKey i) \<noteq> None}"

lemma word_succ_less: "(x :: u64) < y \<Longrightarrow> x < x + 1"
  using unat_incr [of x y] by (simp add: word_less_nat_alt)

lemma word_succ_le: "(x :: u64) < y \<Longrightarrow> x + 1 \<le> z \<longleftrightarrow> x < z"
  using unat_incr [of x y] by (simp add: word_less_nat_alt word_le_nat_alt Suc_le_eq)

lemma block_key_node:
  assumes "take (length ([blockPrefix] @ Encode n @ [0])) (blockKey i) = [blockPrefix] @ Encode n @ [0]"
  shows "Node i = n"
proof -
  have t: "take (Suc (length (Encode n))) (encodeBlockID i) = Encode n @ [0]" using assms by (simp add: key_layout)
  define rest where "rest = drop (Suc (length (Encode n))) (encodeBlockID i)"
  have "encodeBlockID i = (Encode n @ [0]) @ rest"
    using append_take_drop_id [of "Suc (length (Encode n))" "encodeBlockID i"] by (simp only: t rest_def)
  then have "Encode (Node i) @ 0 # Encode (Round i) @ 0 # Hash i = Encode n @ 0 # rest"
    by (simp add: encodeBlockID_def)
  then show ?thesis by (simp only: lexinum.key_eq_iff)
qed

text \<open>The keys a scan for missing rounds visits, in order.\<close>

lemma block_keys_from:
  assumes B: "badger_ok B c tc" and s: "stored c enc ws s" and since: "since < -1"
  obtains xs where "map (Key B) (seek_prefix B (Begin B (db s))
      (([blockPrefix] @ Encode n @ [0]) @ Encode (since + 1)) ([blockPrefix] @ Encode n @ [0])) = map blockKey xs"
    and "sorted (map Round xs)" and "Round ` set xs = stored_rounds enc ws n since"
proof -
  let ?p = "[blockPrefix] @ Encode n @ [0]" and ?t = "Begin B (db s)"
  let ?A = "{i. Node i = n \<and> since < Round i \<and> content enc ws (blockKey i) \<noteq> None}"
  have t: "tc ?t = content enc ws" using s by (simp add: Begin_spec [OF B] stored_def)
  have inj: "inj_on blockKey ?A" by (auto simp: inj_on_def key_layout)
  have "blockKey ` ?A \<subseteq> dom (content enc ws)" by auto
  then have "finite (blockKey ` ?A)" using finite_content by (rule finite_subset)
  then have "finite ?A" using inj by (rule finite_imageD)
  then obtain xs where xs: "set xs = ?A" "sorted_wrt (<) (map blockKey xs)" 
    by (rule key_ordered_list [OF _ inj])
  have k: "?p @ Encode (since + 1) \<le> blockKey i \<and> take (length ?p) (blockKey i) = ?p \<longleftrightarrow> Node i = n \<and> since < Round i" for i
  proof (cases "Node i = n")
    case True
    then show ?thesis using word_succ_le [OF since, of "Round i"]
      by (simp add: key_layout encodeBlockID_def Encode_le_key)
  next
    case False
    then show ?thesis using block_key_node [of n i] by auto
  qed
  have "set (map blockKey xs) = {k \<in> dom (tc ?t). ?p @ Encode (since + 1) \<le> k \<and> take (length ?p) k = ?p}"
  proof (intro equalityI subsetI)
    fix x assume "x \<in> set (map blockKey xs)"
    then obtain i where "i \<in> ?A" "x = blockKey i" using xs(1) by auto
    with k [of i] show "x \<in> {k \<in> dom (tc ?t). ?p @ Encode (since + 1) \<le> k \<and> take (length ?p) k = ?p}" by (auto simp: t)
  next
    fix x assume x: "x \<in> {k \<in> dom (tc ?t). ?p @ Encode (since + 1) \<le> k \<and> take (length ?p) k = ?p}"
    then obtain r where r: "x = blockPrefix # r" by (cases x) auto
    with x content_block_key [of enc ws r] obtain i where "x = blockKey i" by (auto simp: t key_layout)
    with x k [of i] have "i \<in> ?A" by (auto simp: t)
    with \<open>x = blockKey i\<close> xs(1) show "x \<in> set (map blockKey xs)" by auto
  qed
  note seek = seek_prefix_spec(1) [OF B xs(2) this]
  have "sorted_wrt (\<lambda>i j. blockKey i < blockKey j) xs" using xs(2) by (simp add: sorted_wrt_map)
  then have "sorted_wrt (\<lambda>i j. Round i \<le> Round j) xs"
    by (rule sorted_wrt_mono_rel [rotated]) (use xs(1) in \<open>auto simp: key_layout encodeBlockID_less\<close>)
  then have "sorted (map Round xs)" by (simp add: sorted_wrt_map)
  moreover have "Round ` set xs = stored_rounds enc ws n since" unfolding xs(1) by (auto simp: stored_rounds_def)
  ultimately show ?thesis using seek by (intro that [of xs])
qed

lemma missing_stored:
  assumes B: "badger_ok B c tc" and s: "stored c enc ws s" and since: "since < -1" and limit: "0 \<le> limit"
    and top: "-1 \<notin> stored_rounds enc ws n since"
  shows "\<exists>rs l. store_getMissing B n since limit s = Inr (rs, l) \<and> sorted_wrt (<) rs \<and>
    set rs \<subseteq> gap_rounds since (stored_rounds enc ws n since) \<and>
    int (length rs) = min (int (card (gap_rounds since (stored_rounds enc ws n since)))) (limit + 1) \<and>
    (int (length rs) \<le> limit \<longrightarrow> (\<forall>r\<in>stored_rounds enc ws n since. r \<le> l))"
proof -
  let ?N = "stored_rounds enc ws n since" and ?p = "[blockPrefix] @ Encode n @ [0]" and ?t = "Begin B (db s)"
  let ?items = "seek_prefix B ?t (?p @ Encode (since + 1)) ?p"
  obtain xs where xs: "map (Key B) ?items = map blockKey xs" "sorted (map Round xs)" "Round ` set xs = ?N"
    by (rule block_keys_from [OF B s since, of n])
  define rnd where "rnd item = projr (decodeBlockRound (Key B item))" for item
  define g where "g = gaps since (map Round xs)"
  have keys: "Key B item \<in> blockKey ` set xs" if "item \<in> set ?items" for item
  proof -
    have "Key B item \<in> set (map (Key B) ?items)" using that by simp
    then show ?thesis unfolding xs(1) by simp
  qed
  have dec: "decodeBlockRound (Key B item) = Inr (rnd item) \<and> rnd item \<in> ?N" if "item \<in> set ?items" for item
    using keys [OF that] xs(3) by (auto simp: rnd_def key_layout decodeBlockRound_key)
  have "map rnd ?items = map (\<lambda>k. projr (decodeBlockRound k)) (map (Key B) ?items)" by (simp add: rnd_def)
  also have "\<dots> = map Round xs" unfolding xs(1) by (simp add: key_layout decodeBlockRound_key)
  finally have rnds: "map rnd ?items = map Round xs" .
  have N: "r < -1" "since < r" if "r \<in> ?N" for r
  proof -
    have "r \<noteq> -1" using that top by blast
    then show "r < -1" by (simp add: word_order.not_eq_extremum)
    show "since < r" using that by (auto simp: stored_rounds_def)
  qed
  have g: "set g = gap_rounds since ?N" "sorted_wrt (<) g"
    unfolding g_def using xs(2,3) N set_gaps [of "map Round xs" since] sorted_gaps [of "map Round xs" since]
    by (auto simp: less_imp_le)
  have card: "card (gap_rounds since ?N) = length g"
    unfolding g(1) [symmetric] using g(2) by (intro distinct_card) (simp add: strict_sorted_iff)
  have "\<forall>item\<in>set ?items. decodeBlockRound (Key B item) = Inr (rnd item)" using dec by blast
  moreover have "\<forall>item\<in>set ?items. rnd item < rnd item + 1" using dec N(1) word_succ_less by blast
  ultimately have "missing_items B limit ?items 0 since [] =
      Inr (if int (length g) \<le> limit then (g, last (since # map Round xs)) else (take (Suc (nat limit)) g, g ! nat limit))"
    using missing_items_spec [of ?items B rnd since "[]" limit] word_succ_less [OF since] limit
    unfolding rnds g_def by simp
  then have m: "store_getMissing B n since limit s =
      Inr (if int (length g) \<le> limit then (g, last (since # map Round xs)) else (take (Suc (nat limit)) g, g ! nat limit))"
    using s by (simp add: store_getMissing_def View_def stored_def)
  have last: "r \<le> last (since # map Round xs)" if "r \<in> ?N" for r
  proof -
    have "r \<in> set (map Round xs)" using that xs(3) by simp
    with xs(2) show ?thesis by (induction xs) (auto simp: last_map split: if_splits)
  qed
  show ?thesis
  proof (cases "int (length g) \<le> limit")
    case True
    with m g last card show ?thesis by auto
  next
    case False
    then have "length (take (Suc (nat limit)) g) = Suc (nat limit)" using limit by auto
    with False m g card limit show ?thesis by (auto dest: in_set_takeD simp: sorted_wrt_take)
  qed
qed

end
