(* ===== verification/StoreProps.thy ===== *)
theory StoreProps
  imports StoreInv
begin

text \<open>
  The remaining round trips of the store, a database in memory that behaves as documented, and the
  properties of the store.
\<close>

section \<open>Interpreted rounds and maps\<close>

lemma read_at:
  assumes "i = length pre" "j = i + length m"
  shows "gslice (pre @ m @ post) i j = Inr m"
  using gslice_middle [of pre m post] by (simp add: assms)

lemma Uint_Put [simp]: "Uint64 (PutUint64 v) = Inr v" "Uint16 (PutUint16 w) = Inr w"
  using Uint64_Put [of v "[]"] Uint16_Put [of w "[]"] by simp_all

lemma interpreted_blocks_spec:
  assumes B: "badger_ok B c tc"
  shows "\<forall>i\<in>set ids. length (blockKey i) < 2 ^ 16 \<and> (\<exists>v. tc t (blockKey i) = Some v \<and> uSignedData P v = Inr (f i)) \<Longrightarrow>
    interpreted_blocks B P t (pre @ concat (map (\<lambda>i. put_key (blockKey i)) ids)) (length ids) (length pre) = Inr (map f ids)"
proof (induction ids arbitrary: pre)
  case (Cons i ids)
  let ?k = "blockKey i" and ?l = "of_nat (length (blockKey i)) :: u16"
  let ?rest = "concat (map (\<lambda>i. put_key (blockKey i)) ids)"
  have l: "unat ?l = length ?k" using Cons.prems by (simp add: unat_of_nat_u16)
  have IH: "interpreted_blocks B P t ((pre @ PutUint16 ?l @ ?k) @ ?rest) (length ids) (length (pre @ PutUint16 ?l @ ?k)) =
      Inr (map f ids)" using Cons by (intro Cons.IH) simp
  have 1: "gslice (pre @ PutUint16 ?l @ ?k @ ?rest) (length pre) (length pre + 2) = Inr (PutUint16 ?l)"
    by (rule read_at) simp_all
  have 2: "gslice (pre @ PutUint16 ?l @ ?k @ ?rest) (length pre + 2) (length pre + 2 + length ?k) = Inr ?k"
    by (rule read_at [where pre = "pre @ PutUint16 ?l", unfolded append_assoc]) simp_all
  obtain v where "tc t ?k = Some v" "uSignedData P v = Inr (f i)" using Cons.prems by auto
  moreover have "read_value B t ?k = Inr v" using calculation by (simp add: read_value_spec [OF B])
  ultimately show ?case using IH 1 2 by (simp add: put_key_def l add.assoc [symmetric])
qed simp

lemma sint_count: "n < 2 ^ 63 \<Longrightarrow> nat (sint (of_nat n :: u64)) = n"
proof -
  assume n: "n < 2 ^ 63"
  have "sint (of_nat n :: u64) = signed_take_bit 63 (int n)" by (simp add: signed_of_nat)
  also have "\<dots> = int n" using n by (intro signed_take_bit_int_eq_self) simp_all
  finally show "nat (sint (of_nat n :: u64)) = n" by simp
qed

lemma interpreted_stored:
  assumes B: "badger_ok B c tc" and s: "stored c enc (ws @ [WriteInterpreted data]) s"
    and blocks: "\<forall>i\<in>set (iBlocks data). length (blockKey i) < 2 ^ 16 \<and>
      (\<exists>v. content enc ws (blockKey i) = Some v \<and> uSignedData P v = Inr (f i))"
    and n: "length (iBlocks data) < 2 ^ 63"
  shows "store_getInterpreted B P (iRound data) s = Inr (map f (iBlocks data))"
    and "store_getLastInterpreted B s = Inr (iRound data, iConsumed data)"
proof -
  let ?t = "Begin B (db s)" and ?cnt = "PutUint64 (of_nat (length (iBlocks data)))"
  have t: "tc ?t = content enc (ws @ [WriteInterpreted data])" "\<not> closed s"
    using s by (simp_all add: Begin_spec [OF B] stored_def)
  have v: "read_value B ?t (interpretedKey (iRound data)) = Inr (encode_interpreted (iBlocks data))"
    by (simp add: read_value_spec [OF B] t interpretedKey_def updated_interpreted)
  have "\<forall>i\<in>set (iBlocks data). length (blockKey i) < 2 ^ 16 \<and>
      (\<exists>v. tc ?t (blockKey i) = Some v \<and> uSignedData P v = Inr (f i))"
    using blocks by (simp add: t key_layout updated_block)
  then have ib: "interpreted_blocks B P ?t (encode_interpreted (iBlocks data)) (length (iBlocks data)) 8 = Inr (map f (iBlocks data))"
    using interpreted_blocks_spec [OF B, of "iBlocks data" ?t P f ?cnt] by (simp add: encode_interpreted_def)
  have "gslice (encode_interpreted (iBlocks data)) 0 8 = Inr ?cnt"
    unfolding encode_interpreted_def by (rule read_at [where pre = "[]", unfolded append_Nil]) simp_all
  then have "bindE (gslice (encode_interpreted (iBlocks data)) 0 8) (\<lambda>b. bindE (Uint64 b) (\<lambda>w.
      interpreted_blocks B P ?t (encode_interpreted (iBlocks data)) (nat (sint w)) 8)) = Inr (map f (iBlocks data))"
    by (simp only: bindE_Inr Uint_Put sint_count [OF n] ib)
  then show "store_getInterpreted B P (iRound data) s = Inr (map f (iBlocks data))"
    unfolding store_getInterpreted_def View_def if_not_P [OF t(2)] v bindE_Inr .
  have w: "read_value B ?t [lastInterpretedPrefix] = Inr (PutUint64 (iRound data) @ PutUint64 (iConsumed data))"
    by (simp add: read_value_spec [OF B] t updated_last)
  have sl: "gslice (PutUint64 a @ PutUint64 b) 0 8 = Inr (PutUint64 a)" "gslice (PutUint64 a @ PutUint64 b) 8 16 = Inr (PutUint64 b)" for a b
    by (simp_all add: gslice_def)
  show "store_getLastInterpreted B s = Inr (iRound data, iConsumed data)"
    unfolding store_getLastInterpreted_def View_def if_not_P [OF t(2)] w bindE_Inr sl Uint_Put ..
qed

definition received_bytes :: "u64 \<times> receivedInfo \<Rightarrow> bytes" where
  "received_bytes = (\<lambda>(k, v). PutUint64 k @ PutUint64 (ri_latest v) @ PutUint64 (ri_sequence v))"

definition sent_bytes :: "u64 \<times> u64 \<Rightarrow> bytes" where
  "sent_bytes = (\<lambda>(k, v). PutUint64 k @ PutUint64 v)"

lemma received_entries_spec:
  "received_entries (pre @ concat (map received_bytes data)) (length data) (length pre) acc =
   Inr (fold (\<lambda>(k, v). AList.update k v) data acc)"
proof (induction data arbitrary: pre acc)
  case (Cons kv data)
  obtain k v where "kv = (k, v)" by (cases kv)
  moreover obtain l q where "v = \<lparr>ri_latest = l, ri_sequence = q\<rparr>" by (cases v)
  ultimately have kv: "kv = (k, \<lparr>ri_latest = l, ri_sequence = q\<rparr>)" by simp
  let ?rest = "concat (map received_bytes data)"
  have "gslice (pre @ PutUint64 k @ PutUint64 l @ PutUint64 q @ ?rest) (length pre) (length pre + 8) = Inr (PutUint64 k)"
    by (rule read_at) simp_all
  moreover have "gslice (pre @ PutUint64 k @ PutUint64 l @ PutUint64 q @ ?rest) (length pre + 8) (length pre + 16) = Inr (PutUint64 l)"
    by (rule read_at [where pre = "pre @ PutUint64 k", unfolded append_assoc]) simp_all
  moreover have "gslice (pre @ PutUint64 k @ PutUint64 l @ PutUint64 q @ ?rest) (length pre + 16) (length pre + 24) = Inr (PutUint64 q)"
    by (rule read_at [where pre = "pre @ PutUint64 k @ PutUint64 l", unfolded append_assoc]) simp_all
  ultimately show ?case
    using Cons.IH [of "pre @ received_bytes kv" "AList.update k \<lparr>ri_latest = l, ri_sequence = q\<rparr> acc"] by (simp add: kv received_bytes_def)
qed simp

lemma sent_entries_spec:
  "sent_entries (pre @ concat (map sent_bytes data)) (length data) (length pre) acc =
   Inr (fold (\<lambda>(k, v). AList.update k v) data acc)"
proof (induction data arbitrary: pre acc)
  case (Cons kv data)
  obtain k v where kv: "kv = (k, v)" by (cases kv)
  let ?rest = "concat (map sent_bytes data)"
  have "gslice (pre @ PutUint64 k @ PutUint64 v @ ?rest) (length pre) (length pre + 8) = Inr (PutUint64 k)"
    by (rule read_at) simp_all
  moreover have "gslice (pre @ PutUint64 k @ PutUint64 v @ ?rest) (length pre + 8) (length pre + 16) = Inr (PutUint64 v)"
    by (rule read_at [where pre = "pre @ PutUint64 k", unfolded append_assoc]) simp_all
  ultimately show ?case
    using Cons.IH [of "pre @ sent_bytes kv" "AList.update k v acc"] by (simp add: kv sent_bytes_def)
qed simp

lemma fold_update_map_of:
  "distinct (map fst data) \<Longrightarrow> map_of (fold (\<lambda>(k, v). AList.update k v) data acc) = map_of acc ++ map_of data"
proof (induction data arbitrary: acc)
  case (Cons kv data)
  obtain k v where kv: "kv = (k, v)" by (cases kv)
  with Cons.prems have "k \<notin> dom (map_of data)" by (simp add: dom_map_of_conv_image_fst)
  then have "(map_of acc)(k \<mapsto> v) ++ map_of data = map_of acc ++ (map_of data)(k \<mapsto> v)"
    unfolding map_add_upd by (rule map_add_upd_left)
  moreover have "map_of (fold (\<lambda>(k, v). AList.update k v) data (AList.update k v acc)) = map_of (AList.update k v acc) ++ map_of data"
    using Cons by simp
  ultimately show ?case by (simp only: kv fold_simps prod.case map_of.simps fst_conv snd_conv update_conv')
qed simp

section \<open>A database in memory\<close>

text \<open>The laws of the database can hold: an association list with sorted iteration has them.\<close>

definition memdb :: "((bytes, bytes) gmap, (bytes, bytes) gmap, bytes \<times> bytes) badger" where
  "memdb = \<lparr>Begin = (\<lambda>d. d), Commit_txn = (\<lambda>t d. Inr t),
     Get = (\<lambda>t k. case map_of t k of None \<Rightarrow> Inl ErrKeyNotFound | Some v \<Rightarrow> Inr (k, v)),
     Key = fst, Value = (\<lambda>item. Inr (snd item)),
     Set = (\<lambda>k v t. Inr (AList.update k v t)), Delete = (\<lambda>k t. Inr (AList.delete k t)),
     Seek = (\<lambda>t start. map (\<lambda>k. (k, the (map_of t k))) (sort (remdups (filter (\<lambda>k. start \<le> k) (map fst t)))))\<rparr>"

lemma memdb_ok: "badger_ok memdb map_of map_of"
proof -
  have keys: "map fst (Seek memdb t start) = sort (remdups (filter (\<lambda>k. start \<le> k) (map fst t)))" for t start
    by (simp add: memdb_def comp_def)
  have "sorted_wrt (<) (map fst (Seek memdb t start))" for t start
    unfolding keys by (simp add: strict_sorted_iff)
  moreover have "fst ` set (Seek memdb t start) = {k \<in> dom (map_of t). start \<le> k}" for t start
    using arg_cong [OF keys [of t start], of set] by (auto simp: dom_map_of_conv_image_fst)
  moreover have "\<forall>item\<in>set (Seek memdb t start). snd item = the (map_of t (fst item))" for t start
    by (auto simp: memdb_def)
  moreover have "Key memdb = fst" "Value memdb = (\<lambda>item. Inr (snd item))" by (simp_all add: memdb_def)
  ultimately show ?thesis
    unfolding badger_ok_def by (simp add: memdb_def update_conv' delete_conv' split: option.split)
qed

definition mem_enc :: "SignedData \<Rightarrow> bytes" where
  "mem_enc sd = replicate (length (Data sd)) 1 @ 0 # Data sd @ Signature sd"

definition mem_dec :: "bytes \<Rightarrow> SignedData" where
  "mem_dec bs = (let n = length (takeWhile (\<lambda>b. b = 1) bs); rest = drop (Suc n) bs
     in \<lparr>Data = take n rest, Signature = drop n rest\<rparr>)"

definition mem_proto :: proto where
  "mem_proto = \<lparr>mSignedData = (\<lambda>sd. Inr (mem_enc sd)), uSignedData = (\<lambda>bs. Inr (mem_dec bs)),
     mBlock = (\<lambda>_. Inr []), uBlock = (\<lambda>_. Inl (Err [])),
     mBlockReference = (\<lambda>r. Inr (refHash r)), uBlockReference = (\<lambda>_. Inl (Err [])),
     mListBlocks = (\<lambda>_. Inr []), uListBlocks = (\<lambda>_. Inl (Err [])),
     mAckBroadcast = (\<lambda>_. Inr []), uAckBroadcast = (\<lambda>_. Inl (Err [])),
     mGetRounds = (\<lambda>_. Inr []), uGetRounds = (\<lambda>_. Inl (Err [])), uGetBlocks = (\<lambda>_. Inl (Err []))\<rparr>"

lemma mem_codec: "mSignedData P = mSignedData mem_proto \<Longrightarrow> uSignedData P = uSignedData mem_proto \<Longrightarrow> signed_codec P mem_enc"
proof -
  have "takeWhile (\<lambda>b. b = 1) (replicate n 1 @ 0 # xs) = replicate n (1 :: u8)" for n xs
    by (induction n) simp_all
  then have "mem_dec (mem_enc sd) = sd" for sd
    by (cases sd) (simp add: mem_dec_def mem_enc_def Let_def)
  then show "mSignedData P = mSignedData mem_proto \<Longrightarrow> uSignedData P = uSignedData mem_proto \<Longrightarrow> signed_codec P mem_enc"
    by (simp add: signed_codec_def mem_proto_def)
qed

abbreviation mem_empty :: "(bytes, bytes) gmap store" where
  "mem_empty \<equiv> \<lparr>closed = False, db = [], nodeCount = 1\<rparr>"

lemma mem_stored: "stored map_of mem_enc [] mem_empty"
  by (simp add: stored_def)

lemma stored_writes:
  assumes "badger_ok B c tc" "signed_codec P enc" "stored c enc ws s"
  shows "\<exists>s'. foldE (apply_write B P) ws' s = Inr s' \<and> stored c enc (ws @ ws') s'"
  using writes_spec [OF assms(1,2), of s ws'] assms(3) by (auto simp: stored_def content_def)

lemma stored_write:
  assumes "badger_ok B c tc" "signed_codec P enc" "stored c enc ws s"
  shows "\<exists>s'. apply_write B P w s = Inr s' \<and> stored c enc (ws @ [w]) s'"
  using write_spec [OF assms(1,2), of s w] assms(3) by (auto simp: stored_def)

section \<open>Properties\<close>


abbreviation sample_own :: store_write where
  "sample_own \<equiv> WriteOwn \<lparr>Data = [7], Signature = [8]\<rparr> \<lparr>Data = [9], Signature = [8]\<rparr>
     \<lparr>gBlock = \<lparr>Hash = [5], Node = 1, Round = 1\<rparr>, gDeps = [], gPrev = zeroID\<rparr>"


text \<open>C17. An own block can be read back as soon as it is written: by its round, by its id and as the last
  block with its round, hash and reference. From then on exactly the blocks it refers to are included
  in addition to those of the earlier own blocks.\<close>

theorem own_block_readable:
  assumes "badger_ok B c tc" and "signed_codec P enc" and "stored c enc ws s"
  shows "\<exists>s'. store_setOwnBlock B P block ref g s = Inr s' \<and>
    store_getOwnBlock B P (Round (gBlock g)) s' = Inr block \<and>
    store_getBlock B P (gBlock g) s' = Inr block \<and>
    store_getLastRoundData B P s' = Inr (Round (gBlock g), Hash (gBlock g), ref) \<and>
    (\<forall>i. store_isIncluded B i s' = Inr (i \<in> included_ids ws \<or> i \<in> dBlock ` set (gDeps g)))"
proof -
  obtain s' where s': "store_setOwnBlock B P block ref g s = Inr s'" "stored c enc (ws @ [WriteOwn block ref g]) s'"
    using stored_write [OF assms, of "WriteOwn block ref g"] by auto
  with own_block_stored [OF assms(1,2) s'(2)] isIncluded_stored [OF assms(1) s'(2)] show ?thesis by simp
qed

theorem own_block_readable_witness:
  "badger_ok memdb map_of map_of \<and> signed_codec mem_proto mem_enc \<and> stored map_of mem_enc [] mem_empty \<and>
   (\<exists>s'. store_setOwnBlock memdb mem_proto \<lparr>Data = [7], Signature = [8]\<rparr> \<lparr>Data = [9], Signature = [8]\<rparr>
       \<lparr>gBlock = \<lparr>Hash = [5], Node = 1, Round = 1\<rparr>, gDeps = [], gPrev = zeroID\<rparr> mem_empty = Inr s' \<and>
     store_getOwnBlock memdb mem_proto 1 s' = Inr \<lparr>Data = [7], Signature = [8]\<rparr>)"
  using own_block_readable [OF memdb_ok mem_codec mem_stored, of mem_proto "\<lparr>Data = [7], Signature = [8]\<rparr>"
      "\<lparr>Data = [9], Signature = [8]\<rparr>" "\<lparr>gBlock = \<lparr>Hash = [5], Node = 1, Round = 1\<rparr>, gDeps = [], gPrev = zeroID\<rparr>"]
    memdb_ok mem_codec mem_stored by auto

text \<open>C18. Recovery after a restart: \<open>getNotIncluded\<close> returns each block that was received and that no own block
  refers to yet exactly once, and no other block, whatever was written to the store before, as long
  as blocks were written under the ids their content gives.\<close>

theorem not_included_recovered:
  assumes "badger_ok B c tc" and "signed_codec P enc" and "stored c enc [] s"
    and "list_all (write_named P sha) ws"
  shows "\<exists>s' bds. foldE (apply_write B P) ws s = Inr s' \<and> store_getNotIncluded B P sha s' = Inr bds \<and>
    distinct (map bd_id bds) \<and> bd_id ` set bds = received_ids ws - included_ids ws"
proof -
  obtain s' where s': "foldE (apply_write B P) ws s = Inr s'" "stored c enc ws s'"
    using stored_writes [OF assms(1-3), of ws] by auto
  with notIncluded_stored [OF assms(1,2) s'(2) assms(4)] show ?thesis by blast
qed

abbreviation sample_block :: Block where
  "sample_block \<equiv> \<lparr>bNode = 2, Previous = None, References = [], bRound = 1, bTransactions = None\<rparr>"

abbreviation sample_proto :: proto where
  "sample_proto \<equiv> mem_proto\<lparr>uBlock := (\<lambda>_. Inr sample_block)\<rparr>"

abbreviation sample_received :: store_write where
  "sample_received \<equiv> WriteBlock \<lparr>Hash = [4], Node = 2, Round = 1\<rparr> \<lparr>Data = [4], Signature = []\<rparr>"

lemma sample_named: "list_all (write_named sample_proto id) [sample_received]"
  by (simp add: getBlockData_def mem_proto_def Let_def)

theorem not_included_recovered_witness:
  "badger_ok memdb map_of map_of \<and> signed_codec sample_proto mem_enc \<and> stored map_of mem_enc [] mem_empty \<and>
   list_all (write_named sample_proto id) [sample_received] \<and>
   (\<exists>s' bds. foldE (apply_write memdb sample_proto) [sample_received] mem_empty = Inr s' \<and>
     store_getNotIncluded memdb sample_proto id s' = Inr bds \<and> bd_id ` set bds = {\<lparr>Hash = [4], Node = 2, Round = 1\<rparr>})"
proof -
  have c: "signed_codec sample_proto mem_enc" by (rule mem_codec) simp_all
  have "received_ids [sample_received] - included_ids [sample_received] = {\<lparr>Hash = [4], Node = 2, Round = 1\<rparr>}"
    by (auto simp: received_ids_def included_ids_def own_graphs_def)
  with not_included_recovered [OF memdb_ok c mem_stored sample_named] memdb_ok c mem_stored sample_named
  show ?thesis by auto
qed

text \<open>C19. \<open>getBlockGraphs\<close> returns the graphs of the own blocks from the given round on, decoded as they were
  written and in the order of their rounds, up to the limit.\<close>

theorem block_graphs_readable:
  assumes "badger_ok B c tc" and "signed_codec P enc" and "stored c enc [] s" and "0 < limit"
    and "\<forall>g\<in>set (own_graphs ws). Node (gBlock g) = self \<and> graph_fits g"
    and "sorted_wrt (<) (map (\<lambda>g. Round (gBlock g)) (own_graphs ws))"
  shows "\<exists>s'. foldE (apply_write B P) ws s = Inr s' \<and>
    store_getBlockGraphs B self from limit s' =
      Inr (take (nat limit) (filter (\<lambda>g. from \<le> Round (gBlock g)) (own_graphs ws)))"
proof -
  obtain s' where s': "foldE (apply_write B P) ws s = Inr s'" "stored c enc ws s'"
    using stored_writes [OF assms(1-3), of ws] by auto
  with block_graphs_stored [OF assms(1) s'(2) assms(4-6)] show ?thesis by blast
qed

lemma sample_own_fits:
  "\<forall>g\<in>set (own_graphs [sample_received, sample_own]). Node (gBlock g) = 1 \<and> graph_fits g"
  "sorted_wrt (<) (map (\<lambda>g. Round (gBlock g)) (own_graphs [sample_received, sample_own]))"
  by (simp_all add: own_graphs_def graph_fits_def prev_fits_def Valid_def)

theorem block_graphs_readable_witness:
  "badger_ok memdb map_of map_of \<and> signed_codec mem_proto mem_enc \<and> stored map_of mem_enc [] mem_empty \<and>
   (\<exists>s'. foldE (apply_write memdb mem_proto) [sample_received, sample_own] mem_empty = Inr s' \<and>
     store_getBlockGraphs memdb 1 0 100 s' =
       Inr [\<lparr>gBlock = \<lparr>Hash = [5], Node = 1, Round = 1\<rparr>, gDeps = [], gPrev = zeroID\<rparr>])"
proof -
  have c: "signed_codec mem_proto mem_enc" by (rule mem_codec) simp_all
  from block_graphs_readable [OF memdb_ok c mem_stored _ sample_own_fits, of 100 0] memdb_ok c mem_stored
  show ?thesis by (simp add: own_graphs_def)
qed

text \<open>C20. \<open>getMissing\<close> returns rounds after \<open>since\<close> that have no stored block of the node although a later
  round has one, in ascending order. It returns all of them up to \<open>limit + 1\<close> of them, one more than
  the limit says; if there are no more than the limit, the second result is at least the latest
  stored round.\<close>

theorem missing_rounds_found:
  assumes "badger_ok B c tc" and "signed_codec P enc" and "stored c enc [] s"
    and "since < -1" and "0 \<le> limit" and "-1 \<notin> stored_rounds enc ws n since"
  shows "\<exists>s' rs l. foldE (apply_write B P) ws s = Inr s' \<and> store_getMissing B n since limit s' = Inr (rs, l) \<and>
    sorted_wrt (<) rs \<and> set rs \<subseteq> gap_rounds since (stored_rounds enc ws n since) \<and>
    int (length rs) = min (int (card (gap_rounds since (stored_rounds enc ws n since)))) (limit + 1) \<and>
    (int (length rs) \<le> limit \<longrightarrow> (\<forall>r\<in>stored_rounds enc ws n since. r \<le> l))"
proof -
  obtain s' where s': "foldE (apply_write B P) ws s = Inr s'" "stored c enc ws s'"
    using stored_writes [OF assms(1-3), of ws] by auto
  with missing_stored [OF assms(1) s'(2) assms(4-6)] show ?thesis by blast
qed

text \<open>A block of round 3, and none of the rounds 1 and 2.\<close>

abbreviation sample_late :: store_write where
  "sample_late \<equiv> WriteBlock \<lparr>Hash = [4], Node = 2, Round = 3\<rparr> \<lparr>Data = [4], Signature = []\<rparr>"

lemma sample_stored_rounds: "stored_rounds enc [sample_late] 2 0 = {3}"
proof -
  have "content enc [sample_late] = updated enc sample_late Map.empty" by (simp add: content_def)
  then have "content enc [sample_late] (blockKey i) \<noteq> None \<longleftrightarrow> i = \<lparr>Hash = [4], Node = 2, Round = 3\<rparr>" for i
    by (simp add: key_layout updated_block)
  then show ?thesis by (auto simp: stored_rounds_def)
qed

lemma sample_gap_rounds: "gap_rounds 0 {3} = {1, 2}"
proof -
  have "[Suc 0..<3] = [1, 2]" by (simp add: numeral_3_eq_3 numeral_2_eq_2)
  then have "rounds_between 0 3 = [1, 2]" by (simp add: rounds_between_def)
  then have "{r. (0 :: u64) < r \<and> r < 3} = {1, 2}" using set_rounds_between [of 0 3] by simp
  moreover have "gap_rounds 0 {3} = {r. 0 < r \<and> r < 3}" by (auto simp: gap_rounds_def)
  ultimately show ?thesis by (simp only:)
qed

theorem missing_rounds_found_witness:
  "badger_ok memdb map_of map_of \<and> signed_codec mem_proto mem_enc \<and> stored map_of mem_enc [] mem_empty \<and>
   (0 :: u64) < -1 \<and> -1 \<notin> stored_rounds mem_enc [sample_late] 2 0 \<and>
   (\<exists>s' rs l. foldE (apply_write memdb mem_proto) [sample_late] mem_empty = Inr s' \<and>
     store_getMissing memdb 2 0 1 s' = Inr (rs, l) \<and> set rs \<subseteq> {1, 2} \<and> int (length rs) = 2)"
proof -
  have c: "signed_codec mem_proto mem_enc" by (rule mem_codec) simp_all
  have z: "(0 :: u64) < -1" by (simp add: word_greater_zero_iff)
  have card: "int (card {1, 2 :: u64}) = 2" by simp
  from missing_rounds_found [OF memdb_ok c mem_stored z, of 1 "[sample_late]" 2]
  obtain s' rs l where "foldE (apply_write memdb mem_proto) [sample_late] mem_empty = Inr s'"
    "store_getMissing memdb 2 0 1 s' = Inr (rs, l)" "set rs \<subseteq> {1, 2}" "int (length rs) = 2"
    unfolding sample_stored_rounds sample_gap_rounds card by auto
  moreover have "(-1 :: u64) \<notin> {3}" by simp
  ultimately show ?thesis using memdb_ok c mem_stored z unfolding sample_stored_rounds by blast
qed



text \<open>C22. The maps of received and sent rounds survive being stored: reading them back gives the same entries,
  whatever the iteration order of the Go maps.\<close>

theorem peer_maps_roundtrip:
  assumes "badger_ok B c tc" and "signed_codec P enc" and "stored c enc ws s"
    and "distinct (map fst rmap)" and "length rmap < 2 ^ 63" and "distinct (map fst smap)" and "length smap < 2 ^ 63"
  shows "\<exists>s1 s2 rm sm. store_setReceivedMap B rmap s = Inr s1 \<and> store_getReceivedMap B s1 = Inr rm \<and> map_of rm = map_of rmap \<and>
    store_setSentMap B smap s = Inr s2 \<and> store_getSentMap B s2 = Inr sm \<and> map_of sm = map_of smap"
proof -
  obtain s1 where s1: "store_setReceivedMap B rmap s = Inr s1" "stored c enc (ws @ [WriteReceived rmap]) s1"
    using stored_write [OF assms(1-3), of "WriteReceived rmap"] by auto
  obtain s2 where s2: "store_setSentMap B smap s = Inr s2" "stored c enc (ws @ [WriteSent smap]) s2"
    using stored_write [OF assms(1-3), of "WriteSent smap"] by auto
  have head: "gslice (PutUint64 n @ body) 0 8 = Inr (PutUint64 n)" for n body by (simp add: gslice_def)
  have v1: "content enc (ws @ [WriteReceived rmap]) [receivedMapPrefix] =
      Some (PutUint64 (of_nat (length rmap)) @ concat (map received_bytes rmap))"
    and v2: "content enc (ws @ [WriteSent smap]) [sentMapPrefix] =
      Some (PutUint64 (of_nat (length smap)) @ concat (map sent_bytes smap))"
    by (simp_all add: updated.simps received_bytes_def sent_bytes_def)
  have "store_getReceivedMap B s1 = Inr (fold (\<lambda>(k, v). AList.update k v) rmap [])"
    unfolding store_getReceivedMap_def View_read [OF assms(1) s1(2) list.distinct(2)] v1 option.case head bindE_Inr
      Uint_Put sint_count [OF assms(5)]
    using received_entries_spec [of "PutUint64 (of_nat (length rmap))" rmap "[]"] by (simp only: length_PutUint)
  moreover have "store_getSentMap B s2 = Inr (fold (\<lambda>(k, v). AList.update k v) smap [])"
    unfolding store_getSentMap_def View_read [OF assms(1) s2(2) list.distinct(2)] v2 option.case head bindE_Inr
      Uint_Put sint_count [OF assms(7)]
    using sent_entries_spec [of "PutUint64 (of_nat (length smap))" smap "[]"] by (simp only: length_PutUint)
  ultimately show ?thesis
    using s1(1) s2(1) fold_update_map_of [OF assms(4), of "[]"] fold_update_map_of [OF assms(6), of "[]"] by simp
qed

theorem peer_maps_roundtrip_witness:
  "badger_ok memdb map_of map_of \<and> signed_codec mem_proto mem_enc \<and> stored map_of mem_enc [] mem_empty \<and>
   (\<exists>s1 s2 rm sm. store_setReceivedMap memdb [(2, \<lparr>ri_latest = 7, ri_sequence = 5\<rparr>)] mem_empty = Inr s1 \<and>
     store_getReceivedMap memdb s1 = Inr rm \<and> map_of rm = [2 \<mapsto> \<lparr>ri_latest = 7, ri_sequence = 5\<rparr>] \<and>
     store_setSentMap memdb [(2, 4), (3, 6)] mem_empty = Inr s2 \<and> store_getSentMap memdb s2 = Inr sm \<and> map_of sm = [2 \<mapsto> 4, 3 \<mapsto> 6])"
proof -
  have c: "signed_codec mem_proto mem_enc" by (rule mem_codec) simp_all
  from peer_maps_roundtrip [OF memdb_ok c mem_stored, of "[(2, \<lparr>ri_latest = 7, ri_sequence = 5\<rparr>)]" "[(2, 4), (3, 6)]"] memdb_ok c mem_stored
  show ?thesis by (simp add: fun_upd_twist)
qed

end
