(* ===== verification/DepgraphInv.thy ===== *)
theory DepgraphInv
  imports Depgraph
begin

text \<open>
  The dependency graph delivers causally. The set of included blocks is the content of the store and
  of the temporary cache; the included cache only repeats it. Every block is queued once, after the
  blocks it needs, and no block waits for blocks that are all included. The loop of \<open>process\<close> returns,
  and never reads a missing entry of \<open>pending\<close>.
\<close>

section \<open>What the operations compute\<close>

text \<open>A store whose reads succeed and answer \<open>lk\<close>.\<close>

abbreviation reads :: "(BlockID \<Rightarrow> bool) \<Rightarrow> lookup" where
  "reads lk \<equiv> \<lambda>i. Inr (lk i)"

definition incl :: "(BlockID \<Rightarrow> bool) \<Rightarrow> depgraph \<Rightarrow> BlockID \<Rightarrow> bool" where
  "incl lk d x \<longleftrightarrow> map_of (dg_tcache d) x = Some True \<or> lk x"

definition coherent :: "(BlockID \<Rightarrow> bool) \<Rightarrow> depgraph \<Rightarrow> bool" where
  "coherent lk d \<longleftrightarrow> (\<forall>x. map_of (dg_tcache d) x \<noteq> Some False) \<and>
     (\<forall>x b. map_of (dg_icache d) x = Some b \<longrightarrow> b = incl lk d x)"

text \<open>The blocks that must be included before a block.\<close>

definition needs :: "u64 \<Rightarrow> blockData \<Rightarrow> BlockID list" where
  "needs self b = (if Valid (bd_prev b) then [bd_prev b] else []) @ filter (\<lambda>x. Node x \<noteq> self) (bd_deps b)"

definition missing :: "(BlockID \<Rightarrow> bool) \<Rightarrow> blockData \<Rightarrow> depgraph \<Rightarrow> BlockID list" where
  "missing lk b d = filter (\<lambda>x. \<not> incl lk d x) (needs (dg_self d) b)"

definition queue_block :: "blockData \<Rightarrow> depgraph \<Rightarrow> depgraph" where
  "queue_block b d = (let d' = markIncluded (bd_id b) d in d'\<lparr>dg_blocks := dg_blocks d' @ [b]\<rparr>)"

lemma incl_icache [simp]: "incl lk (d\<lparr>dg_icache := c\<rparr>) = incl lk d"
  by (simp add: incl_def fun_eq_iff)

lemma isIncluded_spec:
  assumes "coherent lk d"
  shows "\<exists>c. isIncluded (reads lk) x d = Inr (incl lk d x, d\<lparr>dg_icache := c\<rparr>) \<and> coherent lk (d\<lparr>dg_icache := c\<rparr>)"
proof (cases "map_of (dg_tcache d) x")
  case (Some b)
  with assms have b by (cases b) (auto simp: coherent_def)
  with Some assms show ?thesis by (intro exI [of _ "dg_icache d"]) (simp add: isIncluded_def incl_def)
next
  case tc: None
  show ?thesis
  proof (cases "map_of (dg_icache d) x")
    case (Some b)
    with assms have "b = incl lk d x" by (simp add: coherent_def)
    with Some tc assms show ?thesis by (intro exI [of _ "dg_icache d"]) (simp add: isIncluded_def)
  next
    case None
    have "lk x = incl lk d x" using tc by (simp add: incl_def)
    with None tc assms show ?thesis
      by (intro exI [of _ "AList.update x (lk x) (dg_icache d)"]) (auto simp: isIncluded_def coherent_def split: if_splits)
  qed
qed

text \<open>Ids that can be printed, and sets of blocks whose ids tell them apart and can be printed.\<close>

definition printable :: "BlockID \<Rightarrow> bool" where
  "printable i \<longleftrightarrow> Hash i = [] \<or> 12 \<le> length (Hash i)"

definition blocks_ok :: "blockData set \<Rightarrow> bool" where
  "blocks_ok A \<longleftrightarrow> inj_on bd_id A \<and> (\<forall>b\<in>A. \<forall>x\<in>set (bd_id b # bd_prev b # bd_deps b). printable x)"

lemma blocks_okD:
  assumes "blocks_ok A"
  shows "a \<in> A \<Longrightarrow> b \<in> A \<Longrightarrow> bd_id a = bd_id b \<Longrightarrow> a = b"
    and "b \<in> A \<Longrightarrow> printable (bd_id b)" and "b \<in> A \<Longrightarrow> printable (bd_prev b)"
    and "b \<in> A \<Longrightarrow> x \<in> set (bd_deps b) \<Longrightarrow> printable x"
  using assms by (auto simp: blocks_ok_def dest: inj_onD)

lemma log_missing_ok: "printable i \<Longrightarrow> printable x \<Longrightarrow> log_missing i x = Inr ()"
  by (auto simp: log_missing_def printable_def BlockID_String_def Let_def)

lemma missing_deps_spec:
  "coherent lk d \<Longrightarrow> printable i \<Longrightarrow> \<forall>x\<in>set ds. printable x \<Longrightarrow> \<exists>c. missing_deps (reads lk) i ds d acc =
     Inr (acc @ filter (\<lambda>x. Node x \<noteq> dg_self d \<and> \<not> incl lk d x) ds, d\<lparr>dg_icache := c\<rparr>) \<and> coherent lk (d\<lparr>dg_icache := c\<rparr>)"
proof (induction ds arbitrary: d acc)
  case Nil
  then show ?case by (intro exI [of _ "dg_icache d"]) simp
next
  case (Cons dep ds)
  show ?case
  proof (cases "Node dep = dg_self d")
    case True
    with Cons show ?thesis by simp
  next
    case False
    obtain c where c: "isIncluded (reads lk) dep d = Inr (incl lk d dep, d\<lparr>dg_icache := c\<rparr>)"
        "coherent lk (d\<lparr>dg_icache := c\<rparr>)" using isIncluded_spec [OF Cons.prems(1)] by blast
    from Cons.IH [OF c(2), of "if incl lk d dep then acc else acc @ [dep]"] False c(1) Cons.prems
    show ?thesis by (auto simp: log_missing_ok)
  qed
qed

lemma processBlock_spec:
  assumes "coherent lk d" and pr: "printable (bd_id b)" "printable (bd_prev b)" "\<forall>x\<in>set (bd_deps b). printable x"
  shows "\<exists>c. coherent lk (d\<lparr>dg_icache := c\<rparr>) \<and> processBlock (reads lk) b d = Inr
    (if incl lk d (bd_id b) then (True, d\<lparr>dg_icache := c\<rparr>)
     else if missing lk b d \<noteq> [] then (False, addPending b (missing lk b d) (d\<lparr>dg_icache := c\<rparr>))
     else (True, queue_block b (d\<lparr>dg_icache := c\<rparr>)))"
proof -
  obtain c1 where c1: "isIncluded (reads lk) (bd_id b) d = Inr (incl lk d (bd_id b), d\<lparr>dg_icache := c1\<rparr>)"
      "coherent lk (d\<lparr>dg_icache := c1\<rparr>)" using isIncluded_spec [OF assms(1)] by blast
  from isIncluded_spec [OF c1(2), of "bd_prev b"]
  obtain c2 where c2: "isIncluded (reads lk) (bd_prev b) (d\<lparr>dg_icache := c1\<rparr>) = Inr (incl lk d (bd_prev b), d\<lparr>dg_icache := c2\<rparr>)"
      "coherent lk (d\<lparr>dg_icache := c2\<rparr>)" by auto
  define c where "c = (if Valid (bd_prev b) then c2 else c1)"
  have c: "coherent lk (d\<lparr>dg_icache := c\<rparr>)" using c1 c2 by (simp add: c_def)
  define m0 where "m0 = (if Valid (bd_prev b) \<and> \<not> incl lk d (bd_prev b) then [bd_prev b] else [])"
  have m: "missing lk b d = m0 @ filter (\<lambda>x. Node x \<noteq> dg_self d \<and> \<not> incl lk d x) (bd_deps b)"
    by (simp add: missing_def needs_def m0_def)
  from missing_deps_spec [OF c pr(1,3), of m0]
  obtain c3 where c3: "missing_deps (reads lk) (bd_id b) (bd_deps b) (d\<lparr>dg_icache := c\<rparr>) m0 =
      Inr (missing lk b d, d\<lparr>dg_icache := c3\<rparr>)" "coherent lk (d\<lparr>dg_icache := c3\<rparr>)"
    unfolding m by auto
  have first: "(if Valid (bd_prev b) then bindE (isIncluded (reads lk) (bd_prev b) (d\<lparr>dg_icache := c1\<rparr>))
        (\<lambda>(inc, d2). if inc then Inr ([], d2)
          else bindE (log_missing (bd_id b) (bd_prev b)) (\<lambda>_. Inr ([bd_prev b], d2))) else Inr ([], d\<lparr>dg_icache := c1\<rparr>)) =
      (Inr (m0, d\<lparr>dg_icache := c\<rparr>) :: (BlockID list \<times> depgraph) res)"
    using c2(1) pr(1,2) by (simp add: m0_def c_def log_missing_ok)
  have "processBlock (reads lk) b d = (if incl lk d (bd_id b) then Inr (True, d\<lparr>dg_icache := c1\<rparr>)
      else if missing lk b d \<noteq> [] then Inr (False, addPending b (missing lk b d) (d\<lparr>dg_icache := c3\<rparr>))
      else Inr (True, queue_block b (d\<lparr>dg_icache := c3\<rparr>)))"
    using c1(1) c3(1) by (simp add: processBlock_def first queue_block_def Let_def)
  with c1(2) c3(2) show ?thesis by (intro exI [of _ "if incl lk d (bd_id b) then c1 else c3"]) auto
qed

section \<open>Effects on the waiting blocks\<close>

lemma await_add_same: "await_list (await_add i dep d) dep =
    (if i \<in> set (await_list d dep) then await_list d dep else await_list d dep @ [i])"
  by (cases "map_of (dg_await d) dep") (simp_all add: await_add_def await_list_def)

lemma await_add_other: "x \<noteq> dep \<Longrightarrow> await_list (await_add i dep d) x = await_list d x"
  by (cases "map_of (dg_await d) dep") (simp_all add: await_add_def await_list_def)

lemma await_add_set: "set (await_list (await_add i dep d) x) =
    (if x = dep then insert i (set (await_list d x)) else set (await_list d x))"
  using await_add_same [of i dep d] await_add_other [of x dep i d]
  by (cases "x = dep") (simp_all add: insert_absorb)

lemma await_add_frame [simp]:
  "dg_pending (await_add i dep d) = dg_pending d" "dg_tcache (await_add i dep d) = dg_tcache d"
  "dg_icache (await_add i dep d) = dg_icache d" "dg_self (await_add i dep d) = dg_self d"
  "dg_blocks (await_add i dep d) = dg_blocks d" "dg_in (await_add i dep d) = dg_in d"
  by (auto simp: await_add_def split: option.splits)

lemma fold_await_add:
  "set (await_list (fold (await_add i) deps d) x) =
     (if x \<in> set deps then insert i (set (await_list d x)) else set (await_list d x))"
  by (induction deps arbitrary: d) (simp_all add: await_add_set insert_absorb)

lemma fold_await_add_frame [simp]:
  "dg_pending (fold (await_add i) deps d) = dg_pending d" "dg_tcache (fold (await_add i) deps d) = dg_tcache d"
  "dg_icache (fold (await_add i) deps d) = dg_icache d" "dg_self (fold (await_add i) deps d) = dg_self d"
  "dg_blocks (fold (await_add i) deps d) = dg_blocks d" "dg_in (fold (await_add i) deps d) = dg_in d"
  by (induction deps arbitrary: d; simp)+

lemma addPending_await:
  "set (await_list (addPending b deps d) x) =
     (if x \<in> set deps then insert (bd_id b) (set (await_list d x)) else set (await_list d x))"
proof -
  have "await_list (d\<lparr>dg_pending := p\<rparr>) = await_list d" for p by (simp add: await_list_def [abs_def])
  then show ?thesis by (simp only: addPending_def fold_await_add)
qed

lemma addPending_frame [simp]:
  "map_of (dg_pending (addPending b deps d)) k = (if k = bd_id b then Some b else map_of (dg_pending d) k)"
  "dg_tcache (addPending b deps d) = dg_tcache d" "dg_icache (addPending b deps d) = dg_icache d"
  "dg_self (addPending b deps d) = dg_self d" "dg_blocks (addPending b deps d) = dg_blocks d"
  "dg_in (addPending b deps d) = dg_in d"
  by (simp_all add: addPending_def)

lemma queue_block_frame [simp]:
  "dg_pending (queue_block b d) = dg_pending d" "await_list (queue_block b d) = await_list d"
  "dg_self (queue_block b d) = dg_self d" "dg_blocks (queue_block b d) = dg_blocks d @ [b]" "dg_in (queue_block b d) = dg_in d"
  by (simp_all add: queue_block_def markIncluded_def await_list_def [abs_def] Let_def)

lemma incl_queue_block [simp]: "incl lk (queue_block b d) x \<longleftrightarrow> x = bd_id b \<or> incl lk d x"
  by (auto simp: incl_def queue_block_def markIncluded_def Let_def)

lemma incl_addPending [simp]: "incl lk (addPending b deps d) = incl lk d"
  by (simp add: incl_def fun_eq_iff)

lemma coherent_queue_block: "coherent lk d \<Longrightarrow> coherent lk (queue_block b d)"
  by (auto simp: coherent_def incl_def queue_block_def markIncluded_def Let_def split: if_splits)

lemma coherent_addPending: "coherent lk d \<Longrightarrow> coherent lk (addPending b deps d)"
  by (simp add: coherent_def)

lemma await_icache [simp]: "await_list (d\<lparr>dg_icache := c\<rparr>) = await_list d"
  by (simp add: await_list_def fun_eq_iff)

section \<open>The invariant\<close>

text \<open>
  \<open>lk0\<close> is the content of the store at the start, \<open>A\<close> the set of received blocks and \<open>taken\<close> the list
  of the blocks \<open>getBlocks\<close> returned so far, so that \<open>taken @ dg_blocks d\<close> is the list of all queued
  blocks. \<open>Q\<close> is the list \<open>processed\<close> of the loop.
\<close>

definition causal :: "(BlockID \<Rightarrow> bool) \<Rightarrow> u64 \<Rightarrow> blockData list \<Rightarrow> bool" where
  "causal lk0 self hist \<longleftrightarrow> distinct (map bd_id hist) \<and>
     (\<forall>i<length hist. \<not> lk0 (bd_id (hist ! i)) \<and>
        (\<forall>x\<in>set (needs self (hist ! i)). lk0 x \<or> x \<in> bd_id ` set (take i hist)))"

definition history_ok :: "(BlockID \<Rightarrow> bool) \<Rightarrow> blockData set \<Rightarrow> blockData list \<Rightarrow> (BlockID \<Rightarrow> bool) \<Rightarrow> depgraph \<Rightarrow> bool" where
  "history_ok lk0 A taken lk d \<longleftrightarrow> coherent lk d \<and> causal lk0 (dg_self d) (taken @ dg_blocks d) \<and>
     set (taken @ dg_blocks d) \<subseteq> A \<and> (\<forall>x. incl lk d x \<longleftrightarrow> lk0 x \<or> x \<in> bd_id ` set (taken @ dg_blocks d))"

definition waiting_ok :: "blockData set \<Rightarrow> (BlockID \<Rightarrow> bool) \<Rightarrow> BlockID list \<Rightarrow> depgraph \<Rightarrow> bool" where
  "waiting_ok A lk Q d \<longleftrightarrow>
     (\<forall>k b. map_of (dg_pending d) k = Some b \<longrightarrow> bd_id b = k \<and> b \<in> A) \<and>
     (\<forall>x r. r \<in> set (await_list d x) \<longrightarrow> (\<exists>b. map_of (dg_pending d) r = Some b \<and> x \<in> set (needs (dg_self d) b))) \<and>
     (\<forall>k b x. map_of (dg_pending d) k = Some b \<and> \<not> incl lk d k \<and> x \<in> set (missing lk b d) \<longrightarrow> k \<in> set (await_list d x)) \<and>
     (\<forall>x. incl lk d x \<and> await_list d x \<noteq> [] \<longrightarrow> x \<in> set Q) \<and>
     (\<forall>k. map_of (dg_pending d) k \<noteq> None \<and> incl lk d k \<longrightarrow> k \<in> set Q) \<and>
     (\<forall>q\<in>set Q. incl lk d q) \<and>
     (\<forall>i<length Q. \<forall>x. Q ! i \<in> set (await_list d x) \<longrightarrow> x \<in> set (take i Q)) \<and>
     (\<forall>k b. map_of (dg_pending d) k = Some b \<and> \<not> incl lk d k \<and> missing lk b d = [] \<longrightarrow>
        (\<exists>x\<in>set Q. k \<in> set (await_list d x)))"

lemma waitingD:
  assumes "waiting_ok A lk Q d"
  shows "map_of (dg_pending d) k = Some b \<Longrightarrow> bd_id b = k \<and> b \<in> A"
    and "r \<in> set (await_list d x) \<Longrightarrow> \<exists>b. map_of (dg_pending d) r = Some b \<and> x \<in> set (needs (dg_self d) b)"
    and "map_of (dg_pending d) k = Some b \<Longrightarrow> \<not> incl lk d k \<Longrightarrow> x \<in> set (missing lk b d) \<Longrightarrow> k \<in> set (await_list d x)"
    and "incl lk d x \<Longrightarrow> await_list d x \<noteq> [] \<Longrightarrow> x \<in> set Q"
    and "map_of (dg_pending d) k = Some b \<Longrightarrow> incl lk d k \<Longrightarrow> k \<in> set Q"
    and "q \<in> set Q \<Longrightarrow> incl lk d q"
    and "i < length Q \<Longrightarrow> Q ! i \<in> set (await_list d x) \<Longrightarrow> x \<in> set (take i Q)"
    and "map_of (dg_pending d) k = Some b \<Longrightarrow> \<not> incl lk d k \<Longrightarrow> missing lk b d = [] \<Longrightarrow> \<exists>x\<in>set Q. k \<in> set (await_list d x)"
proof -
  show "map_of (dg_pending d) k = Some b \<Longrightarrow> bd_id b = k \<and> b \<in> A"
    using assms unfolding waiting_ok_def by blast
  show "r \<in> set (await_list d x) \<Longrightarrow> \<exists>b. map_of (dg_pending d) r = Some b \<and> x \<in> set (needs (dg_self d) b)"
    using assms unfolding waiting_ok_def by blast
  show "map_of (dg_pending d) k = Some b \<Longrightarrow> \<not> incl lk d k \<Longrightarrow> x \<in> set (missing lk b d) \<Longrightarrow> k \<in> set (await_list d x)"
    using assms unfolding waiting_ok_def by blast
  show "incl lk d x \<Longrightarrow> await_list d x \<noteq> [] \<Longrightarrow> x \<in> set Q"
    using assms unfolding waiting_ok_def by blast
  show "map_of (dg_pending d) k = Some b \<Longrightarrow> incl lk d k \<Longrightarrow> k \<in> set Q"
    using assms unfolding waiting_ok_def by (metis option.distinct(1))
  show "q \<in> set Q \<Longrightarrow> incl lk d q"
    using assms unfolding waiting_ok_def by blast
  show "i < length Q \<Longrightarrow> Q ! i \<in> set (await_list d x) \<Longrightarrow> x \<in> set (take i Q)"
    using assms unfolding waiting_ok_def by blast
  show "map_of (dg_pending d) k = Some b \<Longrightarrow> \<not> incl lk d k \<Longrightarrow> missing lk b d = [] \<Longrightarrow> \<exists>x\<in>set Q. k \<in> set (await_list d x)"
    using assms unfolding waiting_ok_def by blast
qed

lemma missing_icache [simp]: "missing lk b (d\<lparr>dg_icache := c\<rparr>) = missing lk b d"
  by (simp add: missing_def)

lemma missing_addPending [simp]: "missing lk b (addPending b' m d) = missing lk b d"
  by (simp add: missing_def)

lemma missing_queue: "missing lk b (queue_block b' d) = filter (\<lambda>x. x \<noteq> bd_id b') (missing lk b d)"
  by (simp add: missing_def conj_commute)

lemma waiting_icache: "waiting_ok A lk Q (d\<lparr>dg_icache := c\<rparr>) = waiting_ok A lk Q d"
  by (simp add: waiting_ok_def)

lemma history_icache:
  "coherent lk (d\<lparr>dg_icache := c\<rparr>) \<Longrightarrow> history_ok lk0 A taken lk d \<Longrightarrow> history_ok lk0 A taken lk (d\<lparr>dg_icache := c\<rparr>)"
  by (simp add: history_ok_def)

lemma waiting_okI:
  assumes "\<And>k b. map_of (dg_pending d) k = Some b \<Longrightarrow> bd_id b = k \<and> b \<in> A"
    and "\<And>x r. r \<in> set (await_list d x) \<Longrightarrow> \<exists>b. map_of (dg_pending d) r = Some b \<and> x \<in> set (needs (dg_self d) b)"
    and "\<And>k b x. map_of (dg_pending d) k = Some b \<Longrightarrow> \<not> incl lk d k \<Longrightarrow> x \<in> set (missing lk b d) \<Longrightarrow> k \<in> set (await_list d x)"
    and "\<And>x. incl lk d x \<Longrightarrow> await_list d x \<noteq> [] \<Longrightarrow> x \<in> set Q"
    and "\<And>k b. map_of (dg_pending d) k = Some b \<Longrightarrow> incl lk d k \<Longrightarrow> k \<in> set Q"
    and "\<And>q. q \<in> set Q \<Longrightarrow> incl lk d q"
    and "\<And>i x. i < length Q \<Longrightarrow> Q ! i \<in> set (await_list d x) \<Longrightarrow> x \<in> set (take i Q)"
    and "\<And>k b. map_of (dg_pending d) k = Some b \<Longrightarrow> \<not> incl lk d k \<Longrightarrow> missing lk b d = [] \<Longrightarrow>
      \<exists>x\<in>set Q. k \<in> set (await_list d x)"
  shows "waiting_ok A lk Q d"
  unfolding waiting_ok_def using assms by (intro conjI allI impI ballI; blast)

text \<open>A block that is included already and waits is in the queue, and may be queued again.\<close>

lemma waiting_requeue:
  assumes w: "waiting_ok A lk Q d" and r: "map_of (dg_pending d) r = Some b" "incl lk d r"
  shows "waiting_ok A lk (Q @ [r]) d"
proof (rule waiting_okI)
  have rQ: "r \<in> set Q" using waitingD(5) [OF w] r by blast
  show "x \<in> set (take i (Q @ [r]))" if "i < length (Q @ [r])" "(Q @ [r]) ! i \<in> set (await_list d x)" for i x
  proof (cases "i < length Q")
    case True
    with that waitingD(7) [OF w True] show ?thesis by (simp add: nth_append)
  next
    case False
    with that have i: "i = length Q" "r \<in> set (await_list d x)" by (auto simp: nth_append)
    from rQ obtain j where "j < length Q" "Q ! j = r" by (auto simp: in_set_conv_nth)
    with waitingD(7) [OF w] i have "x \<in> set (take j Q)" by blast
    then show ?thesis using i by (auto dest: in_set_takeD)
  qed
  show "q \<in> set (Q @ [r]) \<Longrightarrow> incl lk d q" for q using waitingD(6) [OF w] r(2) by auto
  show "x \<in> set (Q @ [r])" if "incl lk d x" "await_list d x \<noteq> []" for x using waitingD(4) [OF w] that by simp
  show "k \<in> set (Q @ [r])" if "map_of (dg_pending d) k = Some b" "incl lk d k" for k b
    using waitingD(5) [OF w that] by simp
  show "\<exists>x\<in>set (Q @ [r]). k \<in> set (await_list d x)"
    if "map_of (dg_pending d) k = Some b" "\<not> incl lk d k" "missing lk b d = []" for k b
    using waitingD(8) [OF w that] by auto
qed (use waitingD(1-3) [OF w] in blast)+

text \<open>A block with missing dependencies starts to wait, or goes on.\<close>

lemma waiting_fail:
  assumes w: "waiting_ok A lk Q d" and b: "b \<in> A" and ni: "\<not> incl lk d (bd_id b)"
    and m: "missing lk b d \<noteq> []"
    and same: "\<And>b'. map_of (dg_pending d) (bd_id b) = Some b' \<Longrightarrow> b' = b"
  shows "waiting_ok A lk Q (addPending b (missing lk b d) d)"
proof (rule waiting_okI)
  let ?d = "addPending b (missing lk b d) d"
  have nQ: "bd_id b \<notin> set Q" using waitingD(6) [OF w] ni by blast
  show "bd_id b' = k \<and> b' \<in> A" if "map_of (dg_pending ?d) k = Some b'" for k b'
    using that waitingD(1) [OF w] b by (auto split: if_splits)
  show "\<exists>b'. map_of (dg_pending ?d) r = Some b' \<and> x \<in> set (needs (dg_self ?d) b')"
    if "r \<in> set (await_list ?d x)" for x r
  proof (cases "r = bd_id b")
    case True
    have "x \<in> set (needs (dg_self d) b)"
    proof (cases "x \<in> set (missing lk b d)")
      case False
      with that True have "bd_id b \<in> set (await_list d x)" by (simp add: addPending_await)
      with waitingD(2) [OF w this] same show ?thesis by auto
    qed (simp add: missing_def)
    with True show ?thesis by simp
  next
    case False
    with that have "r \<in> set (await_list d x)" by (simp add: addPending_await split: if_splits)
    with waitingD(2) [OF w this] False show ?thesis by simp
  qed
  show "k \<in> set (await_list ?d x)"
    if "map_of (dg_pending ?d) k = Some b'" "\<not> incl lk ?d k" "x \<in> set (missing lk b' ?d)" for k b' x
    using that waitingD(3) [OF w, of k b' x] by (cases "k = bd_id b") (auto simp: addPending_await)
  show "x \<in> set Q" if "incl lk ?d x" "await_list ?d x \<noteq> []" for x
  proof -
    have "x \<notin> set (missing lk b d)" using that(1) by (simp add: missing_def)
    then have "set (await_list ?d x) = set (await_list d x)" by (simp add: addPending_await)
    then have "await_list d x \<noteq> []" using that(2) by (metis set_empty)
    then show ?thesis using waitingD(4) [OF w, of x] that(1) by simp
  qed
  show "k \<in> set Q" if "map_of (dg_pending ?d) k = Some b'" "incl lk ?d k" for k b'
    using that waitingD(5) [OF w, of k] ni by (cases "k = bd_id b") auto
  show "incl lk ?d q" if "q \<in> set Q" for q using that waitingD(6) [OF w] by simp
  show "x \<in> set (take i Q)" if "i < length Q" "Q ! i \<in> set (await_list ?d x)" for i x
  proof -
    have "Q ! i \<noteq> bd_id b" using nQ that(1) by (metis nth_mem)
    then have "Q ! i \<in> set (await_list d x)" using that(2) by (simp add: addPending_await split: if_splits)
    then show ?thesis using waitingD(7) [OF w] that(1) by blast
  qed
  show "\<exists>x\<in>set Q. k \<in> set (await_list ?d x)"
    if "map_of (dg_pending ?d) k = Some b'" "\<not> incl lk ?d k" "missing lk b' ?d = []" for k b'
    using that waitingD(8) [OF w, of k b'] m by (cases "k = bd_id b") (auto simp: addPending_await)
qed

text \<open>A block without missing dependencies is queued.\<close>

lemma waiting_queue:
  assumes w: "waiting_ok A lk Q d" and ni: "\<not> incl lk d (bd_id b)" and m: "missing lk b d = []"
    and same: "\<And>b'. map_of (dg_pending d) (bd_id b) = Some b' \<Longrightarrow> b' = b"
  shows "waiting_ok A lk (Q @ [bd_id b]) (queue_block b d)"
proof (rule waiting_okI)
  let ?d = "queue_block b d" and ?Q = "Q @ [bd_id b]"
  show "k \<in> set (await_list ?d x)"
    if "map_of (dg_pending ?d) k = Some b'" "\<not> incl lk ?d k" "x \<in> set (missing lk b' ?d)" for k b' x
    using that waitingD(3) [OF w, of k b' x] by (simp add: missing_queue)
  show "x \<in> set (take i ?Q)" if "i < length ?Q" "?Q ! i \<in> set (await_list ?d x)" for i x
  proof (cases "i < length Q")
    case True
    with that waitingD(7) [OF w True] show ?thesis by (simp add: nth_append)
  next
    case False
    with that have i: "i = length Q" "bd_id b \<in> set (await_list d x)" by (auto simp: nth_append)
    from waitingD(2) [OF w i(2)] same have "x \<in> set (needs (dg_self d) b)" by auto
    with m have "incl lk d x" by (auto simp: missing_def filter_empty_conv)
    moreover have "await_list d x \<noteq> []" using i(2) by auto
    ultimately show ?thesis using waitingD(4) [OF w] i(1) by simp
  qed
  show "\<exists>x\<in>set ?Q. k \<in> set (await_list ?d x)"
    if k: "map_of (dg_pending ?d) k = Some b'" "\<not> incl lk ?d k" "missing lk b' ?d = []" for k b'
  proof (cases "missing lk b' d = []")
    case True
    with k waitingD(8) [OF w, of k b'] show ?thesis by auto
  next
    case False
    then obtain y where y: "y \<in> set (missing lk b' d)" by (cases "missing lk b' d") auto
    with k(3) have "y = bd_id b" by (auto simp: missing_queue filter_empty_conv)
    with waitingD(3) [OF w, of k b' y] k y show ?thesis by auto
  qed
  show "q \<in> set ?Q \<Longrightarrow> incl lk ?d q" for q using waitingD(6) [OF w] by auto
  show "x \<in> set ?Q" if "incl lk ?d x" "await_list ?d x \<noteq> []" for x using waitingD(4) [OF w] that by auto
  show "k \<in> set ?Q" if "map_of (dg_pending ?d) k = Some b'" "incl lk ?d k" for k b'
    using waitingD(5) [OF w, of k b'] that by auto
qed (use waitingD(1,2) [OF w] in simp_all)

lemma causal_snoc:
  "causal lk0 self hist \<Longrightarrow> \<not> lk0 (bd_id b) \<Longrightarrow> bd_id b \<notin> bd_id ` set hist \<Longrightarrow>
   \<forall>x\<in>set (needs self b). lk0 x \<or> x \<in> bd_id ` set hist \<Longrightarrow> causal lk0 self (hist @ [b])"
  by (auto simp: causal_def nth_append less_Suc_eq)

lemma history_queue:
  assumes h: "history_ok lk0 A taken lk d" and "b \<in> A" and ni: "\<not> incl lk d (bd_id b)" and m: "missing lk b d = []"
  shows "history_ok lk0 A taken lk (queue_block b d)"
proof -
  let ?hist = "taken @ dg_blocks d"
  have i: "incl lk d x \<longleftrightarrow> lk0 x \<or> x \<in> bd_id ` set ?hist" for x using h by (simp add: history_ok_def)
  have "\<forall>x\<in>set (needs (dg_self d) b). incl lk d x" using m by (auto simp: missing_def filter_empty_conv)
  then have "causal lk0 (dg_self d) (?hist @ [b])"
    using h ni causal_snoc [of lk0 "dg_self d" ?hist b] by (simp add: history_ok_def i)
  then show ?thesis
    using h assms(2) coherent_queue_block [of lk d b] by (auto simp: history_ok_def i)
qed

lemma history_pending: "history_ok lk0 A taken lk d \<Longrightarrow> history_ok lk0 A taken lk (addPending b m d)"
  by (simp add: history_ok_def coherent_addPending)

text \<open>The end of a visit: the list of the blocks that wait for the head is dropped.\<close>

lemma finish_visit_frame [simp]:
  "incl lk (finish_visit f n d) = incl lk d" "dg_self (finish_visit f n d) = dg_self d"
  "missing lk b (finish_visit f n d) = missing lk b d" "dg_blocks (finish_visit f n d) = dg_blocks d"
  "dg_in (finish_visit f n d) = dg_in d"
  by (simp_all add: finish_visit_def Let_def incl_def [abs_def] missing_def)

lemma finish_visit_await: "await_list (finish_visit f n d) x = (if x = n then [] else await_list d x)"
  by (simp add: finish_visit_def Let_def await_list_def)

lemma finish_visit_pending:
  "map_of (dg_pending (finish_visit f n d)) k = (if \<not> f \<and> k = n then None else map_of (dg_pending d) k)"
  by (simp add: finish_visit_def Let_def)

lemma coherent_finish: "coherent lk (finish_visit f n d) = coherent lk d"
proof -
  have "dg_tcache (finish_visit f n d) = dg_tcache d" "dg_icache (finish_visit f n d) = dg_icache d"
    by (simp_all add: finish_visit_def Let_def)
  then show ?thesis by (simp add: coherent_def)
qed

lemma history_finish: "history_ok lk0 A taken lk d \<Longrightarrow> history_ok lk0 A taken lk (finish_visit f n d)"
  using coherent_finish [of lk f n d] by (simp add: history_ok_def)

lemma waiting_finish:
  assumes w: "waiting_ok A lk (n # Q) d" and f: "f \<Longrightarrow> map_of (dg_pending d) n = None"
    and dealt: "\<And>k b. k \<in> set (await_list d n) \<Longrightarrow> map_of (dg_pending d) k = Some b \<Longrightarrow> \<not> incl lk d k \<Longrightarrow>
      missing lk b d = [] \<Longrightarrow> \<exists>x\<in>set Q. x \<noteq> n \<and> k \<in> set (await_list d x)"
  shows "waiting_ok A lk Q (finish_visit f n d)"
proof (rule waiting_okI)
  let ?d = "finish_visit f n d"
  have n: "incl lk d n" using waitingD(6) [OF w] by simp
  have none: "n \<notin> set (await_list d x)" for x using waitingD(7) [OF w, of 0 x] by auto
  note simps = finish_visit_await finish_visit_pending
  show "bd_id b = k \<and> b \<in> A" if "map_of (dg_pending ?d) k = Some b" for k b
    using that waitingD(1) [OF w, of k b] by (simp add: simps split: if_splits)
  show "\<exists>b. map_of (dg_pending ?d) r = Some b \<and> x \<in> set (needs (dg_self ?d) b)"
    if "r \<in> set (await_list ?d x)" for x r
  proof -
    have r: "r \<in> set (await_list d x)" using that by (simp add: simps split: if_splits)
    then have "r \<noteq> n" using none by blast
    with waitingD(2) [OF w r] show ?thesis by (simp add: simps)
  qed
  show "k \<in> set (await_list ?d x)"
    if "map_of (dg_pending ?d) k = Some b" "\<not> incl lk ?d k" "x \<in> set (missing lk b ?d)" for k b x
  proof -
    have "x \<noteq> n" using that(3) n by (auto simp: missing_def)
    with that waitingD(3) [OF w, of k b x] show ?thesis by (simp add: simps split: if_splits)
  qed
  show "x \<in> set Q" if "incl lk ?d x" "await_list ?d x \<noteq> []" for x
    using that waitingD(4) [OF w, of x] by (simp add: simps split: if_splits)
  show "k \<in> set Q" if "map_of (dg_pending ?d) k = Some b" "incl lk ?d k" for k b
    using that waitingD(5) [OF w, of k b] f by (cases "k = n") (auto simp: simps split: if_splits)
  show "incl lk ?d q" if "q \<in> set Q" for q using that waitingD(6) [OF w] by simp
  show "x \<in> set (take i Q)" if "i < length Q" "Q ! i \<in> set (await_list ?d x)" for i x
    using that waitingD(7) [OF w, of "Suc i" x] by (simp add: simps split: if_splits)
  show "\<exists>x\<in>set Q. k \<in> set (await_list ?d x)"
    if "map_of (dg_pending ?d) k = Some b" "\<not> incl lk ?d k" "missing lk b ?d = []" for k b
  proof -
    have k: "map_of (dg_pending d) k = Some b" "\<not> incl lk d k" "missing lk b d = []"
      using that by (simp_all add: simps split: if_splits)
    from waitingD(8) [OF w this] obtain x where x: "x \<in> set (n # Q)" "k \<in> set (await_list d x)" by blast
    show ?thesis
    proof (cases "x = n")
      case True
      with dealt [OF _ k] x show ?thesis by (auto simp: simps)
    next
      case False
      with x show ?thesis by (intro bexI [of _ x]) (auto simp: simps)
    qed
  qed
qed

section \<open>The loops return and keep the invariant\<close>

lemma addPending_await_other: "x \<notin> set deps \<Longrightarrow> await_list (addPending b deps d) x = await_list d x"
proof -
  have "x \<notin> set deps \<Longrightarrow> await_list (fold (await_add i) deps d) x = await_list d x" for i d
    by (induction deps arbitrary: d) (simp_all add: await_add_other)
  moreover have "await_list (d\<lparr>dg_pending := p\<rparr>) = await_list d" for p by (simp add: await_list_def [abs_def])
  ultimately show "x \<notin> set deps \<Longrightarrow> ?thesis" by (simp add: addPending_def)
qed

text \<open>A block in the list of the head is dealt with when it need not be visited again.\<close>

definition tried :: "(BlockID \<Rightarrow> bool) \<Rightarrow> depgraph \<Rightarrow> BlockID \<Rightarrow> bool" where
  "tried lk d k \<longleftrightarrow> incl lk d k \<or> (\<forall>b. map_of (dg_pending d) k = Some b \<longrightarrow> missing lk b d \<noteq> [])"

definition dealt :: "(BlockID \<Rightarrow> bool) \<Rightarrow> BlockID \<Rightarrow> BlockID list \<Rightarrow> depgraph \<Rightarrow> BlockID \<Rightarrow> bool" where
  "dealt lk n P d k \<longleftrightarrow> tried lk d k \<or> (\<exists>x\<in>set P. x \<noteq> n \<and> k \<in> set (await_list d x))"

definition undecided :: "(BlockID \<Rightarrow> bool) \<Rightarrow> depgraph \<Rightarrow> BlockID set" where
  "undecided lk d = {k. map_of (dg_pending d) k \<noteq> None \<and> \<not> incl lk d k}"

text \<open>What a visit may change.\<close>

definition visited :: "(BlockID \<Rightarrow> bool) \<Rightarrow> BlockID \<Rightarrow> BlockID list \<Rightarrow> nat \<Rightarrow> depgraph \<Rightarrow> BlockID list \<Rightarrow> depgraph \<Rightarrow> bool" where
  "visited lk n P l d P' d' \<longleftrightarrow>
     dg_in d' = dg_in d \<and> dg_self d' = dg_self d \<and> map_of (dg_pending d') = map_of (dg_pending d) \<and>
     (\<forall>x. incl lk d x \<longrightarrow> incl lk d' x \<and> await_list d' x = await_list d x) \<and>
     (undecided lk d' \<subset> undecided lk d \<or>
      incl lk d' = incl lk d \<and> length P' \<le> length P + l \<and> set P' \<subseteq> set (n # P))"

lemma visited_refl: "visited lk n P l d P d"
  by (auto simp: visited_def)

lemma undecided_mono: "visited lk n P l d P' d' \<Longrightarrow> undecided lk d' \<subseteq> undecided lk d"
  by (auto simp: undecided_def visited_def)

lemma visited_trans:
  assumes "visited lk n P k d P' d'" and "visited lk n P' l d' P'' d''"
  shows "visited lk n P (k + l) d P'' d''"
proof -
  have "undecided lk d' \<subseteq> undecided lk d" "undecided lk d'' \<subseteq> undecided lk d'"
    using assms by (simp_all add: undecided_mono)
  then have "undecided lk d'' \<subset> undecided lk d"
    if "undecided lk d' \<subset> undecided lk d \<or> undecided lk d'' \<subset> undecided lk d'" using that by blast
  with assms show ?thesis unfolding visited_def by auto
qed

lemma visited_le: "visited lk n P k d P' d' \<Longrightarrow> k \<le> l \<Longrightarrow> visited lk n P l d P' d'"
  unfolding visited_def by auto

lemma tried_cong:
  "incl lk d' = incl lk d \<Longrightarrow> map_of (dg_pending d') = map_of (dg_pending d) \<Longrightarrow> dg_self d' = dg_self d \<Longrightarrow>
   tried lk d' = tried lk d"
  by (simp add: tried_def [abs_def] missing_def)

text \<open>One visited block: the three outcomes of \<open>processBlock\<close>.\<close>

lemma visit_one:
  assumes inj: "blocks_ok A" and h: "history_ok lk0 A taken lk d" and w: "waiting_ok A lk (n # P) d"
    and r: "r \<in> set (await_list d n)" and b: "map_of (dg_pending d) r = Some b"
    and others: "\<forall>k\<in>K. dealt lk n P d k" and seen: "\<forall>k\<in>seen. tried lk d k"
  shows "\<exists>ok d'. processBlock (reads lk) b d = Inr (ok, d') \<and>
    history_ok lk0 A taken lk d' \<and> waiting_ok A lk (n # (if ok then P @ [r] else P)) d' \<and>
    visited lk n P 1 d (if ok then P @ [r] else P) d' \<and>
    (\<forall>k\<in>insert r K. dealt lk n (if ok then P @ [r] else P) d' k) \<and>
    (\<forall>k\<in>(if ok then {} else insert r seen). tried lk d' k)"
proof -
  have id: "bd_id b = r" "b \<in> A" using waitingD(1) [OF w b] by simp_all
  have n: "incl lk d n" using waitingD(6) [OF w] by simp
  have "coherent lk d" using h by (simp add: history_ok_def)
  from processBlock_spec [OF this, of b] blocks_okD(2-4) [OF inj id(2)] obtain c where c: "coherent lk (d\<lparr>dg_icache := c\<rparr>)"
    and pb: "processBlock (reads lk) b d = Inr
      (if incl lk d (bd_id b) then (True, d\<lparr>dg_icache := c\<rparr>)
       else if missing lk b d \<noteq> [] then (False, addPending b (missing lk b d) (d\<lparr>dg_icache := c\<rparr>))
       else (True, queue_block b (d\<lparr>dg_icache := c\<rparr>)))" by blast
  define e where "e = d\<lparr>dg_icache := c\<rparr>"
  have he: "history_ok lk0 A taken lk e" using history_icache [OF c h] by (simp add: e_def)
  have we: "waiting_ok A lk (n # P) e" using w by (simp add: e_def waiting_icache)
  have e: "incl lk e = incl lk d" "map_of (dg_pending e) = map_of (dg_pending d)" "dg_self e = dg_self d"
    "await_list e = await_list d" "missing lk b e = missing lk b d" "dg_in e = dg_in d" for b by (simp_all add: e_def)
  note te = tried_cong [OF e(1-3)]
  show ?thesis
  proof (cases "incl lk d r")
    case True
    have "waiting_ok A lk (n # P @ [r]) e" using waiting_requeue [OF we, of r b] b True by (simp add: e)
    moreover have "r \<in> set (n # P)" using waitingD(5) [OF w b True] .
    then have "visited lk n P 1 d (P @ [r]) e" by (auto simp: visited_def e)
    moreover have "\<forall>k\<in>insert r K. dealt lk n (P @ [r]) e k"
      using others True by (auto simp: dealt_def te e tried_def)
    ultimately show ?thesis using pb he True by (intro exI [of _ True] exI [of _ e]) (simp add: id e_def)
  next
    case ni: False
    have same: "b' = b" if "map_of (dg_pending e) (bd_id b) = Some b'" for b'
      using that b id by (simp add: e)
    show ?thesis
    proof (cases "missing lk b d = []")
      case False
      let ?d = "addPending b (missing lk b d) e"
      have "waiting_ok A lk (n # P) ?d"
        using waiting_fail [OF we id(2) _ _ same] ni False by (simp add: e id)
      moreover have pend: "map_of (dg_pending ?d) = map_of (dg_pending d)" using b id by (auto simp: e fun_eq_iff)
      then have "visited lk n P 1 d P ?d"
        by (auto simp: visited_def e addPending_await_other missing_def)
      moreover have t: "tried lk ?d = tried lk d" by (rule tried_cong) (simp_all add: pend e)
      then have "\<forall>k\<in>insert r K. dealt lk n P ?d k"
        using others b False by (auto simp: dealt_def addPending_await e) (auto simp: tried_def)
      moreover have "\<forall>k\<in>insert r seen. tried lk ?d k" using seen b False by (auto simp: t) (auto simp: tried_def)
      ultimately show ?thesis using pb history_pending [OF he] ni False
        by (intro exI [of _ False] exI [of _ ?d]) (simp add: id e_def)
    next
      case m: True
      let ?d = "queue_block b e"
      have "waiting_ok A lk (n # P @ [r]) ?d" using waiting_queue [OF we _ _ same] ni m by (simp add: e id)
      moreover have "history_ok lk0 A taken lk ?d" using history_queue [OF he id(2)] ni m by (simp add: e id)
      moreover have "r \<in> undecided lk d" "r \<notin> undecided lk ?d" using b ni by (auto simp: undecided_def id)
      then have "undecided lk ?d \<subset> undecided lk d" by (auto simp: undecided_def e)
      then have "visited lk n P 1 d (P @ [r]) ?d" by (auto simp: visited_def e)
      moreover have "dealt lk n (P @ [r]) ?d k" if k: "dealt lk n P d k" for k
      proof (cases "tried lk d k \<and> \<not> tried lk ?d k")
        case True
        then obtain b' where b': "map_of (dg_pending d) k = Some b'" "\<not> incl lk d k"
            "missing lk b' d \<noteq> []" "missing lk b' ?d = []"
          by (auto simp: tried_def e)
        then have "r \<in> set (missing lk b' d)" by (auto simp: missing_queue e id filter_empty_conv neq_Nil_conv)
        with waitingD(3) [OF w b'(1,2)] have "k \<in> set (await_list d r)" .
        moreover have "r \<noteq> n" using n ni by blast
        ultimately show ?thesis by (auto simp: dealt_def e)
      next
        case False
        with k show ?thesis by (auto simp: dealt_def e)
      qed
      with others have "\<forall>k\<in>insert r K. dealt lk n (P @ [r]) ?d k" by (auto simp: dealt_def tried_def id)
      ultimately show ?thesis using pb ni m
        by (intro exI [of _ True] exI [of _ ?d]) (simp add: id e_def)
    qed
  qed
qed

lemma visit_spec:
  assumes inj: "blocks_ok A"
  shows "history_ok lk0 A taken lk d \<Longrightarrow> waiting_ok A lk (n # P) d \<Longrightarrow> set rs \<subseteq> set (await_list d n) \<Longrightarrow>
    \<forall>k\<in>set (await_list d n) - set rs. dealt lk n P d k \<Longrightarrow> \<forall>k\<in>seen. tried lk d k \<Longrightarrow>
    \<exists>P' seen' d'. visit_revdeps (reads lk) rs P seen d = Inr (P', seen', d') \<and>
      history_ok lk0 A taken lk d' \<and> waiting_ok A lk (n # P') d' \<and> visited lk n P (length rs) d P' d' \<and>
      (\<forall>k\<in>set (await_list d' n). dealt lk n P' d' k) \<and> (\<forall>k\<in>seen'. tried lk d' k)"
proof (induction rs arbitrary: d P seen)
  case Nil
  then show ?case by (intro exI [of _ P] exI [of _ seen] exI [of _ d]) (simp add: visited_refl)
next
  case (Cons r rs)
  show ?case
  proof (cases "r \<in> seen")
    case True
    then have "dealt lk n P d r" using Cons.prems(5) by (simp add: dealt_def)
    with Cons.prems(4) have "\<forall>k\<in>set (await_list d n) - set rs. dealt lk n P d k" by auto
    moreover have "set rs \<subseteq> set (await_list d n)" using Cons.prems(3) by simp
    ultimately obtain P' seen' d' where "visit_revdeps (reads lk) rs P seen d = Inr (P', seen', d')"
      "history_ok lk0 A taken lk d'" "waiting_ok A lk (n # P') d'" "visited lk n P (length rs) d P' d'"
      "\<forall>k\<in>set (await_list d' n). dealt lk n P' d' k" "\<forall>k\<in>seen'. tried lk d' k"
      using Cons.IH [OF Cons.prems(1,2) _ _ Cons.prems(5)] by blast
    with True visited_le [of lk n P "length rs" d P' d' "Suc (length rs)"] show ?thesis
      by (intro exI [of _ P'] exI [of _ seen'] exI [of _ d']) simp
  next
    case False
    have r: "r \<in> set (await_list d n)" using Cons.prems(3) by simp
    from waitingD(2) [OF Cons.prems(2) this] obtain b where b: "map_of (dg_pending d) r = Some b" by blast
    from visit_one [OF inj Cons.prems(1,2) r b Cons.prems(4,5)]
    obtain ok d1 where one: "processBlock (reads lk) b d = Inr (ok, d1)"
      "history_ok lk0 A taken lk d1" "waiting_ok A lk (n # (if ok then P @ [r] else P)) d1"
      "visited lk n P 1 d (if ok then P @ [r] else P) d1"
      "\<forall>k\<in>insert r (set (await_list d n) - set (r # rs)). dealt lk n (if ok then P @ [r] else P) d1 k"
      "\<forall>k\<in>(if ok then {} else insert r seen). tried lk d1 k" by blast
    have "incl lk d n" using waitingD(6) [OF Cons.prems(2)] by simp
    then have aw: "await_list d1 n = await_list d n" using one(4) by (simp add: visited_def)
    have "set rs \<subseteq> set (await_list d1 n)" using Cons.prems(3) aw by simp
    moreover have "\<forall>k\<in>set (await_list d1 n) - set rs. dealt lk n (if ok then P @ [r] else P) d1 k"
      using one(5) by (auto simp: aw)
    ultimately obtain P' seen' d' where rest:
      "visit_revdeps (reads lk) rs (if ok then P @ [r] else P) (if ok then {} else insert r seen) d1 = Inr (P', seen', d')"
      "history_ok lk0 A taken lk d'" "waiting_ok A lk (n # P') d'"
      "visited lk n (if ok then P @ [r] else P) (length rs) d1 P' d'"
      "\<forall>k\<in>set (await_list d' n). dealt lk n P' d' k" "\<forall>k\<in>seen'. tried lk d' k"
      using Cons.IH [OF one(2,3) _ _ one(6)] by blast
    have "visit_revdeps (reads lk) (r # rs) P seen d = Inr (P', seen', d')"
      using False b one(1) rest(1) by (cases ok) simp_all
    moreover have "visited lk n P (length (r # rs)) d P' d'"
      using visited_trans [OF one(4) rest(4)] by simp
    ultimately show ?thesis using rest(2,3,5,6)
      by (intro exI [of _ P'] exI [of _ seen'] exI [of _ d']) simp
  qed
qed

text \<open>The measure of the loop over \<open>processed\<close>: undecided blocks, then entries to visit and the queue.\<close>

definition queue_work :: "BlockID list \<Rightarrow> depgraph \<Rightarrow> nat" where
  "queue_work Q d = 2 * (\<Sum>x\<in>set Q. length (await_list d x)) + length Q"

definition drain_rel :: "(BlockID \<Rightarrow> bool) \<Rightarrow> ((BlockID list \<times> depgraph) \<times> (BlockID list \<times> depgraph)) set" where
  "drain_rel lk = inv_image (less_than <*lex*> less_than) (\<lambda>(Q, d). (card (undecided lk d), queue_work Q d))"

lemma wf_drain_rel: "wf (drain_rel lk)"
  by (simp add: drain_rel_def wf_lex_prod)

lemma finite_undecided [simp]: "finite (undecided lk d)"
proof (rule finite_subset)
  show "undecided lk d \<subseteq> fst ` set (dg_pending d)"
    by (auto simp: undecided_def map_of_eq_None_iff)
qed simp

lemma finish_decreases:
  assumes v: "visited lk n P (length (await_list d n)) d P' d'" and w: "waiting_ok A lk (n # P) d"
  shows "((P', finish_visit f n d'), (n # P, d)) \<in> drain_rel lk"
proof -
  let ?e = "finish_visit f n d'"
  have sub: "undecided lk ?e \<subseteq> undecided lk d'" by (auto simp: undecided_def finish_visit_pending split: if_splits)
  show ?thesis
  proof (cases "undecided lk d' \<subset> undecided lk d")
    case True
    with sub have "card (undecided lk ?e) < card (undecided lk d)" by (intro psubset_card_mono) auto
    then show ?thesis by (simp add: drain_rel_def)
  next
    case False
    with v have q: "length P' \<le> length P + length (await_list d n)" "set P' \<subseteq> set (n # P)"
      and same: "\<forall>x. incl lk d x \<longrightarrow> await_list d' x = await_list d x"
      by (auto simp: visited_def)
    have "undecided lk ?e \<subseteq> undecided lk d" using sub undecided_mono [OF v] by blast
    then have c: "card (undecided lk ?e) \<le> card (undecided lk d)" by (intro card_mono) auto
    have "(\<Sum>x\<in>set P'. length (await_list ?e x)) \<le> (\<Sum>x\<in>set (n # P). length (await_list ?e x))"
      using q(2) by (intro sum_mono2) auto
    also have "\<dots> = (\<Sum>x\<in>set (n # P) - {n}. length (await_list ?e x))"
      by (rule sum.mono_neutral_right) (auto simp: finish_visit_await)
    also have "\<dots> = (\<Sum>x\<in>set (n # P) - {n}. length (await_list d x))"
      using same waitingD(6) [OF w] by (intro sum.cong) (auto simp: finish_visit_await)
    finally have "(\<Sum>x\<in>set P'. length (await_list ?e x)) + length (await_list d n) \<le> (\<Sum>x\<in>set (n # P). length (await_list d x))"
      using sum.remove [of "set (n # P)" n "\<lambda>x. length (await_list d x)"] by simp
    with q(1) have "queue_work P' ?e < queue_work (n # P) d" by (simp add: queue_work_def)
    with c show ?thesis by (auto simp: drain_rel_def)
  qed
qed

lemma drain_spec:
  assumes inj: "blocks_ok A"
  shows "history_ok lk0 A taken lk d \<Longrightarrow> waiting_ok A lk Q d \<Longrightarrow> \<forall>k\<in>seen. tried lk d k \<Longrightarrow>
    (f \<Longrightarrow> Q \<noteq> [] \<and> map_of (dg_pending d) (hd Q) = None) \<Longrightarrow>
    \<exists>d'. drain (reads lk) f Q seen d = Some (Inr d') \<and> history_ok lk0 A taken lk d' \<and>
      waiting_ok A lk [] d' \<and> dg_in d' = dg_in d \<and> dg_self d' = dg_self d \<and>
      (\<forall>k. map_of (dg_pending d) k \<noteq> None \<longrightarrow> map_of (dg_pending d') k \<noteq> None \<or> incl lk d' k) \<and>
      (\<forall>x. incl lk d x \<longrightarrow> incl lk d' x)"
proof (induction "(Q, d)" arbitrary: Q d f seen rule: wf_induct_rule [OF wf_drain_rel [of lk]])
  case (1 Q d)
  show ?case
  proof (cases Q)
    case Nil
    with 1(2,3) show ?thesis
      by (intro exI [of _ d]) (simp add: drain.simps)
  next
    case (Cons n P)
    have w: "waiting_ok A lk (n # P) d" using 1(3) Cons by simp
    obtain P' seen' d1 where vis: "visit_revdeps (reads lk) (await_list d n) P seen d = Inr (P', seen', d1)"
      "history_ok lk0 A taken lk d1" "waiting_ok A lk (n # P') d1"
      "visited lk n P (length (await_list d n)) d P' d1"
      "\<forall>k\<in>set (await_list d1 n). dealt lk n P' d1 k" "\<forall>k\<in>seen'. tried lk d1 k"
      using visit_spec [OF inj 1(2) w _ _ 1(4), of "await_list d n"] by auto
    let ?e = "finish_visit f n d1"
    have pend: "map_of (dg_pending d1) = map_of (dg_pending d)" using vis(4) by (simp add: visited_def)
    have first: "f \<Longrightarrow> map_of (dg_pending d1) n = None" using 1(5) Cons pend by simp
    have we: "waiting_ok A lk P' ?e"
      using vis(5) by (intro waiting_finish [OF vis(3) first]) (auto simp: dealt_def tried_def)
    have "\<forall>k\<in>seen'. tried lk ?e k"
      using vis(6) by (auto simp: tried_def finish_visit_pending split: if_splits)
    with 1(1) [OF finish_decreases [OF vis(4) w, of f, folded Cons] history_finish [OF vis(2)] we, of seen' False]
    obtain d' where d': "drain (reads lk) False P' seen' ?e = Some (Inr d')"
      "history_ok lk0 A taken lk d'" "waiting_ok A lk [] d'" "dg_in d' = dg_in ?e" "dg_self d' = dg_self ?e"
      "\<forall>k. map_of (dg_pending ?e) k \<noteq> None \<longrightarrow> map_of (dg_pending d') k \<noteq> None \<or> incl lk d' k"
      "\<forall>x. incl lk ?e x \<longrightarrow> incl lk d' x" by blast
    have "incl lk d n" using waitingD(6) [OF w] by simp
    moreover have mono: "\<forall>x. incl lk d x \<longrightarrow> incl lk d' x" using d'(7) vis(4) by (simp add: visited_def)
    ultimately have "incl lk d' n" by blast
    then have "\<forall>k. map_of (dg_pending d) k \<noteq> None \<longrightarrow> map_of (dg_pending d') k \<noteq> None \<or> incl lk d' k"
      using d'(6) by (auto simp: finish_visit_pending pend split: if_splits)
    moreover have "drain (reads lk) f Q seen d = Some (Inr d')"
      using vis(1) d'(1) Cons by (simp add: drain.simps [of _ f])
    ultimately show ?thesis using d' vis(4) mono
      by (intro exI [of _ d']) (simp add: visited_def)
  qed
qed

section \<open>One received block\<close>

text \<open>The blocks known to the graph: included ones and waiting ones.\<close>

definition known :: "(BlockID \<Rightarrow> bool) \<Rightarrow> depgraph \<Rightarrow> BlockID \<Rightarrow> bool" where
  "known lk d k \<longleftrightarrow> map_of (dg_pending d) k \<noteq> None \<or> incl lk d k"

lemma waiting_revisit:
  assumes w: "waiting_ok A lk [] d" and i: "incl lk d i" "map_of (dg_pending d) i = None"
  shows "waiting_ok A lk [i] d"
proof (rule waiting_okI)
  show "x \<in> set (take j [i])" if "j < length [i]" "[i] ! j \<in> set (await_list d x)" for j x
    using waitingD(2) [OF w, of i x] that i(2) by simp
  show "k \<in> set [i]" if "map_of (dg_pending d) k = Some b" "incl lk d k" for k b
    using waitingD(5) [OF w that] by simp
  show "x \<in> set [i]" if "incl lk d x" "await_list d x \<noteq> []" for x using waitingD(4) [OF w that] by simp
  show "\<exists>x\<in>set [i]. k \<in> set (await_list d x)"
    if "map_of (dg_pending d) k = Some b" "\<not> incl lk d k" "missing lk b d = []" for k b
    using waitingD(8) [OF w that] by simp
qed (use waitingD(1-3) [OF w] i(1) in auto)

lemma process_info_spec:
  assumes inj: "blocks_ok A" and h: "history_ok lk0 A taken lk d" and w: "waiting_ok A lk [] d" and b: "b \<in> A"
  shows "\<exists>d'. process_info (reads lk) b d = Some (Inr d') \<and> history_ok lk0 A taken lk d' \<and> waiting_ok A lk [] d' \<and>
    dg_in d' = dg_in d \<and> dg_self d' = dg_self d \<and> known lk d' (bd_id b) \<and> (\<forall>k. known lk d k \<longrightarrow> known lk d' k)"
proof -
  let ?i = "bd_id b"
  have "coherent lk d" using h by (simp add: history_ok_def)
  from processBlock_spec [OF this, of b] blocks_okD(2-4) [OF inj b] obtain c where c: "coherent lk (d\<lparr>dg_icache := c\<rparr>)"
    and pb: "processBlock (reads lk) b d = Inr
      (if incl lk d ?i then (True, d\<lparr>dg_icache := c\<rparr>)
       else if missing lk b d \<noteq> [] then (False, addPending b (missing lk b d) (d\<lparr>dg_icache := c\<rparr>))
       else (True, queue_block b (d\<lparr>dg_icache := c\<rparr>)))" by blast
  define e where "e = d\<lparr>dg_icache := c\<rparr>"
  have he: "history_ok lk0 A taken lk e" using history_icache [OF c h] by (simp add: e_def)
  have we: "waiting_ok A lk [] e" using w by (simp add: e_def waiting_icache)
  have e: "incl lk e = incl lk d" "dg_pending e = dg_pending d" "dg_self e = dg_self d" "await_list e = await_list d"
    "missing lk b e = missing lk b d" "dg_in e = dg_in d" by (simp_all add: e_def)
  have same: "b' = b" if "map_of (dg_pending e) ?i = Some b'" for b'
    using waitingD(1) [OF we that] blocks_okD(1) [OF inj _ b] by auto
  have drained: ?thesis if "processBlock (reads lk) b d = Inr (True, f)" "history_ok lk0 A taken lk f"
    "waiting_ok A lk [?i] f" "map_of (dg_pending f) ?i = None" "tried lk f ?i" "dg_in f = dg_in d" "dg_self f = dg_self d"
    "\<forall>k. known lk d k \<longrightarrow> known lk f k" for f
  proof -
    from drain_spec [OF inj that(2,3), of "{?i}" True] that(4,5)
    obtain d' where d': "drain (reads lk) True [?i] {?i} f = Some (Inr d')" "history_ok lk0 A taken lk d'"
      "waiting_ok A lk [] d'" "dg_in d' = dg_in f" "dg_self d' = dg_self f"
      "\<forall>k. map_of (dg_pending f) k \<noteq> None \<longrightarrow> map_of (dg_pending d') k \<noteq> None \<or> incl lk d' k"
      "\<forall>x. incl lk f x \<longrightarrow> incl lk d' x" by auto
    have mono: "known lk f k \<Longrightarrow> known lk d' k" for k using d'(6,7) unfolding known_def by blast
    have "known lk f ?i" using waitingD(6) [OF that(3)] by (simp add: known_def)
    with d' that show ?thesis by (intro exI [of _ d']) (simp add: process_info_def mono)
  qed
  consider "incl lk d ?i" | "\<not> incl lk d ?i" "missing lk b d \<noteq> []" | "\<not> incl lk d ?i" "missing lk b d = []" by blast
  then show ?thesis
  proof cases
    case 1
    have none: "map_of (dg_pending e) ?i = None"
      using waitingD(5) [OF we, of ?i] 1 by (cases "map_of (dg_pending e) ?i") (auto simp: e)
    with 1 have "waiting_ok A lk [?i] e" by (intro waiting_revisit [OF we]) (simp_all add: e)
    with none show ?thesis using 1 he pb
      by (intro drained [of e]) (simp_all add: e tried_def known_def flip: e_def)
  next
    case 2
    have "waiting_ok A lk [] (addPending b (missing lk b e) e)"
      using 2 by (intro waiting_fail [OF we b]) (auto simp: e same)
    with 2 pb history_pending [OF he] show ?thesis
      by (intro exI [of _ "addPending b (missing lk b e) e"])
        (simp add: process_info_def known_def e flip: e_def)
  next
    case 3
    have none: "map_of (dg_pending e) ?i = None"
      using waitingD(8) [OF we, of ?i] same 3 by (cases "map_of (dg_pending e) ?i") (auto simp: e)
    have "history_ok lk0 A taken lk (queue_block b e)" using 3 b by (intro history_queue [OF he]) (simp_all add: e)
    moreover have "waiting_ok A lk [?i] (queue_block b e)"
      using waiting_queue [OF we, of b] 3 same by (simp add: e)
    ultimately show ?thesis using none 3 pb
      by (intro drained [of "queue_block b e"]) (simp_all add: e tried_def known_def flip: e_def)
  qed
qed

section \<open>The graph at work\<close>

text \<open>
  The steps of the service on the graph: a received block is added, the goroutine runs an iteration,
  queued blocks are taken, the store records taken blocks as included, and \<open>actuallyIncluded\<close> is
  called for recorded blocks. \<open>R\<close> are the received blocks and \<open>T\<close> the taken ones.
\<close>

inductive dg_reach :: "(BlockID \<Rightarrow> bool) \<Rightarrow> u64 \<Rightarrow> (BlockID \<Rightarrow> bool) \<Rightarrow> blockData list \<Rightarrow> blockData list \<Rightarrow> depgraph \<Rightarrow> bool"
  for lk0 :: "BlockID \<Rightarrow> bool" and self :: u64 where
  start: "dg_reach lk0 self lk0 [] [] (newDepgraph self)"
| receive: "dg_reach lk0 self lk R T d \<Longrightarrow> dg_reach lk0 self lk (R @ [b]) T (dg_add b d)"
| iterate: "dg_reach lk0 self lk R T d \<Longrightarrow> process_step (reads lk) i d = Some (Inr d') \<Longrightarrow> dg_reach lk0 self lk R T d'"
| take_blocks: "dg_reach lk0 self lk R T d \<Longrightarrow> getBlocks limit d = (bs, d') \<Longrightarrow> dg_reach lk0 self lk R (T @ bs) d'"
| record_block: "dg_reach lk0 self lk R T d \<Longrightarrow> b \<in> set T \<Longrightarrow> dg_reach lk0 self (lk(bd_id b := True)) R T d"
| forget: "dg_reach lk0 self lk R T d \<Longrightarrow> lk x \<Longrightarrow> dg_reach lk0 self lk R T (actuallyIncluded x d)"

definition dg_inv :: "(BlockID \<Rightarrow> bool) \<Rightarrow> u64 \<Rightarrow> (BlockID \<Rightarrow> bool) \<Rightarrow> blockData list \<Rightarrow> blockData list \<Rightarrow> depgraph \<Rightarrow> bool" where
  "dg_inv lk0 self lk R T d \<longleftrightarrow> history_ok lk0 (set R) T lk d \<and> waiting_ok (set R) lk [] d \<and> dg_self d = self \<and>
     set (dg_in d) \<subseteq> set R \<and> (\<forall>b\<in>set R. b \<in> set (dg_in d) \<or> known lk d (bd_id b))"

lemma history_cong:
  "coherent lk' d' \<Longrightarrow> incl lk' d' = incl lk d \<Longrightarrow> dg_self d' = dg_self d \<Longrightarrow> A \<subseteq> A' \<Longrightarrow> T' @ dg_blocks d' = T @ dg_blocks d \<Longrightarrow>
   history_ok lk0 A T lk d \<Longrightarrow> history_ok lk0 A' T' lk' d'"
  unfolding history_ok_def by (simp only:) blast

lemma waiting_mono:
  assumes "waiting_ok A lk Q d" "A \<subseteq> A'"
  shows "waiting_ok A' lk Q d"
  by (rule waiting_okI; use waitingD [OF assms(1)] assms(2) in blast)

lemma waiting_cong:
  assumes "incl lk' d' = incl lk d" "dg_self d' = dg_self d" "A \<subseteq> A'" "dg_pending d' = dg_pending d"
    "dg_await d' = dg_await d" "waiting_ok A lk Q d"
  shows "waiting_ok A' lk' Q d'"
proof -
  have "waiting_ok A lk' Q d' = waiting_ok A lk Q d"
    by (simp only: waiting_ok_def missing_def await_list_def assms(1,2,4,5))
  with assms waiting_mono show ?thesis by blast
qed

lemma dg_inv_frame:
  assumes inv: "dg_inv lk0 self lk R T d" and coh: "coherent lk' d'" and i: "incl lk' d' = incl lk d"
    and d': "dg_self d' = dg_self d" "dg_pending d' = dg_pending d" "dg_await d' = dg_await d"
    and R': "set R \<subseteq> set R'" "set R' - set (dg_in d') \<subseteq> set R - set (dg_in d)" "set (dg_in d') \<subseteq> set R'"
    and T': "T' @ dg_blocks d' = T @ dg_blocks d"
  shows "dg_inv lk0 self lk' R' T' d'"
proof -
  have "history_ok lk0 (set R') T' lk' d'" "waiting_ok (set R') lk' [] d'"
    using inv history_cong [OF coh i d'(1) R'(1) T'] waiting_cong [OF i d'(1) R'(1) d'(2,3)]
    by (simp_all add: dg_inv_def)
  moreover have "\<forall>b\<in>set R'. b \<in> set (dg_in d') \<or> known lk' d' (bd_id b)"
    using inv R'(2) unfolding dg_inv_def known_def i d'(2) by blast
  ultimately show ?thesis using inv R'(3) d'(1) by (simp add: dg_inv_def)
qed

lemma map_of_take: "map_of (take n xs) x = Some b \<Longrightarrow> map_of xs x = Some b"
  by (induction xs arbitrary: n) (auto simp: take_Cons split: nat.splits if_splits)

lemma prune_icache_frame [simp]:
  "incl lk (prune_icache i d) = incl lk d"
  "dg_self (prune_icache i d) = dg_self d" "dg_pending (prune_icache i d) = dg_pending d"
  "dg_await (prune_icache i d) = dg_await d" "dg_in (prune_icache i d) = dg_in d"
  "dg_blocks (prune_icache i d) = dg_blocks d" "dg_tcache (prune_icache i d) = dg_tcache d"
  by (simp_all add: prune_icache_def)

lemma prune_icache_coherent: "coherent lk d \<Longrightarrow> coherent lk (prune_icache i d)"
  unfolding coherent_def prune_icache_frame by (auto simp: prune_icache_def dest: map_of_take split: if_splits)

lemma dg_inv_coherent: "dg_inv lk0 self lk R T d \<Longrightarrow> coherent lk d"
  by (simp add: dg_inv_def history_ok_def)

text \<open>An iteration of the goroutine returns, and keeps the invariant.\<close>

lemma process_step_spec:
  assumes inj: "blocks_ok (set R)" and inv: "dg_inv lk0 self lk R T d"
  shows "\<exists>d'. process_step (reads lk) i d = Some (Inr d') \<and> dg_inv lk0 self lk R T d' \<and> dg_in d' = tl (dg_in d)"
proof (cases "dg_in d")
  case Nil
  have "dg_inv lk0 self lk R T (prune_icache i d)"
    using inv prune_icache_coherent [OF dg_inv_coherent [OF inv]] by (intro dg_inv_frame [OF inv]) (auto simp: dg_inv_def)
  with Nil show ?thesis by (simp add: process_step_def)
next
  case (Cons b rest)
  define e where "e = (prune_icache i d)\<lparr>dg_in := rest\<rparr>"
  have coh: "coherent lk e"
    using prune_icache_coherent [OF dg_inv_coherent [OF inv], of i] by (simp add: coherent_def incl_def e_def)
  have ie: "incl lk e = incl lk d" by (simp add: incl_def [abs_def] e_def)
  have e: "dg_self e = dg_self d" "dg_pending e = dg_pending d" "dg_await e = dg_await d" "T @ dg_blocks e = T @ dg_blocks d"
    by (simp_all add: e_def)
  have he: "history_ok lk0 (set R) T lk e" "waiting_ok (set R) lk [] e"
    using inv history_cong [OF coh ie e(1) subset_refl e(4)] waiting_cong [OF ie e(1) subset_refl e(2,3)]
    by (simp_all add: dg_inv_def)
  have b: "b \<in> set R" "set rest \<subseteq> set R" "\<forall>c\<in>set R. c \<in> set (b # rest) \<or> known lk e (bd_id c)"
    using inv Cons by (auto simp: dg_inv_def known_def ie e)
  from process_info_spec [OF inj he b(1)] obtain d' where d':
    "process_info (reads lk) b e = Some (Inr d')" "history_ok lk0 (set R) T lk d'" "waiting_ok (set R) lk [] d'"
    "dg_in d' = rest" "dg_self d' = dg_self d" "known lk d' (bd_id b)" "\<forall>k. known lk e k \<longrightarrow> known lk d' k"
    by (auto simp: e_def)
  have "dg_inv lk0 self lk R T d'" using inv d' b by (auto simp: dg_inv_def)
  with d' Cons show ?thesis by (simp add: process_step_def Let_def e_def)
qed

lemma dg_inv_start: "dg_inv lk0 self lk0 [] [] (newDepgraph self)"
  by (auto simp: dg_inv_def history_ok_def waiting_ok_def coherent_def causal_def incl_def newDepgraph_def await_list_def)

lemma dg_inv_record:
  assumes inv: "dg_inv lk0 self lk R T d" and "b \<in> set T"
  shows "dg_inv lk0 self (lk(bd_id b := True)) R T d"
proof -
  have "incl lk d (bd_id b)" using assms by (simp add: dg_inv_def history_ok_def)
  then have i: "incl (lk(bd_id b := True)) d = incl lk d" by (auto simp: incl_def fun_eq_iff)
  moreover have "coherent (lk(bd_id b := True)) d" using dg_inv_coherent [OF inv] by (simp add: coherent_def i)
  ultimately show ?thesis using inv by (intro dg_inv_frame [OF inv]) (auto simp: dg_inv_def)
qed

lemma dg_inv_forget:
  assumes inv: "dg_inv lk0 self lk R T d" and "lk x"
  shows "dg_inv lk0 self lk R T (actuallyIncluded x d)"
proof -
  have i: "incl lk (actuallyIncluded x d) = incl lk d"
    using assms(2) by (auto simp: incl_def fun_eq_iff actuallyIncluded_def)
  moreover have "coherent lk (actuallyIncluded x d)"
    using dg_inv_coherent [OF inv] unfolding coherent_def i by (simp add: actuallyIncluded_def)
  ultimately show ?thesis using inv
    by (intro dg_inv_frame [OF inv]) (auto simp: dg_inv_def actuallyIncluded_def)
qed

lemma blocks_ok_subset: "blocks_ok A \<Longrightarrow> B \<subseteq> A \<Longrightarrow> blocks_ok B"
  by (auto simp: blocks_ok_def dest: inj_on_subset)

lemma dg_reach_inv: "dg_reach lk0 self lk R T d \<Longrightarrow> blocks_ok (set R) \<Longrightarrow> dg_inv lk0 self lk R T d"
proof (induction rule: dg_reach.induct)
  case (receive lk R T d b)
  then have inv: "dg_inv lk0 self lk R T d" by (auto intro: blocks_ok_subset)
  have i: "incl lk (dg_add b d) = incl lk d" by (simp add: dg_add_def incl_def [abs_def])
  then have "coherent lk (dg_add b d)" using dg_inv_coherent [OF inv] unfolding coherent_def i by (simp add: dg_add_def)
  with inv i show ?case by (intro dg_inv_frame [OF inv]) (auto simp: dg_add_def dg_inv_def)
next
  case (iterate lk R T d i d')
  with process_step_spec [of R lk0 self lk T d i] show ?case by auto
next
  case (take_blocks lk R T d limit bs d')
  then have inv: "dg_inv lk0 self lk R T d" by simp
  obtain bl where d': "d' = d\<lparr>dg_blocks := bl\<rparr>" "bs @ bl = dg_blocks d"
    using take_blocks.hyps(2) by (auto simp: getBlocks_def Let_def)
  have i: "incl lk (d\<lparr>dg_blocks := bl\<rparr>) = incl lk d" by (simp add: incl_def [abs_def])
  then have "coherent lk (d\<lparr>dg_blocks := bl\<rparr>)" using dg_inv_coherent [OF inv] by (simp add: coherent_def)
  with i show ?case unfolding d'(1)
    by (intro dg_inv_frame [OF inv]) (use d'(2) inv in \<open>simp_all add: dg_inv_def\<close>)
qed (simp_all add: dg_inv_start dg_inv_record dg_inv_forget)

text \<open>The least set that holds the blocks of the store and every received block whose needs it holds.\<close>

inductive_set deliverable :: "(BlockID \<Rightarrow> bool) \<Rightarrow> u64 \<Rightarrow> blockData list \<Rightarrow> BlockID set"
  for lk0 :: "BlockID \<Rightarrow> bool" and self :: u64 and R :: "blockData list" where
  stored: "lk0 x \<Longrightarrow> x \<in> deliverable lk0 self R"
| received: "b \<in> set R \<Longrightarrow> \<forall>x\<in>set (needs self b). x \<in> deliverable lk0 self R \<Longrightarrow> bd_id b \<in> deliverable lk0 self R"

lemma causal_deliverable:
  assumes c: "causal lk0 self hist" and R: "set hist \<subseteq> set R"
  shows "i \<le> length hist \<Longrightarrow> bd_id ` set (take i hist) \<subseteq> deliverable lk0 self R"
proof (induction i)
  case (Suc i)
  then have i: "i < length hist" and IH: "bd_id ` set (take i hist) \<subseteq> deliverable lk0 self R" by simp_all
  have "\<forall>x\<in>set (needs self (hist ! i)). lk0 x \<or> x \<in> bd_id ` set (take i hist)"
    using c i by (simp add: causal_def)
  then have "\<forall>x\<in>set (needs self (hist ! i)). x \<in> deliverable lk0 self R"
    using IH deliverable.stored [of lk0 _ self R] by blast
  moreover have "hist ! i \<in> set R" using R i by auto
  ultimately have "bd_id (hist ! i) \<in> deliverable lk0 self R" by (rule deliverable.received [rotated])
  with IH i show ?case by (simp add: take_Suc_conv_app_nth)
qed simp

lemma deliverable_included:
  assumes inj: "blocks_ok (set R)" and inv: "dg_inv lk0 self lk R T d" and empty: "dg_in d = []"
  shows "x \<in> deliverable lk0 self R \<Longrightarrow> incl lk d x"
proof (induction rule: deliverable.induct)
  case (stored x)
  then show ?case using inv by (simp add: dg_inv_def history_ok_def)
next
  case (received b)
  have w: "waiting_ok (set R) lk [] d" and self: "dg_self d = self" using inv by (simp_all add: dg_inv_def)
  have m: "missing lk b d = []" using received.IH self by (simp add: missing_def)
  have "known lk d (bd_id b)" using inv received.hyps empty by (auto simp: dg_inv_def)
  moreover have "incl lk d (bd_id b)" if p: "map_of (dg_pending d) (bd_id b) = Some b'" for b'
  proof -
    have "b' = b" using waitingD(1) [OF w p] blocks_okD(1) [OF inj _ received.hyps(1)] by auto
    with waitingD(8) [OF w p] m show ?thesis by auto
  qed
  ultimately show ?case by (auto simp: known_def)
qed

section \<open>Properties\<close>

text \<open>A run for the witnesses: the second of two blocks of node 2 is received before the first.\<close>

definition block_of :: "BlockID \<Rightarrow> BlockID \<Rightarrow> blockData" where
  "block_of prev i = \<lparr>bd_deps = [], bd_id = i, bd_prev = prev, bd_ref = \<lparr>Data = [], Signature = []\<rparr>\<rparr>"

abbreviation id_of :: "u8 \<Rightarrow> u64 \<Rightarrow> BlockID" where
  "id_of h r \<equiv> \<lparr>Hash = [h, 1, 2, 3, 4, 5, 6, 7, 8, 9, 10, 11], Node = 2, Round = r\<rparr>"

abbreviation first_block :: blockData where
  "first_block \<equiv> block_of zeroID (id_of 1 1)"

abbreviation second_block :: blockData where
  "second_block \<equiv> block_of (id_of 1 1) (id_of 2 2)"

abbreviation no_store :: "BlockID \<Rightarrow> bool" where
  "no_store \<equiv> \<lambda>_. False"

definition after_second :: depgraph where
  "after_second = \<lparr>dg_await = [(id_of 1 1, [id_of 2 2])], dg_blocks = [],
     dg_icache = [(id_of 2 2, False), (id_of 1 1, False)], dg_in = [],
     dg_pending = [(id_of 2 2, second_block)], dg_self = 1, dg_tcache = []\<rparr>"

definition after_first :: depgraph where
  "after_first = \<lparr>dg_await = [], dg_blocks = [first_block, second_block],
     dg_icache = [(id_of 2 2, True), (id_of 1 1, True)], dg_in = [], dg_pending = [], dg_self = 1,
     dg_tcache = [(id_of 1 1, True), (id_of 2 2, True)]\<rparr>"

lemma after_second_run: "process_step (reads no_store) 1 (dg_add second_block (newDepgraph 1)) = Some (Inr after_second)"
  by code_simp

lemma after_first_run: "process_step (reads no_store) 2 (dg_add first_block after_second) = Some (Inr after_first)"
  by code_simp

lemma sample_reach:
  "dg_reach no_store 1 no_store [second_block] [] after_second"
  "dg_reach no_store 1 no_store [second_block, first_block] [] (dg_add first_block after_second)"
  "dg_reach no_store 1 no_store [second_block, first_block] [] after_first"
proof -
  show 1: "dg_reach no_store 1 no_store [second_block] [] after_second"
    using dg_reach.iterate [OF dg_reach.receive [OF dg_reach.start] after_second_run] by simp
  show 2: "dg_reach no_store 1 no_store [second_block, first_block] [] (dg_add first_block after_second)"
    using dg_reach.receive [OF 1, of first_block] by simp
  show "dg_reach no_store 1 no_store [second_block, first_block] [] after_first"
    by (rule dg_reach.iterate [OF 2 after_first_run])
qed

lemma sample_ids: "blocks_ok (set [second_block, first_block])"
  by (simp add: blocks_ok_def printable_def inj_on_def block_of_def)

text \<open>C23. The dependency graph queues blocks in causal order: in the list of all the blocks it ever
  queued for inclusion, no block occurs twice or was in the store at the start, and a block follows
  its predecessor and every block of another node that it refers to, unless those were in the store
  at the start. This holds in every order of receiving blocks, running the goroutine, taking blocks
  and recording them, as long as the ids of the received blocks tell them apart and the ids
  they name can be printed.\<close>

theorem depgraph_causal:
  assumes "dg_reach lk0 self lk R T d" and "blocks_ok (set R)"
  shows "causal lk0 self (T @ dg_blocks d) \<and> set (T @ dg_blocks d) \<subseteq> set R"
  using dg_reach_inv [OF assms] by (auto simp: dg_inv_def history_ok_def)

theorem depgraph_causal_witness:
  "dg_reach no_store 1 no_store [second_block, first_block] [] after_first \<and>
   blocks_ok (set [second_block, first_block]) \<and> causal no_store 1 [first_block, second_block]"
  using depgraph_causal [OF sample_reach(3) sample_ids] sample_reach(3) sample_ids by (simp add: after_first_def)



text \<open>C24. Once the goroutine has consumed every received block, the included blocks are the least set that
  holds the blocks of the store and every received block whose needs it holds. So no block waits
  longer than it must, and the outcome does not depend on the order in which blocks were received.\<close>

theorem depgraph_delivers_least:
  assumes "dg_reach lk0 self lk R T d" and "blocks_ok (set R)" and "dg_in d = []"
  shows "{x. lk0 x} \<union> bd_id ` set (T @ dg_blocks d) = deliverable lk0 self R"
proof -
  have inv: "dg_inv lk0 self lk R T d" by (rule dg_reach_inv [OF assms(1,2)])
  then have h: "causal lk0 self (T @ dg_blocks d)" "set (T @ dg_blocks d) \<subseteq> set R"
    and i: "incl lk d x \<longleftrightarrow> lk0 x \<or> x \<in> bd_id ` set (T @ dg_blocks d)" for x
    by (auto simp: dg_inv_def history_ok_def)
  show ?thesis
  proof (intro equalityI subsetI)
    show "x \<in> deliverable lk0 self R" if "x \<in> {x. lk0 x} \<union> bd_id ` set (T @ dg_blocks d)" for x
      using that causal_deliverable [OF h, of "length (T @ dg_blocks d)"] deliverable.stored [of lk0 x] by auto
    show "x \<in> {x. lk0 x} \<union> bd_id ` set (T @ dg_blocks d)" if "x \<in> deliverable lk0 self R" for x
      using deliverable_included [OF assms(2) inv assms(3) that] i by simp
  qed
qed

theorem depgraph_delivers_least_witness:
  "dg_reach no_store 1 no_store [second_block, first_block] [] after_first \<and>
   blocks_ok (set [second_block, first_block]) \<and> dg_in after_first = [] \<and>
   deliverable no_store 1 [second_block, first_block] = {id_of 1 1, id_of 2 2}"
  using depgraph_delivers_least [OF sample_reach(3) sample_ids] sample_reach(3) sample_ids
  by (simp add: after_first_def block_of_def)

text \<open>C26. One signed block can stop a node. If a received block names a predecessor that is not included and
  whose hash has between 1 and 11 bytes, the goroutine panics while it evaluates the arguments of a
  debug message, in every reachable state and at every log level. The hash of a predecessor is what
  the sender put into the signed reference; nothing checks its length.\<close>

theorem depgraph_short_hash_panics:
  assumes "dg_reach lk0 self lk R T d" and "blocks_ok (set R)" and "dg_in d = []"
    and "\<not> incl lk d (bd_id b)" and "printable (bd_id b)"
    and "\<not> incl lk d (bd_prev b)" and "0 < length (Hash (bd_prev b))" and "length (Hash (bd_prev b)) < 12"
  shows "process_step (reads lk) i (dg_add b d) = Some (Inl (Panic ''index out of range''))"
proof -
  define e where "e = (prune_icache i (dg_add b d))\<lparr>dg_in := []\<rparr>"
  have ic: "incl lk (dg_add b d) = incl lk d" by (simp add: dg_add_def incl_def [abs_def])
  have "coherent lk d" by (rule dg_inv_coherent [OF dg_reach_inv [OF assms(1,2)]])
  then have "coherent lk (dg_add b d)" unfolding coherent_def ic by (simp add: dg_add_def)
  then have coh: "coherent lk e"
    using prune_icache_coherent [of lk "dg_add b d" i] by (simp add: coherent_def incl_def e_def)
  have ie: "incl lk e = incl lk d" using ic by (simp add: incl_def [abs_def] e_def)
  obtain c1 where c1: "isIncluded (reads lk) (bd_id b) e = Inr (False, e\<lparr>dg_icache := c1\<rparr>)" "coherent lk (e\<lparr>dg_icache := c1\<rparr>)"
    using isIncluded_spec [OF coh, of "bd_id b"] assms(4) ie by auto
  obtain c2 where c2: "isIncluded (reads lk) (bd_prev b) (e\<lparr>dg_icache := c1\<rparr>) = Inr (False, e\<lparr>dg_icache := c2\<rparr>)"
    using isIncluded_spec [OF c1(2), of "bd_prev b"] assms(6) ie by auto
  have "log_missing (bd_id b) (bd_prev b) = Inl (Panic ''index out of range'')"
    using assms(5,7,8) by (auto simp: log_missing_def BlockID_String_def printable_def Let_def)
  then have "processBlock (reads lk) b e = Inl (Panic ''index out of range'')"
    using c1(1) c2 assms(7) by (simp add: processBlock_def Valid_def)
  moreover have "dg_in (prune_icache i (dg_add b d)) = [b]" using assms(3) by (simp add: dg_add_def)
  ultimately show ?thesis by (simp add: process_step_def Let_def process_info_def e_def)
qed

theorem depgraph_short_hash_panics_witness:
  "dg_reach no_store 1 no_store [] [] (newDepgraph 1) \<and> blocks_ok (set []) \<and>
   process_step (reads no_store) 1 (dg_add (block_of \<lparr>Hash = [1], Node = 2, Round = 1\<rparr> (id_of 2 2)) (newDepgraph 1)) =
     Some (Inl (Panic ''index out of range''))"
  using depgraph_short_hash_panics [OF dg_reach.start [of no_store 1],
      where b = "block_of \<lparr>Hash = [1], Node = 2, Round = 1\<rparr> (id_of 2 2)" and i = 1]
    dg_reach.start [of no_store 1]
  by (simp add: blocks_ok_def newDepgraph_def incl_def printable_def block_of_def)

end
