(* ===== verification/BroadcastInv.thy ===== *)
theory BroadcastInv
  imports Broadcast StoreProps DepgraphInv
begin

text \<open>
  The broadcast service at work: the steps of its goroutines and of its clients on one state, crashes
  with a restart on the same database, and the invariants of the states they reach. The laws of the
  third-party code are the hypotheses: \<open>badger_ok\<close> and \<open>signed_codec\<close> as for the store, \<open>wire_codec\<close> that blocks
  and block references survive the codec, and \<open>signs\<close> that a node's signature verifies under its key.
\<close>

definition wire_codec :: "proto \<Rightarrow> bool" where
  "wire_codec P \<longleftrightarrow>
     (\<forall>b. \<exists>bs. mBlock P b = Inr bs \<and> uBlock P bs = Inr b) \<and>
     (\<forall>r. \<exists>bs. mBlockReference P r = Inr bs \<and> uBlockReference P bs = Inr r)"

definition env_ok :: "('db, 'txn, 'item, 'key) env \<Rightarrow> ('db \<Rightarrow> bytes \<rightharpoonup> bytes) \<Rightarrow> ('txn \<Rightarrow> bytes \<rightharpoonup> bytes) \<Rightarrow> (SignedData \<Rightarrow> bytes) \<Rightarrow> bool" where
  "env_ok E c tc enc \<longleftrightarrow> badger_ok (eB E) c tc \<and> signed_codec (eP E) enc \<and> wire_codec (eP E)"

definition signs :: "('db, 'txn, 'item, 'key) env \<Rightarrow> (u64, 'key) gmap \<Rightarrow> u64 \<Rightarrow> bool" where
  "signs E keys self \<longleftrightarrow> (\<exists>k. map_of keys self = Some k \<and> (\<forall>m. eVerify E k m (eSign E m)))"

named_theorems service

lemma orFatal_Inr [simp]: "orFatal msg r = Inr x \<longleftrightarrow> r = Inr x"
  by (auto simp: orFatal_def split: sum.splits failure.splits)

lemma rewordE_Inr [simp]: "rewordE msg r = Inr x \<longleftrightarrow> r = Inr x"
  by (auto simp: rewordE_def split: sum.splits failure.splits)

lemma reworded_Inr [simp]: "orFatal msg (Inr x) = Inr x" "rewordE msg (Inr x) = Inr x"
  by simp_all

section \<open>Accepted blocks\<close>

definition ref_ok :: "('db, 'txn, 'item, 'key) env \<Rightarrow> (u64, 'key) gmap \<Rightarrow> SignedData \<Rightarrow> BlockID \<Rightarrow> bool" where
  "ref_ok E keys sref i \<longleftrightarrow> (\<exists>ref k. uBlockReference (eP E) (Data sref) = Inr ref \<and> block_ref_id ref = i \<and>
     map_of keys (Node i) = Some k \<and> eVerify E k (Data sref) (Signature sref))"

lemma check_references_spec:
  "check_references E keys node srefs = Inr deps \<longleftrightarrow>
     list_all2 (\<lambda>sref i. ref_ok E keys sref i \<and> Node i \<noteq> node) srefs deps"
proof (induction srefs arbitrary: deps)
  case (Cons sref srefs)
  have "check_references E keys node (sref # srefs) = Inr deps \<longleftrightarrow>
      (\<exists>i ds. deps = i # ds \<and> ref_ok E keys sref i \<and> Node i \<noteq> node \<and> check_references E keys node srefs = Inr ds)"
  proof (cases "uBlockReference (eP E) (Data sref)")
    case (Inr ref)
    then show ?thesis
      by (cases "map_of keys (refNode ref)") (auto simp: ref_ok_def bindE_eq_Inr block_ref_id_def split: if_splits)
  qed (auto simp: ref_ok_def bindE_eq_Inr)
  with Cons show ?case by (auto simp: list_all2_Cons1)
qed auto

definition accepted ::
    "('db, 'txn, 'item, 'key) env \<Rightarrow> (u64, 'key) gmap \<Rightarrow> SignedData \<Rightarrow> Block \<Rightarrow> blockData \<Rightarrow> bool" where
  "accepted E keys sd block bd \<longleftrightarrow> uBlock (eP E) (Data sd) = Inr block \<and>
     bd_id bd = \<lparr>Hash = eSha E (Data sd), Node = bNode block, Round = bRound block\<rparr> \<and>
     (\<exists>key enc. map_of keys (bNode block) = Some key \<and>
        mBlockReference (eP E) \<lparr>refHash = eSha E (Data sd), refNode = bNode block, refRound = bRound block\<rparr> = Inr enc \<and>
        eVerify E key enc (Signature sd) \<and> bd_ref bd = \<lparr>Data = enc, Signature = Signature sd\<rparr> \<and>
        check_previous E key block = Inr (bd_prev bd) \<and>
        check_references E keys (bNode block) (References block) = Inr (bd_deps bd))"

lemma svc_setBlock_Inr: "svc_setBlock E i sd s = Inr s' \<longleftrightarrow>
    (\<exists>st. store_setBlock (eB E) (eP E) i sd (s_store s) = Inr st \<and> s' = s\<lparr>s_store := st\<rparr>)"
  by (cases "store_setBlock (eB E) (eP E) i sd (s_store s)") (simp_all add: svc_setBlock_def, blast)

lemma processBlock_Inr:
  "svc_processBlock E sd s = Inr (r, s') \<longleftrightarrow>
     (\<exists>block bd st. accepted E (s_keys s) sd block bd \<and> r = bRound block \<and>
        store_setBlock (eB E) (eP E) (bd_id bd) sd (s_store s) = Inr st \<and> s' = enqueue bd (s\<lparr>s_store := st\<rparr>))"
  (is "?L = ?R")
proof
  assume L: ?L
  then obtain block where b: "uBlock (eP E) (Data sd) = Inr block"
    by (cases "uBlock (eP E) (Data sd)") (simp_all add: svc_processBlock_def)
  with L obtain key where k: "uBlock (eP E) (Data sd) = Inr block" "map_of (s_keys s) (bNode block) = Some key"
    by (cases "map_of (s_keys s) (bNode block)") (simp_all add: svc_processBlock_def)
  let ?i = "\<lparr>Hash = eSha E (Data sd), Node = bNode block, Round = bRound block\<rparr>"
  from L show ?R
    unfolding svc_processBlock_def k bindE_Inr option.case Let_def
  proof (elim bindE_InrE guard_InrE)
    fix enc prevID deps s1
    assume a: "rewordE ''broadcast: unable to encode block reference''
          (mBlockReference (eP E) \<lparr>refHash = eSha E (Data sd), refNode = bNode block, refRound = bRound block\<rparr>) = Inr enc"
      "eVerify E key enc (Signature sd)" "check_previous E key block = Inr prevID"
      "check_references E (s_keys s) (bNode block) (References block) = Inr deps"
      and st: "orFatal ''Could not set received block'' (svc_setBlock E ?i sd s) = Inr s1"
      and r: "Inr (bRound block, enqueue \<lparr>bd_deps = deps, bd_id = ?i, bd_prev = prevID,
        bd_ref = \<lparr>Data = enc, Signature = Signature sd\<rparr>\<rparr> s1) = Inr (r, s')"
    let ?bd = "\<lparr>bd_deps = deps, bd_id = ?i, bd_prev = prevID, bd_ref = \<lparr>Data = enc, Signature = Signature sd\<rparr>\<rparr>"
    from st obtain st where "store_setBlock (eB E) (eP E) ?i sd (s_store s) = Inr st" "s1 = s\<lparr>s_store := st\<rparr>"
      unfolding orFatal_Inr svc_setBlock_Inr by blast
    moreover from r have "r = bRound block" "s' = enqueue ?bd s1" unfolding sum.inject prod.inject by blast+
    ultimately show ?R using a k by (intro exI [of _ block] exI [of _ ?bd] exI [of _ st]) (simp add: accepted_def)
  qed
next
  assume ?R
  then obtain block bd st where a: "accepted E (s_keys s) sd block bd" "r = bRound block"
    "store_setBlock (eB E) (eP E) (bd_id bd) sd (s_store s) = Inr st" "s' = enqueue bd (s\<lparr>s_store := st\<rparr>)" by blast
  obtain deps i prev ref where bd: "bd = \<lparr>bd_deps = deps, bd_id = i, bd_prev = prev, bd_ref = ref\<rparr>" by (cases bd)
  from a show ?L unfolding bd by (clarsimp simp: svc_processBlock_def accepted_def svc_setBlock_def)
qed

text \<open>The store decodes an accepted block to the same data.\<close>

lemma reference_ids_ok: "list_all2 (\<lambda>sref i. ref_ok E keys sref i \<and> Node i \<noteq> node) srefs deps \<Longrightarrow> reference_ids (eP E) srefs = Inr deps"
  by (induction rule: list_all2_induct) (auto simp: ref_ok_def block_ref_id_def)

lemma accepted_blockData: "accepted E keys sd block bd \<Longrightarrow> getBlockData (eP E) (eSha E) sd = Inr bd"
  by (cases bd)
    (auto simp: accepted_def getBlockData_def Let_def check_previous_def check_references_spec bindE_eq_Inr block_ref_id_def
      dest: reference_ids_ok split: if_splits option.splits)

definition authentic :: "('db, 'txn, 'item, 'key) env \<Rightarrow> (u64, 'key) gmap \<Rightarrow> blockData \<Rightarrow> bool" where
  "authentic E keys bd \<longleftrightarrow> ref_ok E keys (bd_ref bd) (bd_id bd)"

lemma accepted_authentic: "wire_codec (eP E) \<Longrightarrow> accepted E keys sd block bd \<Longrightarrow> authentic E keys bd"
proof -
  assume w: "wire_codec (eP E)" and a: "accepted E keys sd block bd"
  have "uBlockReference (eP E) enc = Inr r" if "mBlockReference (eP E) r = Inr enc" for r enc
    using w that by (metis Inr_inject wire_codec_def)
  with a show "authentic E keys bd" by (auto simp: accepted_def authentic_def ref_ok_def block_ref_id_def)
qed

section \<open>The blocks in the dependency graph\<close>

text \<open>Every block that the graph holds is one of those handed to it.\<close>

definition dg_within :: "blockData set \<Rightarrow> depgraph \<Rightarrow> bool" where
  "dg_within A d \<longleftrightarrow> set (dg_in d) \<subseteq> A \<and> ran (map_of (dg_pending d)) \<subseteq> A \<and> set (dg_blocks d) \<subseteq> A"

lemma isIncluded_within: "isIncluded lk i d = Inr (inc, d') \<Longrightarrow> dg_within A d' = dg_within A d"
  by (auto simp: isIncluded_def dg_within_def split: option.splits sum.splits)

lemma missing_deps_within: "missing_deps lk i deps d acc = Inr (r, d') \<Longrightarrow> dg_within A d' = dg_within A d"
  by (induction deps arbitrary: d acc)
    (auto simp: bindE_eq_Inr dest!: isIncluded_within [of lk _ _ _ _ A] split: if_splits)

lemma addPending_within: "dg_within A d \<Longrightarrow> b \<in> A \<Longrightarrow> dg_within A (addPending b deps d)"
  by (auto simp: dg_within_def ran_def)

lemma processBlock_within:
  assumes "dg_within A d" "b \<in> A" "Depgraph.processBlock lk b d = Inr (ok, d')"
  shows "dg_within A d'"
proof -
  obtain inc d1 where d1: "isIncluded lk (bd_id b) d = Inr (inc, d1)"
    using assms(3) by (cases "isIncluded lk (bd_id b) d") (auto simp: Depgraph.processBlock_def)
  have w1: "dg_within A d1" using isIncluded_within [OF d1] assms(1) by simp
  show ?thesis
  proof (cases inc)
    case False
    then obtain deps0 d2 deps d3 where
      d2: "(if Valid (bd_prev b) then bindE (isIncluded lk (bd_prev b) d1) (\<lambda>(inc, d2).
          if inc then Inr ([], d2) else bindE (log_missing (bd_id b) (bd_prev b)) (\<lambda>_. Inr ([bd_prev b], d2)))
        else Inr ([], d1)) = Inr (deps0, d2)" and
      d3: "missing_deps lk (bd_id b) (bd_deps b) d2 deps0 = Inr (deps, d3)" and
      d': "(if deps \<noteq> [] then Inr (False, addPending b deps d3) :: (bool \<times> depgraph) res
        else (let d4 = markIncluded (bd_id b) d3 in Inr (True, d4\<lparr>dg_blocks := dg_blocks d4 @ [b]\<rparr>))) = Inr (ok, d')"
      using assms(3) d1 by (simp add: Depgraph.processBlock_def bindE_eq_Inr) (elim exE conjE, rule that, assumption+)
    have "dg_within A d2" using d2 w1 isIncluded_within [of lk "bd_prev b" d1]
      by (auto simp: bindE_eq_Inr split: if_splits)
    then have "dg_within A d3" using missing_deps_within [OF d3] by simp
    with d' assms(2) addPending_within [of A d3 b deps] show ?thesis
      by (auto simp: Let_def markIncluded_def dg_within_def split: if_splits)
  qed (use assms(3) d1 w1 in \<open>auto simp: Depgraph.processBlock_def\<close>)
qed

lemma visit_within:
  "visit_revdeps lk revdeps P seen d = Inr (P', seen', d') \<Longrightarrow> dg_within A d \<Longrightarrow> dg_within A d'"
proof (induction revdeps arbitrary: P seen d)
  case (Cons r revdeps)
  show ?case
  proof (cases "r \<in> seen")
    case False
    with Cons.prems(1) obtain b ok d1 where b: "map_of (dg_pending d) r = Some b" "Depgraph.processBlock lk b d = Inr (ok, d1)"
      by (auto simp: bindE_eq_Inr split: option.splits)
    have "b \<in> A" using Cons.prems(2) b(1) by (auto simp: dg_within_def ran_def)
    from processBlock_within [OF Cons.prems(2) this b(2)] Cons False b show ?thesis by (auto split: if_splits)
  qed (use Cons in auto)
qed simp

lemma finish_within: "dg_within A d \<Longrightarrow> dg_within A (finish_visit first nxt d)"
  by (auto simp: dg_within_def finish_visit_def Let_def ran_def split: if_splits)

lemma drain_within: "drain lk first P seen d = Some (Inr d') \<Longrightarrow> dg_within A d \<Longrightarrow> dg_within A d'"
proof -
  have "\<forall>d'. r = Inr d' \<longrightarrow> dg_within A d \<longrightarrow> dg_within A d'" if "drain lk first P seen d = Some r" for r
    using that
  proof (rule drain.raw_induct [rotated, where P = "\<lambda>lk first P seen d r. \<forall>d'. r = Inr d' \<longrightarrow> dg_within A d \<longrightarrow> dg_within A d'"], goal_cases)
    case (1 drain lk first P seen d r)
    show ?case
    proof (cases P)
      case (Cons nxt rest)
      then show ?thesis
        using 1 visit_within [of lk "await_list d nxt" rest seen d _ _ _ A] finish_within [of A _ first nxt]
        by (auto split: sum.splits)
    qed (use 1 in auto)
  qed
  then show "drain lk first P seen d = Some (Inr d') \<Longrightarrow> dg_within A d \<Longrightarrow> dg_within A d'" by blast
qed

lemma process_step_within:
  assumes "process_step lk n d = Some (Inr d')" "dg_within A d"
  shows "dg_within A d'"
proof -
  have p: "dg_within A (prune_icache n d)" using assms(2) by (simp add: dg_within_def)
  show ?thesis
  proof (cases "dg_in (prune_icache n d)")
    case (Cons b rest)
    let ?d = "(prune_icache n d)\<lparr>dg_in := rest\<rparr>"
    have w: "dg_within A ?d" "b \<in> A" using p Cons by (auto simp: dg_within_def)
    obtain ok d1 where "Depgraph.processBlock lk b ?d = Inr (ok, d1)"
      using assms(1) Cons by (cases "Depgraph.processBlock lk b ?d") (auto simp: process_step_def process_info_def)
    with assms(1) Cons processBlock_within [OF w this] show ?thesis
      by (auto simp: process_step_def process_info_def intro: drain_within split: if_splits)
  qed (use assms(1) p in \<open>auto simp: process_step_def\<close>)
qed

section \<open>Starting\<close>

text \<open>The buffer for transactions has the size of the limit and holds the given transactions.\<close>

definition tx_holds :: "TransactionData list \<Rightarrow> ('db, 'key) Service \<Rightarrow> bool" where
  "tx_holds xs s \<longleftrightarrow> int (length (s_txData s)) = s_txSizeLimit s \<and> s_txIdx s \<le> length (s_txData s) \<and>
     take (s_txIdx s) (s_txData s) = concat (map tx_bytes xs) \<and> s_txCount s = int (length xs) \<and>
     (\<forall>x\<in>set xs. length (tdData x) < 2 ^ 32)"

lemma tx_holds_frame [simp]:
  "tx_holds xs (s\<lparr>s_store := st\<rparr>) = tx_holds xs s" "tx_holds xs (s\<lparr>s_interpreted := i\<rparr>) = tx_holds xs s" "tx_holds xs (s\<lparr>s_calls := cs\<rparr>) = tx_holds xs s"
  "tx_holds xs (s\<lparr>s_entries := es\<rparr>) = tx_holds xs s" "tx_holds xs (s\<lparr>s_graph := gr\<rparr>) = tx_holds xs s" "tx_holds xs (s\<lparr>s_cb := cb\<rparr>) = tx_holds xs s"
  "tx_holds xs (s\<lparr>s_received := rm\<rparr>) = tx_holds xs s" "tx_holds xs (s\<lparr>s_sent := sn\<rparr>) = tx_holds xs s" "tx_holds xs (s\<lparr>s_depgraph := d\<rparr>) = tx_holds xs s"
  "tx_holds xs (s\<lparr>s_ownBlocks := ob\<rparr>) = tx_holds xs s"
  by (simp_all add: tx_holds_def)

lemma load_fields_Inr:
  assumes "load_fields E grow tn s = Inr (consumed, s')"
  shows "s_store s' = s_store s" "s_keys s' = s_keys s" "s_nodeID s' = s_nodeID s" "s_entries s' = []"
    "s_depgraph s' = newDepgraph (s_nodeID s)" "s_calls s' = s_calls s" "s_cb s' = s_cb s"
    "s_ownBlocks s' = s_ownBlocks s" "tx_holds xs s' = tx_holds xs s" "s_txSizeLimit s' = s_txSizeLimit s"
    "orDefault ''Could not load latest round data from DB'' (0, [], None)
       (bindE (store_getLastRoundData (eB E) (eP E) (s_store s)) (\<lambda>(round, hash, ref). Inr (round, hash, Some ref))) =
     Inr (s_round s', s_prevhash s', s_prevref s')"
    "orDefault ''Could not load last interpreted from DB'' (0, 0) (store_getLastInterpreted (eB E) (s_store s)) =
     Inr (s_interpreted s', consumed)"
proof -
  obtain rd hs pr it co rm sn where l:
    "orDefault ''Could not load latest round data from DB'' (0, [], None)
       (bindE (store_getLastRoundData (eB E) (eP E) (s_store s)) (\<lambda>(round, hash, ref). Inr (round, hash, Some ref))) = Inr (rd, hs, pr)"
    "orDefault ''Could not load last interpreted from DB'' (0, 0) (store_getLastInterpreted (eB E) (s_store s)) = Inr (it, co)"
    "(co, s\<lparr>s_depgraph := newDepgraph (s_nodeID s),
        s_graph := New grow \<lparr>LastInterpreted = it, Peers = sort (s_nodeID s # s_peers s),
          SelfID = s_nodeID s, TotalNodes = tn\<rparr>,
        s_entries := [], s_interpreted := it, s_prevhash := hs, s_prevref := pr,
        s_received := rm, s_round := rd, s_sent := sn\<rparr>) = (consumed, s')"
    using assms unfolding load_fields_def Let_def
    by (elim bindE_InrE pair_caseE, hypsubst_thin) (unfold sum.inject, rule that)
  from l(3) have e: "consumed = co" "s' = s\<lparr>s_depgraph := newDepgraph (s_nodeID s),
        s_graph := New grow \<lparr>LastInterpreted = it, Peers = sort (s_nodeID s # s_peers s),
          SelfID = s_nodeID s, TotalNodes = tn\<rparr>,
        s_entries := [], s_interpreted := it, s_prevhash := hs, s_prevref := pr,
        s_received := rm, s_round := rd, s_sent := sn\<rparr>" by blast+
  show "s_store s' = s_store s" "s_keys s' = s_keys s" "s_nodeID s' = s_nodeID s" "s_entries s' = []"
    "s_depgraph s' = newDepgraph (s_nodeID s)" "s_calls s' = s_calls s" "s_cb s' = s_cb s"
    "s_ownBlocks s' = s_ownBlocks s" "tx_holds xs s' = tx_holds xs s" "s_txSizeLimit s' = s_txSizeLimit s"
    unfolding e(2) by (simp_all add: tx_holds_def)
  show "orDefault ''Could not load latest round data from DB'' (0, [], None)
       (bindE (store_getLastRoundData (eB E) (eP E) (s_store s)) (\<lambda>(round, hash, ref). Inr (round, hash, Some ref))) =
     Inr (s_round s', s_prevhash s', s_prevref s')" using l(1) unfolding e(2) by simp
  show "orDefault ''Could not load last interpreted from DB'' (0, 0) (store_getLastInterpreted (eB E) (s_store s)) =
     Inr (s_interpreted s', consumed)" using l(2) unfolding e by simp
qed

lemma fold_graph_add: "fold graph_add xs s = s\<lparr>s_entries := s_entries s @ xs\<rparr>"
  by (induction xs arbitrary: s) (simp_all add: graph_add_def)

lemma replay_Inr:
  assumes "replayGraphChanges E from s = Some (Inr s')"
  obtains bds added where "store_getNotIncluded (eB E) (eP E) (eSha E) (s_store s) = Inr bds"
    "replay_batches (eB E) (s_nodeID s) 100 from (s_store s) [] = Some (added, None)"
    "s' = s\<lparr>s_depgraph := fold dg_add bds (s_depgraph s), s_entries := s_entries s @ added\<rparr>"
proof -
  obtain bds where b: "store_getNotIncluded (eB E) (eP E) (eSha E) (s_store s) = Inr bds"
    using assms by (cases "store_getNotIncluded (eB E) (eP E) (eSha E) (s_store s)")
      (simp_all add: replayGraphChanges_def orFatal_def split: failure.splits)
  let ?r = "replay_batches (eB E) (s_nodeID s) 100 from (s_store s) []"
  obtain added where r: "?r = Some (added, None)"
  proof (cases ?r)
    case (Some p)
    moreover obtain xs e where "p = (xs, e)" by (cases p)
    moreover have "e = None"
      using assms calculation by (cases e) (simp_all add: replayGraphChanges_def b orFatal_def split: failure.splits)
    ultimately show ?thesis using that by simp
  qed (use assms in \<open>simp add: replayGraphChanges_def b\<close>)
  have "s' = s\<lparr>s_depgraph := fold dg_add bds (s_depgraph s), s_entries := s_entries s @ added\<rparr>"
    using assms by (simp add: replayGraphChanges_def b r fold_graph_add)
  with b r that show thesis by blast
qed

lemma svc_New_Inr:
  assumes "svc_New E grow (Inr d) cfg tn = Some (Inr s)"
  obtains bds consumed where "s_store s = \<lparr>closed = False, db = d, nodeCount = length (cfg_Peers cfg) + 1\<rparr>"
    "s_keys s = cfg_Keys cfg" "s_nodeID s = cfg_NodeID cfg" "\<not> s_cb s" "s_calls s = []"
    "s_ownBlocks s = \<lparr>ob_data = [], ob_latest = 0\<rparr>" "tx_holds [] s"
    "ByteSize_Int (BlockTransactionsSizeLimit (cfg_NetConsensus cfg)) = Inr (s_txSizeLimit s)"
    "store_getNotIncluded (eB E) (eP E) (eSha E) (s_store s) = Inr bds"
    "s_depgraph s = fold dg_add bds (newDepgraph (cfg_NodeID cfg))"
    "orDefault ''Could not load latest round data from DB'' (0, [], None)
       (bindE (store_getLastRoundData (eB E) (eP E) (s_store s)) (\<lambda>(round, hash, ref). Inr (round, hash, Some ref))) =
     Inr (s_round s, s_prevhash s, s_prevref s)"
    "orDefault ''Could not load last interpreted from DB'' (0, 0) (store_getLastInterpreted (eB E) (s_store s)) =
     Inr (s_interpreted s, consumed)"
    "replay_batches (eB E) (cfg_NodeID cfg) 100 consumed (s_store s) [] = Some (s_entries s, None)"
proof -
  obtain rl tl where tl: "ByteSize_Int (BlockTransactionsSizeLimit (cfg_NetConsensus cfg)) = Inr tl" and
    n: "loadState E grow tn (new_service grow d cfg tn rl tl) = Some (Inr s)"
    using assms
    by (cases "ByteSize_Int (BlockReferencesSizeLimit (cfg_NetConsensus cfg))";
        cases "ByteSize_Int (BlockTransactionsSizeLimit (cfg_NetConsensus cfg))") (simp_all add: svc_New_def)
  let ?s0 = "new_service grow d cfg tn rl tl"
  obtain consumed s1 where l: "load_fields E grow tn ?s0 = Inr (consumed, s1)" and
    r: "replayGraphChanges E consumed s1 = Some (Inr s)"
    using n unfolding loadState_def by (cases "load_fields E grow tn ?s0") (simp_all split: prod.splits)
  note s1 = load_fields_Inr [OF l]
  obtain bds added where b: "store_getNotIncluded (eB E) (eP E) (eSha E) (s_store s1) = Inr bds"
    "replay_batches (eB E) (s_nodeID s1) 100 consumed (s_store s1) [] = Some (added, None)"
    "s = s1\<lparr>s_depgraph := fold dg_add bds (s_depgraph s1), s_entries := s_entries s1 @ added\<rparr>"
    using r by (rule replay_Inr)
  have s0: "s_store ?s0 = \<lparr>closed = False, db = d, nodeCount = length (cfg_Peers cfg) + 1\<rparr>"
    "s_keys ?s0 = cfg_Keys cfg" "s_nodeID ?s0 = cfg_NodeID cfg" "s_calls ?s0 = []" "\<not> s_cb ?s0"
    "s_ownBlocks ?s0 = \<lparr>ob_data = [], ob_latest = 0\<rparr>" "tx_holds [] ?s0" "s_txSizeLimit ?s0 = tl"
    using ByteSize_Int_range [OF tl] by (simp_all add: new_service_def tx_holds_def)
  show thesis
    by (rule that [of bds consumed]) (use s1 b(1,2) s0 tl in \<open>simp_all add: b(3)\<close>)
qed

section \<open>Steps of the service\<close>

text \<open>
  \<open>R\<close> collects the blocks handed to the dependency graph and \<open>X\<close> the transactions accepted since the last
  block was made. The process may stop between any two steps and
  start again on its database; a block is handed to the graph again when it was not included.
\<close>

definition newly :: "add_result \<Rightarrow> bytes \<Rightarrow> u64 \<Rightarrow> TransactionData list" where
  "newly a tx fee = (if a = Added then [\<lparr>tdData = tx, tdFee = fee\<rparr>] else [])"

inductive svc_reach ::
    "('db, 'txn, 'item, 'key) env \<Rightarrow> ('db \<Rightarrow> bytes \<rightharpoonup> bytes) \<Rightarrow> (nat \<Rightarrow> nat) \<Rightarrow> 'key ServiceCfg \<Rightarrow> u64 \<Rightarrow>
     blockData list \<Rightarrow> TransactionData list \<Rightarrow> genVars \<Rightarrow> ('db, 'key) Service \<Rightarrow> bool"
  for E :: "('db, 'txn, 'item, 'key) env" and c :: "'db \<Rightarrow> bytes \<rightharpoonup> bytes" and grow :: "nat \<Rightarrow> nat"
    and cfg :: "'key ServiceCfg" and tn :: u64 where
  start: "c d = Map.empty \<Longrightarrow> svc_New E grow (Inr d) cfg tn = Some (Inr s) \<Longrightarrow>
    svc_reach E c grow cfg tn (dg_in (s_depgraph s)) [] (gen_start (cfg_RateLimit cfg) s) s"
| restart: "svc_reach E c grow cfg tn R X g s \<Longrightarrow> svc_New E grow (Inr (db (s_store s))) cfg tn = Some (Inr s') \<Longrightarrow>
    svc_reach E c grow cfg tn (R @ dg_in (s_depgraph s')) [] (gen_start (cfg_RateLimit cfg) s') s'"
| receive: "svc_reach E c grow cfg tn R X g s \<Longrightarrow> svc_processBlock E sd s = Inr (r, s') \<Longrightarrow>
    dg_in (s_depgraph s') = dg_in (s_depgraph s) @ bs \<Longrightarrow> svc_reach E c grow cfg tn (R @ bs) X g s'"
| process: "svc_reach E c grow cfg tn R X g s \<Longrightarrow> depgraph_step E n s = Some (Inr s') \<Longrightarrow> svc_reach E c grow cfg tn R X g s'"
| make: "svc_reach E c grow cfg tn R X g s \<Longrightarrow> genBlocks_step E (cfg_RateLimit cfg) drifted g s = Inr (g', s') \<Longrightarrow>
    svc_reach E c grow cfg tn R [] g' s'"
| interpret_entry: "svc_reach E c grow cfg tn R X g s \<Longrightarrow> interpret_step E s = Inr s' \<Longrightarrow> svc_reach E c grow cfg tn R X g s'"
| transaction: "svc_reach E c grow cfg tn R X g s \<Longrightarrow> AddTransaction tx fee s = Inr (a, s') \<Longrightarrow>
    svc_reach E c grow cfg tn R (X @ newly a tx fee) g s'"
| read_own: "svc_reach E c grow cfg tn R X g s \<Longrightarrow> svc_getOwnBlock E r s = Inr (b, s') \<Longrightarrow> svc_reach E c grow cfg tn R X g s'"
| mark: "svc_reach E c grow cfg tn R X g s \<Longrightarrow> svc_reach E c grow cfg tn R X g (markSent p r s)"
| filled: "svc_reach E c grow cfg tn R X g s \<Longrightarrow>
    svc_reach E c grow cfg tn R X g (s\<lparr>s_received := rm_setSequence p r (s_received s)\<rparr>)"
| save_received: "svc_reach E c grow cfg tn R X g s \<Longrightarrow> writeReceivedMap_tick E s = Inr s' \<Longrightarrow> svc_reach E c grow cfg tn R X g s'"
| save_sent: "svc_reach E c grow cfg tn R X g s \<Longrightarrow> writeSentMap_tick E s = Inr s' \<Longrightarrow> svc_reach E c grow cfg tn R X g s'"
| acknowledge: "svc_reach E c grow cfg tn R X g s \<Longrightarrow> Acknowledge E r s = Inr s' \<Longrightarrow> svc_reach E c grow cfg tn R X g s'"
| register: "svc_reach E c grow cfg tn R X g s \<Longrightarrow> Register E s = Some (Inr s') \<Longrightarrow> svc_reach E c grow cfg tn R X g s'"

text \<open>
  Most steps are quiet: they leave alone what the blocks of the node depend on, and write nothing to
  the store but interpreted rounds, acknowledgements and the maps of the peers.
\<close>

fun other_write :: "store_write \<Rightarrow> bool" where
  "other_write (WriteBlock i sd) = False"
| "other_write (WriteOwn sd ref g) = False"
| "other_write _ = True"

definition quiet :: "('db, 'txn, 'item, 'key) env \<Rightarrow> TransactionData list \<Rightarrow> ('db, 'key) Service \<Rightarrow> ('db, 'key) Service \<Rightarrow> bool" where
  "quiet E new s s' \<longleftrightarrow> s_keys s' = s_keys s \<and> s_nodeID s' = s_nodeID s \<and> s_round s' = s_round s \<and>
     s_prevref s' = s_prevref s \<and> s_prevhash s' = s_prevhash s \<and> s_depgraph s' = s_depgraph s \<and>
     s_ownBlocks s' = s_ownBlocks s \<and> s_txSizeLimit s' = s_txSizeLimit s \<and> (\<forall>xs. tx_holds xs s \<longrightarrow> tx_holds (xs @ new) s') \<and>
     (\<exists>ws. list_all other_write ws \<and> foldE (apply_write (eB E) (eP E)) ws (s_store s) = Inr (s_store s'))"

lemma quiet_refl [simp]: "quiet E [] s s"
  unfolding quiet_def by (intro conjI refl impI exI [of _ "[]"]) simp_all

lemma quiet_trans: "quiet E [] s s' \<Longrightarrow> quiet E [] s' s'' \<Longrightarrow> quiet E [] s s''"
proof -
  assume a: "quiet E [] s s'" "quiet E [] s' s''"
  then obtain ws ws' where "list_all other_write ws" "foldE (apply_write (eB E) (eP E)) ws (s_store s) = Inr (s_store s')"
    "list_all other_write ws'" "foldE (apply_write (eB E) (eP E)) ws' (s_store s') = Inr (s_store s'')"
    unfolding quiet_def by blast
  then have "\<exists>ws. list_all other_write ws \<and> foldE (apply_write (eB E) (eP E)) ws (s_store s) = Inr (s_store s'')"
    by (intro exI [of _ "ws @ ws'"]) (simp add: foldE_append)
  with a show "quiet E [] s s''" unfolding quiet_def by simp
qed

lemma quiet_same: "s_store s' = s_store s \<Longrightarrow> s_keys s' = s_keys s \<Longrightarrow> s_nodeID s' = s_nodeID s \<Longrightarrow> s_round s' = s_round s \<Longrightarrow>
     s_prevref s' = s_prevref s \<Longrightarrow> s_prevhash s' = s_prevhash s \<Longrightarrow> s_depgraph s' = s_depgraph s \<Longrightarrow>
     s_ownBlocks s' = s_ownBlocks s \<Longrightarrow> s_txSizeLimit s' = s_txSizeLimit s \<Longrightarrow> (\<And>xs. tx_holds xs s \<Longrightarrow> tx_holds xs s') \<Longrightarrow> quiet E [] s s'"
  unfolding quiet_def by (intro conjI impI exI [of _ "[]"]) simp_all

lemma quiet_write:
  assumes "other_write w" "orElse (s_store s) (apply_write (eB E) (eP E) w (s_store s)) = Inr st"
  shows "quiet E [] s (s\<lparr>s_store := st\<rparr>)"
proof (cases "apply_write (eB E) (eP E) w (s_store s)")
  case (Inr x)
  with assms show ?thesis unfolding quiet_def by (intro conjI impI exI [of _ "[w]"]) (simp_all add: orElse_def)
next
  case (Inl e)
  with assms have "st = s_store s" by (simp add: orElse_def split: failure.splits)
  then show ?thesis by simp
qed

lemma quiet_callback: "blockmaniaCallback E data s = Inr s' \<Longrightarrow> quiet E [] s s'"
  unfolding blockmaniaCallback_def Let_def
proof (elim bindE_InrE)
  fix st assume st: "orElse (s_store s) (store_setInterpreted (eB E) data (s_store s)) = Inr st"
    and r: "(if \<not> s_cb (s\<lparr>s_store := st\<rparr>) then Inr (s\<lparr>s_store := st\<rparr>\<lparr>s_interpreted := iRound data\<rparr>)
      else bindE (svc_getBlocks E (iBlocks data) (s\<lparr>s_store := st\<rparr>)) (\<lambda>blocks.
        Inr (s\<lparr>s_store := st\<rparr>\<lparr>s_calls := s_calls (s\<lparr>s_store := st\<rparr>) @ [(iRound data, blocks)]\<rparr>))) = Inr s'"
  have q: "quiet E [] s (s\<lparr>s_store := st\<rparr>)" using quiet_write [of "WriteInterpreted data"] st by simp
  have "quiet E [] (s\<lparr>s_store := st\<rparr>) s'"
    using r by (cases "svc_getBlocks E (iBlocks data) (s\<lparr>s_store := st\<rparr>)")
      (simp_all split: if_splits; hypsubst_thin; intro quiet_same; simp)+
  with q show "quiet E [] s s'" by (rule quiet_trans)
qed

interpretation callbacks: loop_invariant "blockmaniaCallback E" "\<lambda>_. True" "quiet E [] s0" for E s0
  by unfold_locales (blast intro: quiet_trans quiet_callback)

lemma quiet_interpret: "interpret_step E s = Inr s' \<Longrightarrow> quiet E [] s s'"
proof (cases "s_entries s")
  case (Cons e es)
  assume "interpret_step E s = Inr s'"
  then obtain g where "run_step e (s_graph s) = Inr g" and
    f: "foldE (blockmaniaCallback E) (drop (length (g_delivered (s_graph s))) (g_delivered g)) (s\<lparr>s_entries := es, s_graph := g\<rparr>) = Inr s'"
    unfolding interpret_step_def Cons list.case by (elim bindE_InrE)
  have "quiet E [] (s\<lparr>s_entries := es, s_graph := g\<rparr>) s'" using callbacks.foldE_inv [OF quiet_refl _ f] by simp
  moreover have "quiet E [] s (s\<lparr>s_entries := es, s_graph := g\<rparr>)" by (intro quiet_same) simp_all
  ultimately show "quiet E [] s s'" by (rule quiet_trans [rotated])
qed (simp add: interpret_step_def)

lemma read_own_same:
  assumes "svc_getOwnBlock E r s = Inr (b, s')"
  obtains "s' = s" "ob_get r (s_ownBlocks s) = Some b"
  | "store_getOwnBlock (eB E) (eP E) r (s_store s) = Inr b" "s' = s\<lparr>s_ownBlocks := ob_set r b (s_ownBlocks s)\<rparr>"
  using assms
  by (cases "ob_get r (s_ownBlocks s)"; cases "store_getOwnBlock (eB E) (eP E) r (s_store s)") (simp_all add: svc_getOwnBlock_def)

lemma put_at_Inr: "put_at i v buf = Inr buf' \<longleftrightarrow> i + length v \<le> length buf \<and> buf' = take i buf @ v @ drop (i + length v) buf"
  by (auto simp: put_at_def)

lemma AddTransaction_Inr:
  assumes "AddTransaction tx fee s = Inr (a, s')"
  obtains "a \<noteq> Added" "s' = s"
  | buf1 buf2 buf3 where "a = Added" "length tx < 2 ^ 32" "int (s_txIdx s + length tx + 100) \<le> s_txSizeLimit s"
    "put_at (s_txIdx s) (PutUint64 fee) (s_txData s) = Inr buf1"
    "put_at (s_txIdx s + 8) (PutUint32 (of_nat (length tx))) buf1 = Inr buf2"
    "copy_at (s_txIdx s + 12) tx buf2 = Inr buf3"
    "s' = s\<lparr>s_txData := buf3, s_txCount := s_txCount s + 1, s_txIdx := s_txIdx s + 12 + length tx\<rparr>"
proof (cases "length tx \<ge> 2 ^ 32 \<or> int (length tx) > s_txSizeLimit s \<or> s_txCount s = s_txCountLimit s \<or>
    int (s_txIdx s + length tx + 100) > s_txSizeLimit s")
  case True
  with assms have "a \<noteq> Added" "s' = s" by (auto simp: AddTransaction_def Let_def split: if_splits)
  then show ?thesis using that(1) by blast
next
  case False
  with assms have "bindE (put_at (s_txIdx s) (PutUint64 fee) (s_txData s)) (\<lambda>buf.
      bindE (put_at (s_txIdx s + 8) (PutUint32 (of_nat (length tx))) buf) (\<lambda>buf.
      bindE (copy_at (s_txIdx s + 12) tx buf) (\<lambda>buf.
      Inr (Added, s\<lparr>s_txData := buf, s_txCount := s_txCount s + 1, s_txIdx := s_txIdx s + 12 + length tx\<rparr>)))) = Inr (a, s')"
    by (simp add: AddTransaction_def Let_def)
  then show ?thesis
    by (elim bindE_InrE) (unfold sum.inject prod.inject, elim conjE, rule that(2), erule sym, use False in simp, use False in simp,
        assumption, assumption, assumption, erule sym)
qed

lemma transaction_written:
  assumes "put_at i (PutUint64 fee) buf = Inr buf1" "put_at (i + 8) (PutUint32 (of_nat (length tx))) buf1 = Inr buf2"
    "copy_at (i + 12) tx buf2 = Inr buf3" "i + 12 + length tx \<le> length buf"
  shows "length buf3 = length buf" "take (i + 12 + length tx) buf3 = take i buf @ tx_bytes \<lparr>tdData = tx, tdFee = fee\<rparr>"
  using assms by (auto simp: put_at_Inr copy_at_def Let_def tx_bytes_def min_def split: if_splits)

lemma quiet_transaction:
  assumes "AddTransaction tx fee s = Inr (a, s')"
  shows "quiet E (newly a tx fee) s s'"
  using assms
proof (rule AddTransaction_Inr)
  fix buf1 buf2 buf3
  assume a: "a = Added" "length tx < 2 ^ 32" "int (s_txIdx s + length tx + 100) \<le> s_txSizeLimit s"
    "put_at (s_txIdx s) (PutUint64 fee) (s_txData s) = Inr buf1"
    "put_at (s_txIdx s + 8) (PutUint32 (of_nat (length tx))) buf1 = Inr buf2" "copy_at (s_txIdx s + 12) tx buf2 = Inr buf3"
    and s': "s' = s\<lparr>s_txData := buf3, s_txCount := s_txCount s + 1, s_txIdx := s_txIdx s + 12 + length tx\<rparr>"
  have "tx_holds (xs @ newly a tx fee) s'" if "tx_holds xs s" for xs
    using that a(1-3) transaction_written [OF a(4-6)] by (auto simp: tx_holds_def newly_def s')
  then show "quiet E (newly a tx fee) s s'" unfolding quiet_def by (intro conjI allI impI exI [of _ "[]"]) (simp_all add: s')
qed (simp add: newly_def)

lemma quiet_mark: "quiet E [] s (markSent p r s)"
  by (intro quiet_same) (simp_all add: markSent_def)

lemma quiet_filled: "quiet E [] s (s\<lparr>s_received := rm\<rparr>)"
  by (intro quiet_same) simp_all

lemma quiet_written:
  assumes "other_write w"
    "bindE (orElse (s_store s) (apply_write (eB E) (eP E) w (s_store s))) (\<lambda>st. Inr (s\<lparr>s_store := st\<rparr>)) = Inr s'"
  shows "quiet E [] s s'"
  using assms(2) by (elim bindE_InrE) (unfold sum.inject, hypsubst, rule quiet_write [OF assms(1)])

lemma quiet_ticks:
  "writeReceivedMap_tick E s = Inr s' \<Longrightarrow> quiet E [] s s'" "writeSentMap_tick E s = Inr s' \<Longrightarrow> quiet E [] s s'"
  "Acknowledge E r s = Inr s' \<Longrightarrow> quiet E [] s s'"
  using quiet_written [of "WriteReceived (s_received s)"] quiet_written [of "WriteSent (s_sent s)"] quiet_written [of "WriteAck r"]
  by (simp_all add: writeReceivedMap_tick_def writeSentMap_tick_def Acknowledge_def)

lemma quiet_replay: "replay_rounds E i latest s = Some (Inr s') \<Longrightarrow> quiet E [] s s'"
proof -
  have "\<forall>s'. r = Inr s' \<longrightarrow> quiet E [] s s'" if "replay_rounds E i latest s = Some r" for r
    using that
  proof (rule replay_rounds.raw_induct [rotated, where P = "\<lambda>E i latest s r. \<forall>s'. r = Inr s' \<longrightarrow> quiet E [] s s'"], goal_cases)
    case (1 f E i latest s r)
    show ?case
    proof (cases "i \<le> latest")
      case True
      have q: "quiet E [] s (s\<lparr>s_calls := cs\<rparr>)" for cs by (intro quiet_same) simp_all
      show ?thesis
      proof (cases "orFatal ''Unable to load blocks for a round'' (store_getInterpreted (eB E) (eP E) i (s_store s))")
        case (Inr blocks)
        with True 1(2) have "f E (i + 1) latest (s\<lparr>s_calls := s_calls s @ [(i, blocks)]\<rparr>) = Some r" by simp
        from 1(1) [OF this] show ?thesis by (intro allI impI) (rule quiet_trans [OF q], simp)
      qed (use True 1(2) in auto)
    qed (use 1(2) in auto)
  qed
  then show "replay_rounds E i latest s = Some (Inr s') \<Longrightarrow> quiet E [] s s'" by blast
qed

lemma quiet_register: "Register E s = Some (Inr s') \<Longrightarrow> quiet E [] s s'"
proof -
  assume r: "Register E s = Some (Inr s')"
  obtain ack where "replay_rounds E (ack + 1) (s_interpreted s) (s\<lparr>s_cb := True\<rparr>) = Some (Inr s')"
    using r by (cases "orDefault ''Could not load latest acknowledged round from DB'' 0 (store_getDeliverAcknowledged (eB E) (s_store s))")
      (simp_all add: Register_def split: if_splits)
  moreover have "quiet E [] s (s\<lparr>s_cb := True\<rparr>)" by (intro quiet_same) simp_all
  ultimately show "quiet E [] s s'" by (blast intro: quiet_trans quiet_replay)
qed

lemmas quiet_steps = quiet_interpret quiet_transaction quiet_mark quiet_filled quiet_ticks quiet_register

section \<open>Making a block\<close>

abbreviation own_signed :: "('db, 'txn, 'item, 'key) env \<Rightarrow> bytes \<Rightarrow> bytes \<Rightarrow> SignedData" where
  "own_signed E data refData \<equiv> \<lparr>Data = data, Signature = eSign E refData\<rparr>"

lemma gen_frame [simp]:
  "gen_block r refs txs (s\<lparr>s_txCountLimit := l, s_depgraph := dg\<rparr>) = gen_block r refs txs s"
  "gen_graph h r refs (s\<lparr>s_txCountLimit := l, s_depgraph := dg, s_txCount := n, s_txIdx := i\<rparr>) = gen_graph h r refs s"
  by (simp_all add: gen_block_def gen_graph_def)

lemma svc_setOwnBlock_Inr:
  assumes "svc_setOwnBlock E block ref graph s = Inr s'"
  obtains st where "store_setOwnBlock (eB E) (eP E) block ref graph (s_store s) = Inr st"
    "s' = s\<lparr>s_ownBlocks := ob_set (Round (gBlock graph)) block (s_ownBlocks s), s_store := st\<rparr>"
  using assms by (cases "store_setOwnBlock (eB E) (eP E) block ref graph (s_store s)") (simp_all add: svc_setOwnBlock_def)

lemma genBlocks_Inr:
  assumes "genBlocks_step E rl drifted g s = Inr (g', s')"
  obtains refs dg txs data refData st where
    "Depgraph.getBlocks (s_refSizeLimit s) (s_depgraph s) = (refs, dg)"
    "gslice (s_txData s) 0 (s_txIdx s) = Inr txs"
    "mBlock (eP E) (gen_block (gv_round g + 1) refs txs s) = Inr data"
    "mBlockReference (eP E) \<lparr>refHash = eSha E data, refNode = s_nodeID s, refRound = gv_round g + 1\<rparr> = Inr refData"
    "store_setOwnBlock (eB E) (eP E) (own_signed E data refData) (own_signed E refData refData)
       (gen_graph (eSha E data) (gv_round g + 1) refs s) (s_store s) = Inr st"
    "gv_round g' = gv_round g + 1" "s_round s' = gv_round g + 1" "s_store s' = st" "s_prevhash s' = eSha E data"
    "s_prevref s' = Some (own_signed E refData refData)" "s_keys s' = s_keys s" "s_nodeID s' = s_nodeID s"
    "s_depgraph s' = fold (\<lambda>ref. actuallyIncluded (bd_id ref)) refs dg"
    "s_entries s' = s_entries s @ [gen_graph (eSha E data) (gv_round g + 1) refs s]"
    "s_txIdx s' = 0" "s_txCount s' = 0" "s_txData s' = s_txData s" "s_txSizeLimit s' = s_txSizeLimit s"
    "\<forall>r b. ob_get r (s_ownBlocks s') = Some b \<longrightarrow>
       (if r = gv_round g + 1 then b = own_signed E data refData else ob_get r (s_ownBlocks s) = Some b)"
proof -
  obtain refs dg where rd: "Depgraph.getBlocks (s_refSizeLimit s) (s_depgraph s) = (refs, dg)" by (rule prod.exhaust)
  let ?r = "gv_round g + 1" and ?rate = "next_rate rl drifted (gv_rate g)"
  let ?s1 = "s\<lparr>s_txCountLimit := ?rate, s_depgraph := dg\<rparr>"
  let ?s2 = "?s1\<lparr>s_txCount := 0, s_txIdx := 0\<rparr>"
  from assms show thesis
    unfolding genBlocks_step_def Let_def rd prod.case
  proof (elim bindE_InrE)
    fix txs data refData s3
    assume m: "gslice (s_txData ?s1) 0 (s_txIdx ?s1) = Inr txs"
      "orFatal ''Got unexpected error encoding latest block'' (mBlock (eP E) (gen_block ?r refs txs ?s1)) = Inr data"
      "orFatal ''Got unexpected error encoding latest block reference''
        (mBlockReference (eP E) \<lparr>refHash = eSha E data, refNode = s_nodeID ?s2, refRound = ?r\<rparr>) = Inr refData"
      and s3: "orFatal ''Could not write own block to the DB'' (svc_setOwnBlock E (own_signed E data refData)
        \<lparr>Data = refData, Signature = Signature (own_signed E data refData)\<rparr> (gen_graph (eSha E data) ?r refs ?s2) ?s2) = Inr s3"
      and r: "Inr (\<lparr>gv_rate = ?rate, gv_round = ?r\<rparr>, finish_round refs
        \<lparr>Data = refData, Signature = Signature (own_signed E data refData)\<rparr> (gen_graph (eSha E data) ?r refs ?s2) s3) = Inr (g', s')"
    let ?graph = "gen_graph (eSha E data) ?r refs s"
    from r have e: "g' = \<lparr>gv_rate = ?rate, gv_round = ?r\<rparr>" "s' = finish_round refs (own_signed E refData refData) ?graph s3"
      by simp_all
    have g: "gBlock ?graph = \<lparr>Hash = eSha E data, Node = s_nodeID s, Round = ?r\<rparr>" by (simp add: gen_graph_def)
    have "svc_setOwnBlock E (own_signed E data refData) (own_signed E refData refData) ?graph ?s2 = Inr s3"
      using s3 by simp
    then obtain st where "store_setOwnBlock (eB E) (eP E) (own_signed E data refData) (own_signed E refData refData)
         ?graph (s_store ?s2) = Inr st"
      "s3 = ?s2\<lparr>s_ownBlocks := ob_set (Round (gBlock ?graph)) (own_signed E data refData) (s_ownBlocks ?s2), s_store := st\<rparr>"
      by (rule svc_setOwnBlock_Inr)
    then have st: "store_setOwnBlock (eB E) (eP E) (own_signed E data refData) (own_signed E refData refData)
         ?graph (s_store s) = Inr st"
      "s3 = ?s2\<lparr>s_ownBlocks := ob_set ?r (own_signed E data refData) (s_ownBlocks s), s_store := st\<rparr>"
      by (simp_all add: g)
    have "\<forall>r b. ob_get r (s_ownBlocks s') = Some b \<longrightarrow>
       (if r = ?r then b = own_signed E data refData else ob_get r (s_ownBlocks s) = Some b)"
    proof (intro allI impI)
      fix r b assume o: "ob_get r (s_ownBlocks s') = Some b"
      have "ob_get r (ob_set ?r (own_signed E data refData) (s_ownBlocks s)) = Some b"
        using o ob_get_prune [of r 50 "ob_set ?r (own_signed E data refData) (s_ownBlocks s)" b]
        by (simp add: e(2) finish_round_def st(2) g graph_add_def Let_def split: if_splits)
      then show "if r = ?r then b = own_signed E data refData else ob_get r (s_ownBlocks s) = Some b"
        by (simp split: if_splits)
    qed
    then show thesis using m
      by (intro that [OF rd _ _ _ st(1)]) (simp_all add: e finish_round_def st(2) g graph_add_def Let_def)
  qed
qed

end
