(* ===== verification/ServiceInv.thy ===== *)
theory ServiceInv
  imports BroadcastInv
begin

text \<open>
  The invariant of a running service, over crashes and restarts: what the store holds was signed by the
  nodes it names, the own blocks have the rounds 1, 2, and so on, and the service continues from the last one.
\<close>

section \<open>The last own block\<close>

definition last_own :: "store_write list \<Rightarrow> (SignedData \<times> BlockGraph) option" where
  "last_own ws = fold (\<lambda>w l. case w of WriteOwn sd ref g \<Rightarrow> Some (ref, g) | _ \<Rightarrow> l) ws None"

lemma last_own_simps [simp]:
  "last_own [] = None"
  "last_own (ws @ [w]) = (case w of WriteOwn sd ref g \<Rightarrow> Some (ref, g) | _ \<Rightarrow> last_own ws)"
  by (simp_all add: last_own_def split: store_write.split)

lemma last_own_graph: "map_option snd (last_own ws) = (if own_graphs ws = [] then None else Some (last (own_graphs ws)))"
proof (induction ws rule: rev_induct)
  case (snoc w ws)
  then show ?case by (cases w) simp_all
qed simp

lemma last_own_write: "last_own ws = Some (ref, g) \<Longrightarrow> \<exists>sd. WriteOwn sd ref g \<in> set ws"
proof (induction ws rule: rev_induct)
  case (snoc w ws)
  then show ?case by (cases w) auto
qed simp

lemma content_last:
  "content enc ws [lastHashPrefix] = map_option (\<lambda>(ref, g). Hash (gBlock g)) (last_own ws)"
  "content enc ws [lastRoundPrefix] = map_option (\<lambda>(ref, g). PutUint64 (Round (gBlock g))) (last_own ws)"
  "content enc ws [lastBlockRefPrefix] = map_option (\<lambda>(ref, g). enc ref) (last_own ws)"
proof (induction ws rule: rev_induct)
  case (snoc w ws)
  { case 1 show ?case using snoc(1) by (cases w) (simp_all add: updated_last) }
  { case 2 show ?case using snoc(2) by (cases w) (simp_all add: updated_last) }
  { case 3 show ?case using snoc(3) by (cases w) (simp_all add: updated_last) }
qed simp_all

lemma last_round_stored:
  assumes B: "badger_ok B c tc" and P: "signed_codec P enc" and s: "stored c enc ws s"
  shows "store_getLastRoundData B P s = (case last_own ws of None \<Rightarrow> Inl ErrKeyNotFound
    | Some (ref, g) \<Rightarrow> Inr (Round (gBlock g), Hash (gBlock g), ref))"
proof -
  have P': "uSignedData P (enc sd) = Inr sd" for sd using P by (simp add: signed_codec_def)
  have t: "tc (Begin B (db s)) = content enc ws" "\<not> closed s"
    using s by (simp_all add: Begin_spec [OF B] stored_def)
  show ?thesis
    by (simp add: store_getLastRoundData_def View_def t read_value_spec [OF B] content_last P' split: option.split)
qed

section \<open>The invariant\<close>

fun write_auth :: "('db, 'txn, 'item, 'key) env \<Rightarrow> (u64, 'key) gmap \<Rightarrow> u64 \<Rightarrow> store_write \<Rightarrow> bool" where
  "write_auth E keys self (WriteBlock i sd) \<longleftrightarrow>
     (\<exists>bd. getBlockData (eP E) (eSha E) sd = Inr bd \<and> bd_id bd = i \<and> authentic E keys bd)"
| "write_auth E keys self (WriteOwn sd ref g) \<longleftrightarrow>
     (\<exists>bd. getBlockData (eP E) (eSha E) sd = Inr bd \<and> bd_id bd = gBlock g \<and> authentic E keys bd \<and>
        bd_ref bd = ref \<and> Node (gBlock g) = self)"
| "write_auth E keys self _ = True"

definition rounds_upto :: "nat \<Rightarrow> u64 list" where
  "rounds_upto n = map of_nat [1..<Suc n]"

lemma rounds_upto_simps [simp]: "rounds_upto 0 = []" "rounds_upto (Suc n) = rounds_upto n @ [of_nat (Suc n)]"
  by (simp_all add: rounds_upto_def)

definition chain_ok :: "store_write list \<Rightarrow> u64 \<Rightarrow> bytes \<Rightarrow> SignedData option \<Rightarrow> bool" where
  "chain_ok ws round prevhash prevref \<longleftrightarrow>
     map (\<lambda>g. Round (gBlock g)) (own_graphs ws) = rounds_upto (length (own_graphs ws)) \<and>
     round = of_nat (length (own_graphs ws)) \<and>
     (case last_own ws of None \<Rightarrow> prevref = None \<and> prevhash = []
      | Some (ref, g) \<Rightarrow> prevref = Some ref \<and> prevhash = Hash (gBlock g))"

definition svc_inv ::
    "('db, 'txn, 'item, 'key) env \<Rightarrow> ('db \<Rightarrow> bytes \<rightharpoonup> bytes) \<Rightarrow> (SignedData \<Rightarrow> bytes) \<Rightarrow> (u64, 'key) gmap \<Rightarrow> u64 \<Rightarrow>
     blockData list \<Rightarrow> genVars \<Rightarrow> ('db, 'key) Service \<Rightarrow> bool" where
  "svc_inv E c enc keys self R g s \<longleftrightarrow>
     s_keys s = keys \<and> s_nodeID s = self \<and> gv_round g = s_round s \<and>
     list_all (authentic E keys) R \<and> dg_within (set R) (s_depgraph s) \<and>
     (\<exists>ws. stored c enc ws (s_store s) \<and> list_all (write_auth E keys self) ws \<and>
        chain_ok ws (s_round s) (s_prevhash s) (s_prevref s))"

lemma other_writes_frame:
  "list_all other_write ws' \<Longrightarrow> own_graphs (ws @ ws') = own_graphs ws"
  "list_all other_write ws' \<Longrightarrow> last_own (ws @ ws') = last_own ws"
  "list_all other_write ws' \<Longrightarrow> list_all (write_auth E keys self) ws'"
proof -
  show "own_graphs (ws @ ws') = own_graphs ws" if "list_all other_write ws'"
    using that by (induction ws' rule: rev_induct) (simp_all flip: append_assoc, case_tac x, simp_all)
  show "last_own (ws @ ws') = last_own ws" if "list_all other_write ws'"
    using that by (induction ws' rule: rev_induct) (simp_all flip: append_assoc, case_tac x, simp_all)
  show "list_all (write_auth E keys self) ws'" if "list_all other_write ws'"
    using that by (induction ws') (simp_all, case_tac a, simp_all)
qed

lemma stored_after:
  assumes "env_ok E c tc enc" "stored c enc ws st" "foldE (apply_write (eB E) (eP E)) ws' st = Inr st'"
  shows "stored c enc (ws @ ws') st'"
  using stored_writes [of "eB E" c tc "eP E" enc ws st ws'] assms by (simp add: env_ok_def)

lemma stored_after_write:
  assumes "env_ok E c tc enc" "stored c enc ws st" "apply_write (eB E) (eP E) w st = Inr st'"
  shows "stored c enc (ws @ [w]) st'"
  using stored_after [OF assms(1,2), of "[w]"] assms(3) by simp

lemma quiet_inv:
  assumes E: "env_ok E c tc enc" and "quiet E new s s'" and "svc_inv E c enc keys self R g s"
  shows "svc_inv E c enc keys self R g s'"
proof -
  obtain ws ws' where ws: "stored c enc ws (s_store s)" "list_all (write_auth E keys self) ws"
    "chain_ok ws (s_round s) (s_prevhash s) (s_prevref s)" and
    ws': "list_all other_write ws'" "foldE (apply_write (eB E) (eP E)) ws' (s_store s) = Inr (s_store s')"
    using assms(2,3) unfolding svc_inv_def quiet_def by blast
  have "stored c enc (ws @ ws') (s_store s')" by (rule stored_after [OF E ws(1) ws'(2)])
  moreover have "list_all (write_auth E keys self) (ws @ ws')" using ws(2) other_writes_frame(3) [OF ws'(1)] by simp
  moreover have "chain_ok (ws @ ws') (s_round s) (s_prevhash s) (s_prevref s)"
    using ws(3) by (simp add: chain_ok_def other_writes_frame [OF ws'(1)])
  ultimately show ?thesis using assms(2,3) unfolding svc_inv_def quiet_def by auto
qed

lemma read_own_inv: "svc_getOwnBlock E r s = Inr (b, s') \<Longrightarrow> svc_inv E c enc keys self R g s \<Longrightarrow> svc_inv E c enc keys self R g s'"
  by (erule read_own_same) (simp_all add: svc_inv_def)

lemma svc_invI:
  assumes "s_keys s = keys" "s_nodeID s = self" "gv_round g = s_round s" "list_all (authentic E keys) R"
    "dg_within (set R) (s_depgraph s)" "stored c enc ws (s_store s)" "list_all (write_auth E keys self) ws"
    "chain_ok ws (s_round s) (s_prevhash s) (s_prevref s)"
  shows "svc_inv E c enc keys self R g s"
  using assms unfolding svc_inv_def by blast

lemma svc_invD:
  assumes "svc_inv E c enc keys self R g s"
  obtains ws where "s_keys s = keys" "s_nodeID s = self" "gv_round g = s_round s" "list_all (authentic E keys) R"
    "dg_within (set R) (s_depgraph s)" "stored c enc ws (s_store s)" "list_all (write_auth E keys self) ws"
    "chain_ok ws (s_round s) (s_prevhash s) (s_prevref s)"
  using assms unfolding svc_inv_def by blast

lemma dg_within_mono: "dg_within A d \<Longrightarrow> A \<subseteq> B \<Longrightarrow> dg_within B d"
  by (auto simp: dg_within_def)

lemma dg_within_add: "dg_within A d \<Longrightarrow> dg_within (insert b A) (dg_add b d)"
  by (auto simp: dg_within_def dg_add_def)

lemma enqueue_frame [simp]:
  "s_keys (enqueue bd s) = s_keys s" "s_nodeID (enqueue bd s) = s_nodeID s" "s_round (enqueue bd s) = s_round s"
  "s_prevref (enqueue bd s) = s_prevref s" "s_prevhash (enqueue bd s) = s_prevhash s" "s_store (enqueue bd s) = s_store s"
  "s_depgraph (enqueue bd s) = dg_add bd (s_depgraph s)"
  by (simp_all add: enqueue_def)

lemma receive_inv:
  assumes E: "env_ok E c tc enc" and inv: "svc_inv E c enc keys self R g s"
    and step: "svc_processBlock E sd s = Inr (r, s')" "dg_in (s_depgraph s') = dg_in (s_depgraph s) @ bs"
  shows "svc_inv E c enc keys self (R @ bs) g s'"
proof -
  obtain ws where i: "s_keys s = keys" "s_nodeID s = self" "gv_round g = s_round s" "list_all (authentic E keys) R"
    "dg_within (set R) (s_depgraph s)" "stored c enc ws (s_store s)" "list_all (write_auth E keys self) ws"
    "chain_ok ws (s_round s) (s_prevhash s) (s_prevref s)" using inv by (rule svc_invD)
  obtain block bd st where a: "accepted E keys sd block bd" and
    st: "store_setBlock (eB E) (eP E) (bd_id bd) sd (s_store s) = Inr st" and s': "s' = enqueue bd (s\<lparr>s_store := st\<rparr>)"
    using step(1) i(1) by (auto simp: processBlock_Inr)
  have auth: "authentic E keys bd" using accepted_authentic [OF _ a] E by (simp add: env_ok_def)
  have bs: "bs = [bd]" using step(2) by (simp add: s' dg_add_def)
  show ?thesis
  proof (rule svc_invI [where ws = "ws @ [WriteBlock (bd_id bd) sd]"])
    show "stored c enc (ws @ [WriteBlock (bd_id bd) sd]) (s_store s')"
      using stored_after_write [OF E i(6), of "WriteBlock (bd_id bd) sd" st] st by (simp add: s')
    show "chain_ok (ws @ [WriteBlock (bd_id bd) sd]) (s_round s') (s_prevhash s') (s_prevref s')"
      using i(8) by (simp add: chain_ok_def s')
    show "list_all (write_auth E keys self) (ws @ [WriteBlock (bd_id bd) sd])"
      using i(7) auth accepted_blockData [OF a] by simp
    show "dg_within (set (R @ bs)) (s_depgraph s')" using dg_within_add [OF i(5)] by (simp add: bs s')
  qed (use i auth bs in \<open>simp_all add: s'\<close>)
qed

lemma process_inv:
  assumes inv: "svc_inv E c enc keys self R g s" and step: "depgraph_step E n s = Some (Inr s')"
  shows "svc_inv E c enc keys self R g s'"
proof -
  obtain d where d: "process_step (\<lambda>i. store_isIncluded (eB E) i (s_store s)) n (s_depgraph s) = Some (Inr d)"
    "s' = s\<lparr>s_depgraph := d\<rparr>"
  proof (cases "process_step (\<lambda>i. store_isIncluded (eB E) i (s_store s)) n (s_depgraph s)")
    case (Some r)
    with step that show ?thesis by (cases r) (simp_all add: depgraph_step_def)
  qed (use step in \<open>simp add: depgraph_step_def\<close>)
  have "dg_within (set R) d" using process_step_within [OF d(1)] inv by (simp add: svc_inv_def)
  with inv show ?thesis by (simp add: svc_inv_def d(2))
qed

section \<open>An own block\<close>

lemma getBlocks_within: "dg_within A d \<Longrightarrow> Depgraph.getBlocks l d = (refs, d') \<Longrightarrow> dg_within A d' \<and> set refs \<subseteq> A"
  by (auto simp: dg_within_def Depgraph.getBlocks_def Let_def dest!: set_take_subset [THEN subsetD] set_drop_subset [THEN subsetD])

lemma actuallyIncluded_frame [simp]:
  "dg_in (fold (\<lambda>ref. actuallyIncluded (bd_id ref)) refs d) = dg_in d"
  "dg_pending (fold (\<lambda>ref. actuallyIncluded (bd_id ref)) refs d) = dg_pending d"
  "dg_blocks (fold (\<lambda>ref. actuallyIncluded (bd_id ref)) refs d) = dg_blocks d"
  by (induction refs arbitrary: d; simp add: actuallyIncluded_def)+

text \<open>The reference to the previous block names the node and the last round.\<close>

definition prev_ok :: "('db, 'txn, 'item, 'key) env \<Rightarrow> (u64, 'key) gmap \<Rightarrow> ('db, 'key) Service \<Rightarrow> bool" where
  "prev_ok E keys s \<longleftrightarrow> s_round s \<noteq> 0 \<longrightarrow> (\<exists>p. s_prevref s = Some p \<and>
     ref_ok E keys p \<lparr>Hash = s_prevhash s, Node = s_nodeID s, Round = s_round s\<rparr>)"

lemma chain_prev:
  assumes "chain_ok ws (s_round s) (s_prevhash s) (s_prevref s)" "list_all (write_auth E keys (s_nodeID s)) ws"
  shows "prev_ok E keys s"
proof (cases "last_own ws")
  case None
  then have "own_graphs ws = []" using last_own_graph [of ws] by (simp split: if_splits)
  with assms(1) show ?thesis by (simp add: prev_ok_def chain_ok_def)
next
  case (Some p)
  then obtain ref g where l: "last_own ws = Some (ref, g)" by (cases p) auto
  then have g: "own_graphs ws \<noteq> []" "g = last (own_graphs ws)"
    using last_own_graph [of ws] by (simp_all split: if_splits)
  obtain sd where "write_auth E keys (s_nodeID s) (WriteOwn sd ref g)"
    using last_own_write [OF l] assms(2) by (metis list_all_iff)
  then obtain bd where bd: "bd_id bd = gBlock g" "authentic E keys bd" "bd_ref bd = ref" "Node (gBlock g) = s_nodeID s"
    by auto
  have "Round (gBlock g) = last (map (\<lambda>g. Round (gBlock g)) (own_graphs ws))" using g by (simp add: last_map)
  also have "\<dots> = s_round s" using assms(1) g by (cases "length (own_graphs ws)") (simp_all add: chain_ok_def)
  finally have "Round (gBlock g) = s_round s" .
  with bd assms(1) l have "s_prevref s = Some ref" "ref_ok E keys ref \<lparr>Hash = s_prevhash s, Node = s_nodeID s, Round = s_round s\<rparr>"
    by (cases "gBlock g"; simp add: chain_ok_def authentic_def)+
  then show ?thesis by (simp add: prev_ok_def)
qed

definition own_data :: "('db, 'txn, 'item, 'key) env \<Rightarrow> bytes \<Rightarrow> bytes \<Rightarrow> blockData list \<Rightarrow> ('db, 'key) Service \<Rightarrow> blockData" where
  "own_data E data refData refs s =
     \<lparr>bd_deps = map bd_id refs, bd_id = \<lparr>Hash = eSha E data, Node = s_nodeID s, Round = s_round s + 1\<rparr>,
      bd_prev = (if s_round s \<noteq> 0 then \<lparr>Hash = s_prevhash s, Node = s_nodeID s, Round = s_round s\<rparr> else zeroID),
      bd_ref = own_signed E refData refData\<rparr>"

lemma uBlockReference_back: "wire_codec P \<Longrightarrow> mBlockReference P r = Inr bs \<Longrightarrow> uBlockReference P bs = Inr r"
  by (metis Inr_inject wire_codec_def)

lemma uBlock_back: "wire_codec P \<Longrightarrow> mBlock P b = Inr bs \<Longrightarrow> uBlock P bs = Inr b"
  by (metis Inr_inject wire_codec_def)

lemma reference_ids_authentic: "list_all (authentic E keys) refs \<Longrightarrow> reference_ids (eP E) (map bd_ref refs) = Inr (map bd_id refs)"
  by (induction refs) (auto simp: authentic_def ref_ok_def block_ref_id_def)

text \<open>The situation in which a service with its keys makes a block.\<close>

definition makes ::
    "('db, 'txn, 'item, 'key) env \<Rightarrow> (u64, 'key) gmap \<Rightarrow> ('db, 'key) Service \<Rightarrow> blockData list \<Rightarrow> bytes \<Rightarrow> bytes \<Rightarrow> bytes \<Rightarrow> bool" where
  "makes E keys s refs txs data refData \<longleftrightarrow>
     wire_codec (eP E) \<and> signs E keys (s_nodeID s) \<and> prev_ok E keys s \<and> list_all (authentic E keys) refs \<and>
     mBlock (eP E) (gen_block (s_round s + 1) refs txs s) = Inr data \<and>
     mBlockReference (eP E) \<lparr>refHash = eSha E data, refNode = s_nodeID s, refRound = s_round s + 1\<rparr> = Inr refData"

lemma makes_decodes:
  assumes "makes E keys s refs txs data refData"
  shows "uBlock (eP E) data = Inr (gen_block (s_round s + 1) refs txs s)"
    and "uBlockReference (eP E) refData = Inr \<lparr>refHash = eSha E data, refNode = s_nodeID s, refRound = s_round s + 1\<rparr>"
  using assms uBlock_back uBlockReference_back unfolding makes_def by blast+

lemma round_not_first: "(r :: u64) + 1 \<noteq> 1 \<longleftrightarrow> r \<noteq> 0"
  by simp

lemma makes_authentic:
  assumes "makes E keys s refs txs data refData"
  shows "authentic E keys (own_data E data refData refs s)"
  using assms makes_decodes(2) [OF assms] by (auto simp: makes_def signs_def authentic_def ref_ok_def own_data_def block_ref_id_def)

lemma makes_blockData:
  assumes m: "makes E keys s refs txs data refData"
  shows "getBlockData (eP E) (eSha E) (own_signed E data refData) = Inr (own_data E data refData refs s)"
proof -
  note d = makes_decodes [OF m]
  have ids: "reference_ids (eP E) (map bd_ref refs) = Inr (map bd_id refs)"
    using m reference_ids_authentic [of E keys refs] by (simp add: makes_def)
  show ?thesis
  proof (cases "s_round s = 0")
    case True
    with m ids show ?thesis by (simp add: getBlockData_def d(1) gen_block_def own_data_def makes_def)
  next
    case False
    with m obtain p ref where "s_prevref s = Some p" "uBlockReference (eP E) (Data p) = Inr ref"
      "block_ref_id ref = \<lparr>Hash = s_prevhash s, Node = s_nodeID s, Round = s_round s\<rparr>"
      by (auto simp: makes_def prev_ok_def ref_ok_def)
    with m ids False show ?thesis
      by (simp add: getBlockData_def d(1) gen_block_def own_data_def makes_def block_ref_id_def)
  qed
qed

text \<open>Nodes that agree on the codec, the hash function and the verification accept the same blocks.\<close>

definition agrees :: "('db, 'txn, 'item, 'key) env \<Rightarrow> ('db2, 'txn2, 'item2, 'key) env \<Rightarrow> bool" where
  "agrees E E' \<longleftrightarrow> eP E' = eP E \<and> eSha E' = eSha E \<and> eVerify E' = eVerify E"

lemma makes_accepted:
  assumes m: "makes E keys s refs txs data refData" and foreign: "\<forall>b\<in>set refs. Node (bd_id b) \<noteq> s_nodeID s"
    and E': "agrees E E'"
  shows "accepted E' keys (own_signed E data refData) (gen_block (s_round s + 1) refs txs s) (own_data E data refData refs s)"
proof -
  note d = makes_decodes [OF m]
  obtain k where k: "map_of keys (s_nodeID s) = Some k" "\<forall>m. eVerify E k m (eSign E m)"
    using m by (auto simp: makes_def signs_def)
  have "list_all2 (\<lambda>sref i. ref_ok E' keys sref i \<and> Node i \<noteq> s_nodeID s) (map bd_ref refs) (map bd_id refs)"
    using m foreign E' by (auto simp: makes_def list_all_iff authentic_def ref_ok_def agrees_def list_all2_conv_all_nth)
  then have refs: "check_references E' keys (s_nodeID s) (map bd_ref refs) = Inr (map bd_id refs)"
    by (simp add: check_references_spec)
  have "check_previous E' k (gen_block (s_round s + 1) refs txs s) = Inr (bd_prev (own_data E data refData refs s))"
  proof (cases "s_round s = 0")
    case False
    with m obtain p ref where "s_prevref s = Some p" "uBlockReference (eP E) (Data p) = Inr ref"
      "block_ref_id ref = \<lparr>Hash = s_prevhash s, Node = s_nodeID s, Round = s_round s\<rparr>" "eVerify E k (Data p) (Signature p)"
      using k(1) by (auto simp: makes_def prev_ok_def ref_ok_def)
    with False E' show ?thesis
      by (simp add: check_previous_def gen_block_def own_data_def block_ref_id_def agrees_def)
  qed (simp add: check_previous_def gen_block_def own_data_def)
  moreover have "bNode (gen_block (s_round s + 1) refs txs s) = s_nodeID s" "bRound (gen_block (s_round s + 1) refs txs s) = s_round s + 1"
    "References (gen_block (s_round s + 1) refs txs s) = map bd_ref refs" by (simp_all add: gen_block_def)
  ultimately show ?thesis using refs k d(1) m E'
    by (auto simp: accepted_def own_data_def makes_def agrees_def)
qed

lemma own_write_chain:
  assumes "chain_ok ws (s_round s) hs pr" "gBlock graph = \<lparr>Hash = h, Node = self, Round = s_round s + 1\<rparr>"
  shows "chain_ok (ws @ [WriteOwn sd ref graph]) (s_round s + 1) h (Some ref)"
  using assms by (simp add: chain_ok_def add.commute)

lemma make_inv:
  assumes E: "env_ok E c tc enc" and sg: "signs E keys self" and inv: "svc_inv E c enc keys self R g s"
    and step: "genBlocks_step E rl drifted g s = Inr (g', s')"
  shows "svc_inv E c enc keys self R g' s'"
proof -
  obtain ws where i: "s_keys s = keys" "s_nodeID s = self" "gv_round g = s_round s" "list_all (authentic E keys) R"
    "dg_within (set R) (s_depgraph s)" "stored c enc ws (s_store s)" "list_all (write_auth E keys self) ws"
    "chain_ok ws (s_round s) (s_prevhash s) (s_prevref s)" using inv by (rule svc_invD)
  obtain refs dg txs data refData st where
    b: "Depgraph.getBlocks (s_refSizeLimit s) (s_depgraph s) = (refs, dg)"
      "mBlock (eP E) (gen_block (gv_round g + 1) refs txs s) = Inr data"
      "mBlockReference (eP E) \<lparr>refHash = eSha E data, refNode = s_nodeID s, refRound = gv_round g + 1\<rparr> = Inr refData" and
    st: "store_setOwnBlock (eB E) (eP E) (own_signed E data refData) (own_signed E refData refData)
       (gen_graph (eSha E data) (gv_round g + 1) refs s) (s_store s) = Inr st" and
    s': "gv_round g' = gv_round g + 1" "s_round s' = gv_round g + 1" "s_store s' = st" "s_prevhash s' = eSha E data"
      "s_prevref s' = Some (own_signed E refData refData)" "s_keys s' = s_keys s" "s_nodeID s' = s_nodeID s"
      "s_depgraph s' = fold (\<lambda>ref. actuallyIncluded (bd_id ref)) refs dg"
    by (rule genBlocks_Inr [OF step]) (rule that, assumption+)
  let ?graph = "gen_graph (eSha E data) (s_round s + 1) refs s"
  let ?w = "WriteOwn (own_signed E data refData) (own_signed E refData refData) ?graph"
  have w: "dg_within (set R) dg" "set refs \<subseteq> set R" using getBlocks_within [OF i(5) b(1)] by auto
  have m: "makes E keys s refs txs data refData"
    unfolding makes_def using E sg b(2,3) i(2,3) chain_prev [OF i(8)] i(4,7) w(2) by (auto simp: env_ok_def list_all_iff)
  have graph: "gBlock ?graph = \<lparr>Hash = eSha E data, Node = self, Round = s_round s + 1\<rparr>"
    by (simp add: gen_graph_def i(2))
  show ?thesis
  proof (rule svc_invI [where ws = "ws @ [?w]"])
    show "stored c enc (ws @ [?w]) (s_store s')" using stored_after_write [OF E i(6), of ?w st] st by (simp add: s' i(3))
    show "list_all (write_auth E keys self) (ws @ [?w])"
      using i(7) makes_authentic [OF m] makes_blockData [OF m] by (simp add: graph) (simp add: own_data_def i(2))
    show "chain_ok (ws @ [?w]) (s_round s') (s_prevhash s') (s_prevref s')"
      using own_write_chain [where h = "eSha E data", OF i(8) graph] by (simp add: s' i(3))
    show "dg_within (set R) (s_depgraph s')" using w(1) by (simp add: s' dg_within_def)
  qed (use i s' in simp_all)
qed

section \<open>Starting and restarting\<close>

lemma within_fold_add: "dg_within A d \<Longrightarrow> dg_within (A \<union> set bds) (fold dg_add bds d)"
proof (induction bds arbitrary: A d)
  case (Cons b bds)
  from Cons.IH [OF dg_within_add [OF Cons.prems, of b]] show ?case by simp
qed simp

lemma fold_add_in: "dg_in (fold dg_add bds d) = dg_in d @ bds"
  by (induction bds arbitrary: d) (simp_all add: dg_add_def)

lemma write_auth_named: "write_auth E keys self w \<Longrightarrow> write_named (eP E) (eSha E) w"
  by (cases w) auto

lemma started_inv:
  assumes E: "env_ok E c tc enc" and new: "svc_New E grow (Inr d) cfg tn = Some (Inr s)"
    and c: "c d = content enc ws" and auth: "list_all (write_auth E (cfg_Keys cfg) (cfg_NodeID cfg)) ws"
    and chain: "map (\<lambda>g. Round (gBlock g)) (own_graphs ws) = rounds_upto (length (own_graphs ws))"
    and R: "list_all (authentic E (cfg_Keys cfg)) R"
  shows "svc_inv E c enc (cfg_Keys cfg) (cfg_NodeID cfg) (R @ dg_in (s_depgraph s)) (gen_start rl s) s"
proof -
  have B: "badger_ok (eB E) c tc" and P: "signed_codec (eP E) enc" using E by (simp_all add: env_ok_def)
  obtain bds where n: "s_store s = \<lparr>closed = False, db = d, nodeCount = length (cfg_Peers cfg) + 1\<rparr>"
    "s_keys s = cfg_Keys cfg" "s_nodeID s = cfg_NodeID cfg"
    "store_getNotIncluded (eB E) (eP E) (eSha E) (s_store s) = Inr bds"
    "s_depgraph s = fold dg_add bds (newDepgraph (cfg_NodeID cfg))" and
    l: "orDefault ''Could not load latest round data from DB'' (0, [], None)
       (bindE (store_getLastRoundData (eB E) (eP E) (s_store s)) (\<lambda>(round, hash, ref). Inr (round, hash, Some ref))) =
     Inr (s_round s, s_prevhash s, s_prevref s)"
    by (rule svc_New_Inr [OF new]) (rule that, assumption+)
  have s: "stored c enc ws (s_store s)" using c by (simp add: stored_def n(1))
  have "\<forall>bd\<in>set bds. authentic E (cfg_Keys cfg) bd"
    using notIncluded_stored [OF B P s, of "eSha E"] auth n(4) by (fastforce simp: list_all_iff dest: write_auth_named)
  moreover have in_d: "dg_in (s_depgraph s) = bds" by (simp add: n(5) fold_add_in newDepgraph_def)
  ultimately have auth': "list_all (authentic E (cfg_Keys cfg)) (R @ dg_in (s_depgraph s))" using R by (auto simp: list_all_iff)
  have "dg_within {} (newDepgraph (cfg_NodeID cfg))" by (simp add: dg_within_def newDepgraph_def)
  from within_fold_add [OF this, of bds] have "dg_within (set (R @ dg_in (s_depgraph s))) (s_depgraph s)"
    using in_d by (auto simp: n(5) intro: dg_within_mono)
  moreover have "chain_ok ws (s_round s) (s_prevhash s) (s_prevref s)"
  proof (cases "last_own ws")
    case None
    then have "own_graphs ws = []" using last_own_graph [of ws] by (simp split: if_splits)
    with None l show ?thesis by (simp add: last_round_stored [OF B P s] orDefault_def chain_ok_def)
  next
    case (Some p)
    then obtain ref g where lo: "last_own ws = Some (ref, g)" by (cases p) auto
    then have g: "own_graphs ws \<noteq> []" "g = last (own_graphs ws)"
      using last_own_graph [of ws] by (simp_all split: if_splits)
    have "Round (gBlock g) = last (map (\<lambda>g. Round (gBlock g)) (own_graphs ws))" using g by (simp add: last_map)
    also have "\<dots> = of_nat (length (own_graphs ws))" unfolding chain using g by (cases "length (own_graphs ws)") simp_all
    finally show ?thesis using l lo chain by (simp add: last_round_stored [OF B P s] orDefault_def chain_ok_def)
  qed
  ultimately show ?thesis by (intro svc_invI [OF n(2,3) _ auth' _ s auth]) (simp_all add: gen_start_def)
qed

lemma reach_inv:
  assumes E: "env_ok E c tc enc" and sg: "signs E (cfg_Keys cfg) (cfg_NodeID cfg)"
    and r: "svc_reach E c grow cfg tn R X g s"
  shows "svc_inv E c enc (cfg_Keys cfg) (cfg_NodeID cfg) R g s"
  using r
proof (induction rule: svc_reach.induct)
  case (start d s)
  then show ?case using started_inv [OF E start(2), of "[]" "[]"] by simp
next
  case (restart R X g s s')
  obtain ws where "list_all (authentic E (cfg_Keys cfg)) R" "stored c enc ws (s_store s)"
    "list_all (write_auth E (cfg_Keys cfg) (cfg_NodeID cfg)) ws" "chain_ok ws (s_round s) (s_prevhash s) (s_prevref s)"
    using restart.IH by (rule svc_invD)
  then show ?case using started_inv [OF E restart.hyps(2), of ws R] by (simp add: stored_def chain_ok_def)
qed (use E sg in \<open>blast intro: receive_inv process_inv make_inv read_own_inv quiet_inv quiet_steps\<close>)+

end
