(* ===== verification/Instances.thy ===== *)
theory Instances
  imports ServiceInv
begin

text \<open>
  The laws that the service relies on can hold together: a codec for blocks, signatures that carry
  the key, and the database in memory. A service starts on an empty database.
\<close>

section \<open>A codec for blocks\<close>

definition tagged :: "bytes \<Rightarrow> bytes" where
  "tagged b = replicate (length b) 1 @ 0 # b"

definition untag :: "bytes \<Rightarrow> bytes \<times> bytes" where
  "untag bs = (let n = length (takeWhile (\<lambda>b. b = 1) bs); rest = drop (Suc n) bs in (take n rest, drop n rest))"

lemma takeWhile_ones: "takeWhile (\<lambda>b. b = 1) (replicate n 1 @ 0 # xs) = replicate n (1 :: u8)"
  by (induction n) simp_all

lemma untag_tagged [simp]: "untag (tagged b @ r) = (b, r)"
  by (simp add: untag_def tagged_def Let_def takeWhile_ones)

definition enc_sd :: "SignedData \<Rightarrow> bytes" where
  "enc_sd sd = tagged (Data sd) @ tagged (Signature sd)"

definition dec_sd :: "bytes \<Rightarrow> SignedData \<times> bytes" where
  "dec_sd bs = (let (d, r) = untag bs; (sg, r') = untag r in (\<lparr>Data = d, Signature = sg\<rparr>, r'))"

lemma dec_enc_sd [simp]: "dec_sd (enc_sd sd @ r) = (sd, r)"
  by (simp add: dec_sd_def enc_sd_def)

fun dec_sds :: "nat \<Rightarrow> bytes \<Rightarrow> SignedData list" where
  "dec_sds 0 bs = []"
| "dec_sds (Suc n) bs = (let (sd, r) = dec_sd bs in sd # dec_sds n r)"

lemma dec_sds_enc: "dec_sds (length sds) (concat (map enc_sd sds)) = sds"
  by (induction sds) simp_all

fun enc_prev :: "SignedData option \<Rightarrow> bytes" where
  "enc_prev None = [0]"
| "enc_prev (Some sd) = 1 # enc_sd sd"

definition dec_prev :: "bytes \<Rightarrow> SignedData option \<times> bytes" where
  "dec_prev bs = (if hd bs = 0 then (None, tl bs) else let (sd, r) = dec_sd (tl bs) in (Some sd, r))"

lemma dec_enc_prev [simp]: "dec_prev (enc_prev p @ r) = (p, r)"
  by (cases p) (simp_all add: dec_prev_def)

fun enc_txs :: "Transactions option \<Rightarrow> bytes" where
  "enc_txs None = [0]"
| "enc_txs (Some t) = 1 # le_put 8 (Count t) @ tagged (TxsData t)"

definition dec_txs :: "bytes \<Rightarrow> Transactions option \<times> bytes" where
  "dec_txs bs = (if hd bs = 0 then (None, tl bs)
     else let (d, r) = untag (drop 9 bs) in (Some \<lparr>Count = le_get (take 8 (tl bs)), TxsData = d\<rparr>, r))"

lemma dec_enc_txs [simp]: "dec_txs (enc_txs p @ r) = (p, r)"
  by (cases p) (simp_all add: dec_txs_def)

definition enc_block :: "Block \<Rightarrow> bytes" where
  "enc_block b = le_put 8 (bNode b) @ le_put 8 (bRound b) @ enc_prev (Previous b) @ enc_txs (bTransactions b) @
     replicate (length (References b)) 1 @ 0 # concat (map enc_sd (References b))"

definition dec_block :: "bytes \<Rightarrow> Block" where
  "dec_block bs = (let (p, r) = dec_prev (drop 16 bs); (t, r') = dec_txs r; n = length (takeWhile (\<lambda>b. b = 1) r') in
     \<lparr>bNode = le_get (take 8 bs), Previous = p, References = dec_sds n (drop (Suc n) r'),
      bRound = le_get (take 8 (drop 8 bs)), bTransactions = t\<rparr>)"

lemma dec_enc_block: "dec_block (enc_block b) = b"
  by (simp add: dec_block_def enc_block_def takeWhile_ones dec_sds_enc)

definition enc_ref :: "BlockReference \<Rightarrow> bytes" where
  "enc_ref r = le_put 8 (refNode r) @ le_put 8 (refRound r) @ refHash r"

definition dec_ref :: "bytes \<Rightarrow> BlockReference" where
  "dec_ref bs = \<lparr>refHash = drop 16 bs, refNode = le_get (take 8 bs), refRound = le_get (take 8 (drop 8 bs))\<rparr>"

lemma dec_enc_ref: "dec_ref (enc_ref r) = r"
  by (simp add: dec_ref_def enc_ref_def)

definition enc_list :: "ListBlocks \<Rightarrow> bytes" where
  "enc_list l = (let bs = map the (lbBlocks l) in replicate (length bs) 1 @ 0 # concat (map enc_sd bs))"

definition dec_list :: "bytes \<Rightarrow> ListBlocks" where
  "dec_list bs = (let n = length (takeWhile (\<lambda>b. b = 1) bs) in \<lparr>lbBlocks = map Some (dec_sds n (drop (Suc n) bs))\<rparr>)"

lemma dec_enc_list: "dec_list (enc_list \<lparr>lbBlocks = map Some bs\<rparr>) = \<lparr>lbBlocks = map Some bs\<rparr>"
  by (simp add: dec_list_def enc_list_def takeWhile_ones dec_sds_enc comp_def)

definition wire_proto :: proto where
  "wire_proto = mem_proto\<lparr>mBlock := (\<lambda>b. Inr (enc_block b)), uBlock := (\<lambda>bs. Inr (dec_block bs)),
     mBlockReference := (\<lambda>r. Inr (enc_ref r)), uBlockReference := (\<lambda>bs. Inr (dec_ref bs)),
     mListBlocks := (\<lambda>l. Inr (enc_list l)), uListBlocks := (\<lambda>bs. Inr (dec_list bs)),
     mAckBroadcast := (\<lambda>a. Inr (le_put 8 (Last a))), uAckBroadcast := (\<lambda>bs. Inr \<lparr>Last = le_get bs\<rparr>)\<rparr>"

section \<open>Nodes in memory\<close>

type_synonym mem_env = "((bytes, bytes) gmap, (bytes, bytes) gmap, bytes \<times> bytes, u8) env"

definition mem_env :: "u8 \<Rightarrow> mem_env" where
  "mem_env k = \<lparr>eB = memdb, eP = wire_proto, eSha = (\<lambda>d. replicate 12 0 @ d), eSign = (\<lambda>m. k # m),
     eVerify = (\<lambda>k m sg. sg = k # m)\<rparr>"

definition mem_cfg :: "u64 \<Rightarrow> u8 ServiceCfg" where
  "mem_cfg self = \<lparr>cfg_Keys = [(1, 1), (2, 2), (3, 3), (4, 4)], cfg_MaxPayload = 100000,
     cfg_NetConsensus = \<lparr>BlockReferencesSizeLimit = 1000, BlockTransactionsSizeLimit = 1000, NonceExpiration = 30,
       RoundInterval = 1, ViewTimeout = 15\<rparr>,
     cfg_RateLimit = \<lparr>InitialRate = 10, RateDecrease = (\<lambda>r. r div 2), RateIncrease = 1\<rparr>,
     cfg_NodeID = self, cfg_Peers = filter (\<lambda>n. n \<noteq> self) [1, 2, 3, 4]\<rparr>"

lemma mem_env_sel: "eB (mem_env k) = memdb" "eP (mem_env k) = wire_proto"
  by (simp_all add: mem_env_def)

lemma mem_env_ok: "env_ok (mem_env k) map_of map_of mem_enc"
  using memdb_ok mem_codec [of wire_proto] dec_enc_block dec_enc_ref
  by (auto simp: env_ok_def mem_env_def wire_codec_def wire_proto_def)

lemma mem_signs: "signs (mem_env 1) (cfg_Keys (mem_cfg 1)) (cfg_NodeID (mem_cfg 1))"
  by (simp add: signs_def mem_env_def mem_cfg_def)

lemma mem_agrees: "agrees (mem_env j) (mem_env k)"
  by (simp add: agrees_def mem_env_def)

section \<open>A fresh service\<close>

lemma fresh_start:
  assumes E: "env_ok E c tc enc" and d: "c d = Map.empty"
    and lim: "ByteSize_Int (BlockReferencesSizeLimit (cfg_NetConsensus cfg)) = Inr nr"
      "ByteSize_Int (BlockTransactionsSizeLimit (cfg_NetConsensus cfg)) = Inr nt"
  shows "\<exists>s. svc_New E grow (Inr d) cfg tn = Some (Inr s) \<and> dg_in (s_depgraph s) = []"
proof -
  let ?s0 = "new_service grow d cfg tn nr nt"
  define st where "st = \<lparr>closed = False, db = d, nodeCount = length (cfg_Peers cfg) + 1\<rparr>"
  have B: "badger_ok (eB E) c tc" and P: "signed_codec (eP E) enc" using E by (simp_all add: env_ok_def)
  have s: "stored c enc [] st" using d by (simp add: stored_def st_def)
  have st0: "s_store ?s0 = st" "s_nodeID ?s0 = cfg_NodeID cfg" by (simp_all add: new_service_def st_def)
  have reads: "store_getLastRoundData (eB E) (eP E) st = Inl ErrKeyNotFound"
    "store_getLastInterpreted (eB E) st = Inl ErrKeyNotFound" "store_getReceivedMap (eB E) st = Inl ErrKeyNotFound"
    "store_getSentMap (eB E) st = Inl ErrKeyNotFound"
    unfolding last_round_stored [OF B P s] store_getLastInterpreted_def store_getReceivedMap_def store_getSentMap_def
    by (simp_all add: View_read [OF B s])
  obtain bds where "store_getNotIncluded (eB E) (eP E) (eSha E) st = Inr bds" "bd_id ` set bds = {}"
    using notIncluded_stored [OF B P s, of "eSha E"] by auto
  then have bds: "store_getNotIncluded (eB E) (eP E) (eSha E) st = Inr []" by simp
  have "store_getBlockGraphs (eB E) n i 100 st = Inr []" for n i
    using block_graphs_stored [OF B s, of 100 n i] by simp
  then have batches: "replay_batches (eB E) n 100 i st [] = Some ([], None)" for n i
    by (subst replay_batches.simps) simp
  obtain consumed s1 where l: "load_fields E grow tn ?s0 = Inr (consumed, s1)"
    by (simp add: load_fields_def st0 reads orDefault_def Let_def)
  have s1: "s_store s1 = st" "s_depgraph s1 = newDepgraph (cfg_NodeID cfg)"
    using load_fields_Inr(1,5) [OF l] by (simp_all add: st0)
  have "replayGraphChanges E consumed s1 = Some (Inr s1)"
    by (simp add: replayGraphChanges_def s1(1) bds batches)
  with l lim show ?thesis
    by (intro exI [of _ s1]) (simp add: svc_New_def loadState_def s1(2) newDepgraph_def)
qed

lemma fresh_round:
  assumes E: "env_ok E c tc enc" and d: "c d = Map.empty" and new: "svc_New E grow (Inr d) cfg tn = Some (Inr s)"
  shows "s_round s = 0"
proof (rule svc_New_Inr [OF new])
  assume st: "s_store s = \<lparr>closed = False, db = d, nodeCount = length (cfg_Peers cfg) + 1\<rparr>"
    and r: "orDefault ''Could not load latest round data from DB'' (0, [], None)
       (bindE (store_getLastRoundData (eB E) (eP E) (s_store s)) (\<lambda>(round, hash, ref). Inr (round, hash, Some ref))) =
     Inr (s_round s, s_prevhash s, s_prevref s)"
  have B: "badger_ok (eB E) c tc" and P: "signed_codec (eP E) enc" using E by (simp_all add: env_ok_def)
  have s: "stored c enc [] (s_store s)" using d st by (simp add: stored_def)
  from r show ?thesis unfolding last_round_stored [OF B P s] by (simp add: orDefault_def)
qed

lemma mem_limits:
  "ByteSize_Int (BlockReferencesSizeLimit (cfg_NetConsensus (mem_cfg self))) = Inr 1000"
  "ByteSize_Int (BlockTransactionsSizeLimit (cfg_NetConsensus (mem_cfg self))) = Inr 1000"
  by (simp_all add: ByteSize_Int_spec mem_cfg_def)

lemma mem_started:
  "\<exists>s. svc_New (mem_env k) id (Inr []) (mem_cfg self) 4 = Some (Inr s) \<and>
     svc_reach (mem_env k) map_of id (mem_cfg self) 4 [] [] (gen_start (cfg_RateLimit (mem_cfg self)) s) s"
proof -
  obtain s where s: "svc_New (mem_env k) id (Inr []) (mem_cfg self) 4 = Some (Inr s)" "dg_in (s_depgraph s) = []"
    using fresh_start [OF mem_env_ok _ mem_limits, where d = "[]" and grow = id and tn = 4] by auto
  with svc_reach.start [where c = map_of, OF _ s(1)] show ?thesis by auto
qed

end
