(* ===== verification/ServiceProps.thy ===== *)
theory ServiceProps
  imports Instances
begin

text \<open>
  What a service does in every state it can reach: it keeps making blocks, its blocks carry the
  transactions given to it and are accepted by the other nodes, and its cache agrees with the store.
\<close>

section \<open>Progress\<close>

lemma depgraph_step_Inr:
  assumes "depgraph_step E n s = Some (Inr s')"
  obtains d where "process_step (\<lambda>i. store_isIncluded (eB E) i (s_store s)) n (s_depgraph s) = Some (Inr d)"
    "s' = s\<lparr>s_depgraph := d\<rparr>"
proof (cases "process_step (\<lambda>i. store_isIncluded (eB E) i (s_store s)) n (s_depgraph s)")
  case (Some r)
  with assms that show ?thesis by (cases r) (simp_all add: depgraph_step_def)
qed (use assms in \<open>simp add: depgraph_step_def\<close>)

lemma receive_same:
  assumes "svc_processBlock E sd s = Inr (r, s')"
  obtains bd st where "store_setBlock (eB E) (eP E) (bd_id bd) sd (s_store s) = Inr st" "s' = enqueue bd (s\<lparr>s_store := st\<rparr>)"
  using assms unfolding processBlock_Inr by blast

definition tx_inv :: "'key ServiceCfg \<Rightarrow> TransactionData list \<Rightarrow> ('db, 'key) Service \<Rightarrow> bool" where
  "tx_inv cfg X s \<longleftrightarrow> tx_holds X s \<and> ByteSize_Int (BlockTransactionsSizeLimit (cfg_NetConsensus cfg)) = Inr (s_txSizeLimit s)"

lemma quiet_tx: "quiet E new s s' \<Longrightarrow> tx_inv cfg X s \<Longrightarrow> tx_inv cfg (X @ new) s'"
  by (simp add: quiet_def tx_inv_def)

lemma New_tx: "svc_New E grow (Inr d) cfg tn = Some (Inr s) \<Longrightarrow> tx_inv cfg [] s"
  by (erule svc_New_Inr) (simp add: tx_inv_def)

lemma reach_tx:
  assumes "svc_reach E c grow cfg tn R X g s"
  shows "tx_inv cfg X s"
  using assms
proof (induction rule: svc_reach.induct)
  case (receive R X g s sd r s' bs)
  from receive.hyps(2) show ?case by (rule receive_same) (use receive.IH in \<open>simp add: enqueue_def tx_inv_def\<close>)
next
  case (process R X g s n s')
  from process.hyps(2) show ?case by (rule depgraph_step_Inr) (use process.IH in \<open>simp add: tx_inv_def\<close>)
next
  case (make R X g s drifted g' s')
  from make.hyps(2) show ?case by (rule genBlocks_Inr) (use make.IH in \<open>simp add: tx_inv_def tx_holds_def\<close>)
next
  case (read_own R X g s r b s')
  from read_own.hyps(2) show ?case by (rule read_own_same) (use read_own.IH in \<open>simp_all add: tx_inv_def\<close>)
next
  case (transaction R X g s tx fee a s')
  from quiet_transaction [OF transaction.hyps(2)] transaction.IH show ?case by (rule quiet_tx)
qed (blast intro: New_tx quiet_tx [of E "[]", simplified] quiet_steps)+

lemma make_succeeds:
  assumes E: "env_ok E c tc enc" and st: "stored c enc ws (s_store s)" and tx: "tx_holds X s"
  shows "\<exists>g' s'. genBlocks_step E rl drifted g s = Inr (g', s')"
proof -
  obtain refs dg where rd: "Depgraph.getBlocks (s_refSizeLimit s) (s_depgraph s) = (refs, dg)" by (rule prod.exhaust)
  have "gslice (s_txData s) 0 (s_txIdx s) = Inr (take (s_txIdx s) (s_txData s))" using tx by (simp add: gslice_def tx_holds_def)
  moreover obtain data where d: "mBlock (eP E) (gen_block (gv_round g + 1) refs (take (s_txIdx s) (s_txData s)) s) = Inr data"
    using E unfolding env_ok_def wire_codec_def by blast
  moreover obtain refData where r: "mBlockReference (eP E) \<lparr>refHash = eSha E data, refNode = s_nodeID s, refRound = gv_round g + 1\<rparr> = Inr refData"
    using E unfolding env_ok_def wire_codec_def by blast
  moreover obtain st' where "store_setOwnBlock (eB E) (eP E) (own_signed E data refData) (own_signed E refData refData)
      (gen_graph (eSha E data) (gv_round g + 1) refs s) (s_store s) = Inr st'"
    using stored_write [of "eB E" c tc "eP E" enc ws "s_store s" "WriteOwn _ _ _"] E st
    unfolding env_ok_def apply_write.simps by blast
  ultimately show ?thesis by (simp add: genBlocks_step_def rd svc_setOwnBlock_def Let_def)
qed

lemma put_at_ok: "i + length v \<le> length buf \<Longrightarrow> \<exists>buf'. put_at i v buf = Inr buf' \<and> length buf' = length buf"
  by (simp add: put_at_def)

lemma add_succeeds:
  assumes "tx_holds X s"
  shows "\<exists>a s'. AddTransaction tx fee s = Inr (a, s')"
proof (cases "length tx \<ge> 2 ^ 32 \<or> int (length tx) > s_txSizeLimit s \<or> s_txCount s = s_txCountLimit s \<or>
    int (s_txIdx s + length tx + 100) > s_txSizeLimit s")
  case False
  then have room: "s_txIdx s + length tx + 100 \<le> length (s_txData s)" using assms by (simp add: tx_holds_def)
  obtain buf1 where b1: "put_at (s_txIdx s) (PutUint64 fee) (s_txData s) = Inr buf1" "length buf1 = length (s_txData s)"
    using put_at_ok [of "s_txIdx s" "PutUint64 fee" "s_txData s"] room by auto
  obtain buf2 where b2: "put_at (s_txIdx s + 8) (PutUint32 (of_nat (length tx))) buf1 = Inr buf2" "length buf2 = length buf1"
    using put_at_ok [of "s_txIdx s + 8" "PutUint32 (of_nat (length tx))" buf1] room b1 by auto
  have "\<exists>buf3. copy_at (s_txIdx s + 12) tx buf2 = Inr buf3" using room b1 b2 by (simp add: copy_at_def)
  with False b1 b2 show ?thesis by (auto simp: AddTransaction_def Let_def)
qed (auto simp: AddTransaction_def Let_def)

section \<open>Reading own blocks\<close>

lemma content_ownBlock_frame:
  "list_all (\<lambda>w. own_graph w = []) ws' \<Longrightarrow> content enc (ws @ ws') (ownBlockKey r) = content enc ws (ownBlockKey r)"
proof (induction ws' rule: rev_induct)
  case (snoc w ws')
  then show ?case by (cases w) (simp_all add: ownBlockKey_def updated_ownBlock flip: append_assoc)
qed simp

lemma own_read:
  assumes "env_ok E c tc enc" "stored c enc ws st"
  shows "store_getOwnBlock (eB E) (eP E) r st =
    (case content enc ws (ownBlockKey r) of None \<Rightarrow> Inl ErrKeyNotFound | Some v \<Rightarrow> uSignedData (eP E) v)"
  unfolding store_getOwnBlock_def using View_read [OF _ assms(2) keys_nonempty(5), of "eB E" tc] assms(1) by (simp add: env_ok_def)

lemma own_read_frame:
  assumes E: "env_ok E c tc enc" "stored c enc ws st" "foldE (apply_write (eB E) (eP E)) ws' st = Inr st'"
    "list_all (\<lambda>w. own_graph w = []) ws'"
  shows "store_getOwnBlock (eB E) (eP E) r st' = store_getOwnBlock (eB E) (eP E) r st"
  unfolding own_read [OF E(1) stored_after [OF E(1-3)]] own_read [OF E(1,2)] content_ownBlock_frame [OF E(4)] ..

lemma make_read:
  assumes E: "env_ok E c tc enc" and st: "stored c enc ws (s_store s)"
    and w: "store_setOwnBlock (eB E) (eP E) sd ref graph (s_store s) = Inr st'"
  shows "store_getOwnBlock (eB E) (eP E) i st' =
    (if i = Round (gBlock graph) then Inr sd else store_getOwnBlock (eB E) (eP E) i (s_store s))"
proof -
  have st': "stored c enc (ws @ [WriteOwn sd ref graph]) st'" by (rule stored_after_write [OF E st]) (simp add: w)
  have P: "uSignedData (eP E) (enc sd) = Inr sd" for sd using E by (simp add: env_ok_def signed_codec_def)
  show ?thesis
    unfolding own_read [OF E st'] own_read [OF E st] by (simp add: ownBlockKey_def updated_ownBlock P lexinum.enc_eq_iff)
qed

lemma receive_read:
  assumes "env_ok E c tc enc" "stored c enc ws (s_store s)" "svc_processBlock E sd s = Inr (r, s')"
  shows "store_getOwnBlock (eB E) (eP E) i (s_store s') = store_getOwnBlock (eB E) (eP E) i (s_store s)"
  using assms(3)
proof (rule receive_same)
  fix bd st assume st: "store_setBlock (eB E) (eP E) (bd_id bd) sd (s_store s) = Inr st" "s' = enqueue bd (s\<lparr>s_store := st\<rparr>)"
  have "foldE (apply_write (eB E) (eP E)) [WriteBlock (bd_id bd) sd] (s_store s) = Inr st" using st(1) by simp
  from own_read_frame [OF assms(1,2) this] show ?thesis by (simp add: st(2) enqueue_def)
qed

lemma quiet_read:
  assumes "env_ok E c tc enc" "stored c enc ws (s_store s)" "quiet E new s s'"
  shows "store_getOwnBlock (eB E) (eP E) i (s_store s') = store_getOwnBlock (eB E) (eP E) i (s_store s)"
proof -
  obtain ws' where ws': "list_all other_write ws'" "foldE (apply_write (eB E) (eP E)) ws' (s_store s) = Inr (s_store s')"
    using assms(3) unfolding quiet_def by blast
  have "list_all (\<lambda>w. own_graph w = []) ws'" using ws'(1) by (rule list.pred_mono_strong) (erule other_write.elims; simp)
  from own_read_frame [OF assms(1,2) ws'(2) this] show ?thesis .
qed

lemma restart_read:
  assumes "env_ok E c tc enc" "stored c enc ws (s_store s)" "svc_New E grow (Inr (db (s_store s))) cfg tn = Some (Inr s')"
  shows "store_getOwnBlock (eB E) (eP E) i (s_store s') = store_getOwnBlock (eB E) (eP E) i (s_store s)"
proof -
  have "s_store s' = \<lparr>closed = False, db = db (s_store s), nodeCount = length (cfg_Peers cfg) + 1\<rparr>"
    by (rule svc_New_Inr [OF assms(3)], assumption)
  then have "stored c enc ws (s_store s')" using assms(2) by (simp add: stored_def)
  from own_read [OF assms(1) this] own_read [OF assms(1,2)] show ?thesis by simp
qed

section \<open>Properties\<close>

text \<open>C29. Progress: in every state that a service can reach, over crashes and restarts, making the next block
  succeeds, and \<open>AddTransaction\<close> returns or waits. The buffer for transactions has the size of the
  configured limit and no access to it is out of range.\<close>

theorem service_progress:
  assumes "env_ok E c tc enc" and "signs E (cfg_Keys cfg) (cfg_NodeID cfg)" and "svc_reach E c grow cfg tn R X g s"
  shows "(\<exists>g' s'. genBlocks_step E (cfg_RateLimit cfg) drifted g s = Inr (g', s')) \<and>
    (\<exists>a s'. AddTransaction tx fee s = Inr (a, s')) \<and>
    s_txIdx s \<le> length (s_txData s) \<and>
    ByteSize_Int (BlockTransactionsSizeLimit (cfg_NetConsensus cfg)) = Inr (int (length (s_txData s)))"
proof -
  obtain ws where "stored c enc ws (s_store s)" using reach_inv [OF assms] by (rule svc_invD)
  moreover have "tx_inv cfg X s" using assms(3) by (rule reach_tx)
  ultimately show ?thesis
    using make_succeeds [OF assms(1)] add_succeeds [of X s tx fee] by (auto simp: tx_inv_def tx_holds_def)
qed

theorem service_progress_witness:
  "env_ok (mem_env 1) map_of map_of mem_enc \<and> signs (mem_env 1) (cfg_Keys (mem_cfg 1)) (cfg_NodeID (mem_cfg 1)) \<and>
   (\<exists>g s g' s' a s''. svc_reach (mem_env 1) map_of id (mem_cfg 1) 4 [] [] g s \<and>
      genBlocks_step (mem_env 1) (cfg_RateLimit (mem_cfg 1)) False g s = Inr (g', s') \<and>
      AddTransaction [1, 2, 3] 5 s = Inr (a, s''))"
proof -
  obtain g s where "svc_reach (mem_env 1) map_of id (mem_cfg 1) 4 [] [] g s" using mem_started [of 1 1] by blast
  with service_progress [OF mem_env_ok mem_signs this] mem_env_ok [of 1] mem_signs show ?thesis by blast
qed

section \<open>Own blocks and other nodes\<close>

text \<open>The own blocks in the store pass the checks of the nodes.\<close>

definition own_accepted :: "('db, 'txn, 'item, 'key) env \<Rightarrow> (u64, 'key) gmap \<Rightarrow> u64 \<Rightarrow> ('db, 'key) Service \<Rightarrow> bool" where
  "own_accepted E keys self s \<longleftrightarrow> (\<forall>r sd. store_getOwnBlock (eB E) (eP E) r (s_store s) = Inr sd \<longrightarrow>
     (\<exists>block bd. accepted E keys sd block bd \<and> bRound block = r \<and> bNode block = self))"

lemma made_accepted:
  assumes E: "env_ok E c tc enc" "signs E keys self" and inv: "svc_inv E c enc keys self R g s"
    and "\<forall>b\<in>set R. Node (bd_id b) \<noteq> self" and "genBlocks_step E rl drifted g s = Inr (g', s')" and "own_accepted E keys self s"
  shows "own_accepted E keys self s'"
proof -
  obtain ws where i: "s_nodeID s = self" "gv_round g = s_round s" "list_all (authentic E keys) R"
    "dg_within (set R) (s_depgraph s)" "stored c enc ws (s_store s)" "list_all (write_auth E keys self) ws"
    "chain_ok ws (s_round s) (s_prevhash s) (s_prevref s)" using inv by (rule svc_invD)
  obtain refs dg txs data refData st where
    b: "Depgraph.getBlocks (s_refSizeLimit s) (s_depgraph s) = (refs, dg)"
      "mBlock (eP E) (gen_block (gv_round g + 1) refs txs s) = Inr data"
      "mBlockReference (eP E) \<lparr>refHash = eSha E data, refNode = s_nodeID s, refRound = gv_round g + 1\<rparr> = Inr refData" and
    st: "store_setOwnBlock (eB E) (eP E) (own_signed E data refData) (own_signed E refData refData)
       (gen_graph (eSha E data) (gv_round g + 1) refs s) (s_store s) = Inr st" and
    s': "s_round s' = gv_round g + 1" "s_store s' = st"
    by (rule genBlocks_Inr [OF assms(5)]) (rule that, assumption+)
  have w: "set refs \<subseteq> set R" using getBlocks_within [OF i(4) b(1)] by simp
  have m: "makes E keys s refs txs data refData"
    unfolding makes_def using E b(2,3) i(1,2,3,6) chain_prev [OF i(7)] w by (auto simp: env_ok_def list_all_iff)
  have "\<forall>b\<in>set refs. Node (bd_id b) \<noteq> s_nodeID s" using assms(4) w i(1) by auto
  from makes_accepted [OF m this, of E]
  have "accepted E keys (own_signed E data refData) (gen_block (s_round s + 1) refs txs s) (own_data E data refData refs s)"
    by (simp add: agrees_def)
  moreover have "bRound (gen_block (s_round s + 1) refs txs s) = s_round s + 1" "bNode (gen_block (s_round s + 1) refs txs s) = self"
    by (simp_all add: gen_block_def i(1))
  ultimately show ?thesis
    using assms(6) make_read [OF E(1) i(5) st] unfolding own_accepted_def s'(2) i(2) by (auto simp: gen_graph_def split: if_splits)
qed

lemma reach_accepted:
  assumes E: "env_ok E c tc enc" "signs E (cfg_Keys cfg) (cfg_NodeID cfg)" and "svc_reach E c grow cfg tn R X g s"
  shows "\<forall>b\<in>set R. Node (bd_id b) \<noteq> cfg_NodeID cfg \<Longrightarrow> own_accepted E (cfg_Keys cfg) (cfg_NodeID cfg) s"
proof -
  have st: "\<exists>ws. stored c enc ws (s_store s)" if "svc_reach E c grow cfg tn R X g s" for R X g s
    using reach_inv [OF E that] unfolding svc_inv_def by blast
  have same: "own_accepted E (cfg_Keys cfg) (cfg_NodeID cfg) s \<Longrightarrow>
      (\<And>i. store_getOwnBlock (eB E) (eP E) i (s_store s') = store_getOwnBlock (eB E) (eP E) i (s_store s)) \<Longrightarrow>
      own_accepted E (cfg_Keys cfg) (cfg_NodeID cfg) s'" for s s' by (simp add: own_accepted_def)
  have quiet: "own_accepted E (cfg_Keys cfg) (cfg_NodeID cfg) s'"
    if r: "svc_reach E c grow cfg tn R X g s" and q: "quiet E new s s'" and a: "own_accepted E (cfg_Keys cfg) (cfg_NodeID cfg) s" for R X g s new s'
  proof -
    obtain ws where "stored c enc ws (s_store s)" using st [OF r] by (rule exE)
    from quiet_read [OF E(1) this q] show ?thesis by (rule same [OF a])
  qed
  show "\<forall>b\<in>set R. Node (bd_id b) \<noteq> cfg_NodeID cfg \<Longrightarrow> own_accepted E (cfg_Keys cfg) (cfg_NodeID cfg) s"
    using assms(3)
  proof (induction rule: svc_reach.induct)
    case (start d s)
    have "s_store s = \<lparr>closed = False, db = d, nodeCount = length (cfg_Peers cfg) + 1\<rparr>"
      by (rule svc_New_Inr [OF start(2)], assumption)
    then have "stored c enc [] (s_store s)" using start(1) by (simp add: stored_def)
    from own_read [OF E(1) this] show ?case by (simp add: own_accepted_def)
  next
    case (make R X g s drifted g' s')
    then show ?case by (intro made_accepted [OF E reach_inv [OF E make.hyps(1)] _ make.hyps(2)])
  next
    case (process R X g s n s')
    from process.hyps(2) show ?case by (rule depgraph_step_Inr) (use process.IH process.prems in \<open>simp add: own_accepted_def\<close>)
  next
    case (read_own R X g s r b s')
    from read_own.hyps(2) show ?case
      by (rule read_own_same) (use read_own.IH read_own.prems in \<open>simp_all add: own_accepted_def\<close>)
  next
    case (restart R X g s s')
    from st [OF restart.hyps(1)] obtain ws where "stored c enc ws (s_store s)" by blast
    note read = restart_read [OF E(1) this restart.hyps(2)]
    have "own_accepted E (cfg_Keys cfg) (cfg_NodeID cfg) s" using restart.prems by (intro restart.IH) simp
    then show ?case using read by (rule same)
  next
    case (receive R X g s sd r s' bs)
    from st [OF receive.hyps(1)] obtain ws where "stored c enc ws (s_store s)" by blast
    note read = receive_read [OF E(1) this receive.hyps(2)]
    have "own_accepted E (cfg_Keys cfg) (cfg_NodeID cfg) s" using receive.prems by (intro receive.IH) simp
    then show ?case using read by (rule same)
  qed (blast intro: quiet quiet_steps)+
qed

lemma accepted_agrees: "agrees E E' \<Longrightarrow> accepted E' keys sd block bd = accepted E keys sd block bd"
proof -
  assume "agrees E E'"
  then have a: "eP E' = eP E" "eSha E' = eSha E" "eVerify E' = eVerify E" by (simp_all add: agrees_def)
  have "check_previous E' k b = check_previous E k b" for k b unfolding check_previous_def a ..
  moreover have "check_references E' keys n srefs = check_references E keys n srefs" for n srefs
    by (induction srefs) (simp_all only: check_references.simps a)
  ultimately show ?thesis unfolding accepted_def a by (simp only:)
qed

lemma peer_accepts:
  assumes "agrees E E'" "badger_ok (eB E') c' tc'" "signed_codec (eP E') enc" "accepted E (s_keys p) sd block bd" "\<not> closed (s_store p)"
  shows "\<exists>st. store_setBlock (eB E') (eP E') (bd_id bd) sd (s_store p) = Inr st \<and> \<not> closed st \<and>
    svc_processBlock E' sd p = Inr (bRound block, enqueue bd (p\<lparr>s_store := st\<rparr>))"
proof -
  obtain st where st: "store_setBlock (eB E') (eP E') (bd_id bd) sd (s_store p) = Inr st" "\<not> closed st"
    using write_spec [OF assms(2,3,5), of "WriteBlock (bd_id bd) sd"] unfolding apply_write.simps by blast
  have "svc_processBlock E' sd p = Inr (bRound block, enqueue bd (p\<lparr>s_store := st\<rparr>))"
    unfolding processBlock_Inr accepted_agrees [OF assms(1)] using assms(4) st(1) by (intro exI conjI) (rule refl | assumption)+
  with st show ?thesis by (intro exI [of _ st]) simp
qed

lemma own_content:
  "r \<in> (\<lambda>g. Round (gBlock g)) ` set (own_graphs ws) \<Longrightarrow>
   \<exists>sd ref g. WriteOwn sd ref g \<in> set ws \<and> Round (gBlock g) = r \<and> content enc ws (ownBlockKey r) = Some (enc sd)"
proof (induction ws rule: rev_induct)
  case (snoc w ws)
  show ?case
  proof (cases "\<exists>sd ref g. w = WriteOwn sd ref g \<and> Round (gBlock g) = r")
    case True
    then show ?thesis by (force simp: ownBlockKey_def updated_ownBlock)
  next
    case False
    then have "r \<in> (\<lambda>g. Round (gBlock g)) ` set (own_graphs ws)" using snoc.prems by (cases w) auto
    with snoc.IH False show ?thesis by (cases w) (auto simp: ownBlockKey_def updated_ownBlock lexinum.enc_eq_iff)
  qed
qed simp

lemma in_rounds_upto:
  assumes "1 \<le> r" "r \<le> (of_nat n :: u64)"
  shows "r \<in> set (rounds_upto n)"
proof -
  have "0 < unat r" using assms(1) by (simp add: word_le_nat_alt)
  moreover have "unat r \<le> unat (of_nat n :: u64)" using assms(2) by (simp add: word_le_nat_alt)
  then have "unat r \<le> n" by (rule order_trans) (simp add: unat_of_nat)
  ultimately have "unat r \<in> set [1..<Suc n]" by (simp only: set_upt atLeastLessThan_iff) simp
  then have "of_nat (unat r) \<in> set (rounds_upto n)" unfolding rounds_upto_def set_map by (rule imageI)
  then show ?thesis by simp
qed

lemma own_rounds_stored:
  assumes E: "env_ok E c tc enc" "signs E (cfg_Keys cfg) (cfg_NodeID cfg)" "svc_reach E c grow cfg tn R X g s"
    and r: "1 \<le> r" "r \<le> s_round s"
  shows "\<exists>b. store_getOwnBlock (eB E) (eP E) r (s_store s) = Inr b"
proof -
  obtain ws where ws: "stored c enc ws (s_store s)" "chain_ok ws (s_round s) (s_prevhash s) (s_prevref s)"
    using reach_inv [OF E] by (rule svc_invD)
  have "r \<in> set (rounds_upto (length (own_graphs ws)))"
    using r ws(2) by (intro in_rounds_upto) (simp_all add: chain_ok_def)
  then have "r \<in> (\<lambda>g. Round (gBlock g)) ` set (own_graphs ws)" using ws(2) by (simp add: chain_ok_def flip: set_map)
  from own_content [OF this, of enc] obtain sd where "content enc ws (ownBlockKey r) = Some (enc sd)" by blast
  with E(1) show ?thesis unfolding own_read [OF E(1) ws(1)] by (simp add: env_ok_def signed_codec_def)
qed

lemma mem_makes:
  assumes "svc_reach (mem_env 1) map_of id (mem_cfg 1) 4 R X g s"
  shows "\<exists>g' s'. genBlocks_step (mem_env 1) (cfg_RateLimit (mem_cfg 1)) d g s = Inr (g', s')"
  using make_succeeds [OF mem_env_ok] reach_inv [OF mem_env_ok mem_signs assms] reach_tx [OF assms]
  unfolding svc_inv_def tx_inv_def by blast

lemma mem_first: "\<exists>g s. svc_reach (mem_env 1) map_of id (mem_cfg 1) 4 [] [] g s \<and> s_round s = 1"
proof -
  obtain s where r: "svc_reach (mem_env 1) map_of id (mem_cfg 1) 4 [] [] (gen_start (cfg_RateLimit (mem_cfg 1)) s) s"
    and n: "svc_New (mem_env 1) id (Inr []) (mem_cfg 1) 4 = Some (Inr s)" using mem_started [of 1 1] by blast
  obtain g' s' where m: "genBlocks_step (mem_env 1) (cfg_RateLimit (mem_cfg 1)) False (gen_start (cfg_RateLimit (mem_cfg 1)) s) s = Inr (g', s')"
    using mem_makes [OF r] by blast
  have "s_round s' = s_round s + 1" by (rule genBlocks_Inr [OF m]) (simp add: gen_start_def)
  moreover have "s_round s = 0" using fresh_round [OF mem_env_ok _ n] by simp
  ultimately show ?thesis using svc_reach.make [OF r m] by auto
qed



section \<open>The cache of own blocks\<close>

definition cache_ok :: "('db, 'txn, 'item, 'key) env \<Rightarrow> ('db, 'key) Service \<Rightarrow> bool" where
  "cache_ok E s \<longleftrightarrow> (\<forall>r b. ob_get r (s_ownBlocks s) = Some b \<longrightarrow> store_getOwnBlock (eB E) (eP E) r (s_store s) = Inr b)"

lemma cache_quiet:
  assumes "env_ok E c tc enc" "stored c enc ws (s_store s)" "quiet E new s s'" "cache_ok E s"
  shows "cache_ok E s'"
  using assms(3,4) quiet_read [OF assms(1-3)] by (simp add: cache_ok_def quiet_def)

lemma cache_receive:
  assumes "env_ok E c tc enc" "stored c enc ws (s_store s)" "svc_processBlock E sd s = Inr (r, s')" "cache_ok E s"
  shows "cache_ok E s'"
proof -
  have "s_ownBlocks s' = s_ownBlocks s" by (rule receive_same [OF assms(3)]) (simp add: enqueue_def)
  with assms(4) receive_read [OF assms(1-3)] show ?thesis by (simp add: cache_ok_def)
qed

lemma cache_make:
  assumes E: "env_ok E c tc enc" and st: "stored c enc ws (s_store s)"
    and "genBlocks_step E rl drifted g s = Inr (g', s')" and "cache_ok E s"
  shows "cache_ok E s'"
  using assms(3)
proof (rule genBlocks_Inr)
  fix refs dg txs data refData st'
  assume a: "store_setOwnBlock (eB E) (eP E) (own_signed E data refData) (own_signed E refData refData)
      (gen_graph (eSha E data) (gv_round g + 1) refs s) (s_store s) = Inr st'" "s_store s' = st'"
    "\<forall>r b. ob_get r (s_ownBlocks s') = Some b \<longrightarrow>
       (if r = gv_round g + 1 then b = own_signed E data refData else ob_get r (s_ownBlocks s) = Some b)"
  from make_read [OF E st a(1)] a(2,3) assms(4) show ?thesis by (auto simp: cache_ok_def gen_graph_def split: if_splits)
qed

lemma reach_cache:
  assumes E: "env_ok E c tc enc" "signs E (cfg_Keys cfg) (cfg_NodeID cfg)" and "svc_reach E c grow cfg tn R X g s"
  shows "cache_ok E s"
proof -
  have st: "\<exists>ws. stored c enc ws (s_store s)" if "svc_reach E c grow cfg tn R X g s" for R X g s
    using reach_inv [OF E that] unfolding svc_inv_def by blast
  have new: "cache_ok E s" if "svc_New E grow (Inr d) cfg tn = Some (Inr s)" for d s
    using that by (rule svc_New_Inr) (simp add: cache_ok_def ob_get_def)
  show ?thesis
    using assms(3)
  proof (induction rule: svc_reach.induct)
    case (read_own R X g s r b s')
    from read_own.hyps(2) read_own.IH show ?case
      by (elim read_own_same) (simp_all add: cache_ok_def)
  next
    case (process R X g s n s')
    from process.hyps(2) show ?case by (rule depgraph_step_Inr) (use process.IH in \<open>simp add: cache_ok_def\<close>)
  qed (blast dest: st intro: new cache_quiet [OF E(1)] cache_receive [OF E(1)] cache_make [OF E(1)] quiet_steps)+
qed



end
