(* ===== verification/Transact.thy ===== *)
theory Transact
  imports ServiceProps
begin

text \<open>
  The way of a transaction: from \<open>AddTransaction\<close> through the buffer of the service into the next own
  block, out of which the iterator of \<open>broadcast/types.go\<close> reads it again.
\<close>

section \<open>Blocks that are made\<close>

lemma genBlocks_rate:
  assumes "genBlocks_step E rl drifted g s = Inr (g', s')"
  shows "gv_rate g' = next_rate rl drifted (gv_rate g)" "s_txCountLimit s' = next_rate rl drifted (gv_rate g)"
proof -
  obtain refs dg where rd: "Depgraph.getBlocks (s_refSizeLimit s) (s_depgraph s) = (refs, dg)" by (rule prod.exhaust)
  have "gv_rate g' = next_rate rl drifted (gv_rate g) \<and> s_txCountLimit s' = next_rate rl drifted (gv_rate g)"
    using assms unfolding genBlocks_step_def Let_def rd prod.case
    by (elim bindE_InrE)
      (simp only: orFatal_Inr, erule svc_setOwnBlock_Inr, simp add: finish_round_def graph_add_def Let_def, elim conjE, hypsubst_thin, simp)
  then show "gv_rate g' = next_rate rl drifted (gv_rate g)" "s_txCountLimit s' = next_rate rl drifted (gv_rate g)" by simp_all
qed

lemma reach_rate:
  assumes "svc_reach E c grow cfg tn R X g s" and "0 \<le> RateIncrease (cfg_RateLimit cfg)"
  shows "InitialRate (cfg_RateLimit cfg) \<le> gv_rate g"
  using assms(1)
proof (induction rule: svc_reach.induct)
  case (make R X g s drifted g' s')
  then show ?case using assms(2) genBlocks_rate(1) [OF make.hyps(2)] by (auto simp: next_rate_def Let_def)
qed (simp_all add: gen_start_def)

lemma made_block:
  assumes E: "env_ok E c tc enc" and st: "stored c enc ws (s_store s)"
    and "genBlocks_step E rl drifted g s = Inr (g', s')"
  obtains refs txs data sg where "gslice (s_txData s) 0 (s_txIdx s) = Inr txs"
    "uBlock (eP E) data = Inr (gen_block (gv_round g + 1) refs txs s)"
    "store_getOwnBlock (eB E) (eP E) (s_round s') (s_store s') = Inr \<lparr>Data = data, Signature = sg\<rparr>"
  using assms(3)
proof (rule genBlocks_Inr)
  fix refs dg txs data refData st'
  let ?graph = "gen_graph (eSha E data) (gv_round g + 1) refs s"
  assume a: "gslice (s_txData s) 0 (s_txIdx s) = Inr txs" "mBlock (eP E) (gen_block (gv_round g + 1) refs txs s) = Inr data"
    "store_setOwnBlock (eB E) (eP E) (own_signed E data refData) (own_signed E refData refData) ?graph (s_store s) = Inr st'"
    "s_store s' = st'" "s_round s' = gv_round g + 1"
  have "stored c enc (ws @ [WriteOwn (own_signed E data refData) (own_signed E refData refData) ?graph]) st'"
    by (rule stored_after_write [OF E st]) (simp add: a(3))
  from own_block_stored(1) [OF _ _ this, of "eB E" tc "eP E"] E
  have "store_getOwnBlock (eB E) (eP E) (s_round s') (s_store s') = Inr (own_signed E data refData)"
    by (simp add: env_ok_def gen_graph_def a(4,5))
  moreover have "uBlock (eP E) data = Inr (gen_block (gv_round g + 1) refs txs s)"
    using E a(2) by (auto simp: env_ok_def intro: uBlock_back)
  ultimately show thesis using a(1) that by blast
qed

text \<open>A service in memory that has taken a transaction.\<close>

lemma mem_transaction: "\<exists>g s. svc_reach (mem_env 1) map_of id (mem_cfg 1) 4 [] [\<lparr>tdData = [1, 2, 3], tdFee = 5\<rparr>] g s"
proof -
  obtain g s where r: "svc_reach (mem_env 1) map_of id (mem_cfg 1) 4 [] [] g s" using mem_started [of 1 1] by blast
  obtain g' s' where m: "genBlocks_step (mem_env 1) (cfg_RateLimit (mem_cfg 1)) False g s = Inr (g', s')"
    using mem_makes [OF r] by blast
  have r': "svc_reach (mem_env 1) map_of id (mem_cfg 1) 4 [] [] g' s'" using r m by (rule svc_reach.make)
  have t: "tx_inv (mem_cfg 1) [] s'" using r' by (rule reach_tx)
  have "s_txCountLimit s' = gv_rate g'" using genBlocks_rate [OF m] by simp
  then have "0 < s_txCountLimit s'" using reach_rate [OF r'] by (simp add: mem_cfg_def)
  moreover have "s_txIdx s' = 0" "s_txCount s' = 0" by (rule genBlocks_Inr [OF m], assumption)+
  moreover have "s_txSizeLimit s' = 1000" using t by (simp add: tx_inv_def mem_limits)
  moreover obtain a s'' where "AddTransaction [1, 2, 3] 5 s' = Inr (a, s'')"
    using t add_succeeds unfolding tx_inv_def by blast
  ultimately have "AddTransaction [1, 2, 3] 5 s' = Inr (Added, s'')"
    by (auto simp: AddTransaction_def Let_def bindE_eq_Inr)
  from svc_reach.transaction [OF r' this] show ?thesis by (auto simp: newly_def)
qed

section \<open>Properties\<close>

lemma transactions_decoded:
  assumes "tx_holds X s" "s_txSizeLimit s < 2 ^ 63" "gslice (s_txData s) 0 (s_txIdx s) = Inr txs"
  shows "bindE (Iter (gen_block r refs txs s)) tx_loop = Inr X"
proof -
  have h: "s_txIdx s \<le> length (s_txData s)" "take (s_txIdx s) (s_txData s) = concat (map tx_bytes X)"
    "s_txCount s = int (length X)" "\<forall>x\<in>set X. length (tdData x) < 2 ^ 32" "int (length (s_txData s)) = s_txSizeLimit s"
    using assms(1) by (simp_all add: tx_holds_def)
  have "txs = concat (map tx_bytes X)" using assms(3) h(1,2) by (simp add: gslice_def)
  moreover have "length X < 2 ^ 64"
  proof -
    have "length X \<le> length (concat (map tx_bytes X))" by (induction X) simp_all
    also have "\<dots> = length (take (s_txIdx s) (s_txData s))" by (simp only: h(2))
    also have "\<dots> \<le> length (s_txData s)" by simp
    finally have "int (length X) < 2 ^ 63" using assms(2) h(5) by linarith
    then show ?thesis by simp
  qed
  ultimately show ?thesis
    using h(3,4) by (simp add: Iter_def gen_block_def) (intro tx_loop_tx_bytes [of _ "[]" _ "[]"]; simp add: unat_of_nat)
qed



text \<open>C33. Admission of transactions: once a block was made, \<open>AddTransaction\<close> takes every transaction that leaves
  100 bytes of the size limit free. A transaction of more than the limit is refused, and one in between
  waits again, after this block as after every other: the call never returns.\<close>

theorem transaction_admission:
  assumes "svc_reach E c grow cfg tn R X g s" and "genBlocks_step E (cfg_RateLimit cfg) drifted g s = Inr (g', s')"
    and "0 < InitialRate (cfg_RateLimit cfg)" and "0 \<le> RateIncrease (cfg_RateLimit cfg)"
  shows "\<exists>s''. AddTransaction tx fee s' = Inr
    (if length tx \<ge> 2 ^ 32 \<or> int (length tx) > s_txSizeLimit s' then TooLarge
     else if int (length tx) + 100 > s_txSizeLimit s' then Waits else Added, s'')"
proof -
  have tx: "tx_inv cfg [] s'" by (rule reach_tx [OF svc_reach.make [OF assms(1,2)]])
  obtain a s'' where a: "AddTransaction tx fee s' = Inr (a, s'')" using tx add_succeeds unfolding tx_inv_def by blast
  have "0 < s_txCountLimit s'"
    using reach_rate [OF svc_reach.make [OF assms(1,2)] assms(4)] assms(3) genBlocks_rate [OF assms(2)] by simp
  moreover have "s_txIdx s' = 0" "s_txCount s' = 0" by (rule genBlocks_Inr [OF assms(2)], assumption)+
  ultimately have "a = (if length tx \<ge> 2 ^ 32 \<or> int (length tx) > s_txSizeLimit s' then TooLarge
     else if int (length tx) + 100 > s_txSizeLimit s' then Waits else Added)"
    using a by (auto simp: AddTransaction_def Let_def bindE_eq_Inr split: if_splits)
  with a show ?thesis by blast
qed

theorem transaction_admission_witness:
  "\<exists>g s g' s' s''. svc_reach (mem_env 1) map_of id (mem_cfg 1) 4 [] [] g s \<and>
     genBlocks_step (mem_env 1) (cfg_RateLimit (mem_cfg 1)) False g s = Inr (g', s') \<and> s_txSizeLimit s' = 1000 \<and>
     AddTransaction (replicate 950 1) 5 s' = Inr (Waits, s'')"
proof -
  obtain g s where r: "svc_reach (mem_env 1) map_of id (mem_cfg 1) 4 [] [] g s" using mem_started [of 1 1] by blast
  obtain g' s' where m: "genBlocks_step (mem_env 1) (cfg_RateLimit (mem_cfg 1)) False g s = Inr (g', s')"
    using mem_makes [OF r] by blast
  have l: "s_txSizeLimit s' = 1000" using reach_tx [OF svc_reach.make [OF r m]] by (simp add: tx_inv_def mem_limits)
  have "\<exists>s''. AddTransaction (replicate 950 1) 5 s' = Inr (Waits, s'')"
    using transaction_admission [OF r m, of "replicate 950 1" 5] l by (simp add: mem_cfg_def)
  with r m l show ?thesis by blast
qed

end
