(* ===== verification/Sending.thy ===== *)
theory Sending
  imports ServiceProps
begin

text \<open>
  The exchange of blocks between two nodes: what a node sends to a peer, what the peer does with it and
  how the acknowledgement moves the sender on.
\<close>

section \<open>Unsent blocks\<close>

definition load :: "SignedData \<Rightarrow> int" where
  "load b = int (length (Data b)) + int (length (Signature b)) + 100"

definition own_run :: "('db, 'txn, 'item, 'key) env \<Rightarrow> u64 \<Rightarrow> SignedData list \<Rightarrow> 'db store \<Rightarrow> bool" where
  "own_run E r bs st \<longleftrightarrow> (\<forall>k<length bs. store_getOwnBlock (eB E) (eP E) (r + of_nat k) st = Inr (bs ! k))"

lemma own_run_snoc: "own_run E r (bs @ [b]) st \<longleftrightarrow> own_run E r bs st \<and> store_getOwnBlock (eB E) (eP E) (r + of_nat (length bs)) st = Inr b"
  by (auto simp: own_run_def nth_append less_Suc_eq)

lemma cached_read:
  assumes "cache_ok E s" "store_getOwnBlock (eB E) (eP E) r (s_store s) = Inr b"
  obtains s' where "svc_getOwnBlock E r s = Inr (b, s')" "cache_ok E s'" "s_store s' = s_store s"
proof (cases "ob_get r (s_ownBlocks s)")
  case None
  with assms show ?thesis by (intro that [of "s\<lparr>s_ownBlocks := ob_set r b (s_ownBlocks s)\<rparr>"]) (simp_all add: svc_getOwnBlock_def cache_ok_def)
next
  case (Some b')
  then have "b' = b" using assms by (auto simp: cache_ok_def)
  with Some assms show ?thesis by (intro that [of s]) (simp_all add: svc_getOwnBlock_def)
qed

text \<open>What the loop returns: a run of own blocks that fits the payload and stops at the newest block or
  where the next one would not fit.\<close>

definition maximal_run ::
    "('db, 'txn, 'item, 'key) env \<Rightarrow> int \<Rightarrow> u64 \<Rightarrow> u64 \<Rightarrow> SignedData list \<Rightarrow> 'db store \<Rightarrow> bool" where
  "maximal_run E maxPayload r cur bs st \<longleftrightarrow> own_run E r bs st \<and> sum_list (map load bs) \<le> maxPayload \<and>
     (unat r + length bs = unat cur + 1 \<or> unat r + length bs \<le> unat cur \<and>
      (\<exists>b. store_getOwnBlock (eB E) (eP E) (r + of_nat (length bs)) st = Inr b \<and> sum_list (map load bs) + load b > maxPayload))"

definition unsent_done ::
    "('db, 'txn, 'item, 'key) env \<Rightarrow> int \<Rightarrow> u64 \<Rightarrow> u64 \<Rightarrow> 'db store \<Rightarrow> (SignedData list \<times> ('db, 'key) Service) res \<Rightarrow> bool" where
  "unsent_done E maxPayload r cur st result \<longleftrightarrow>
     (\<exists>bs s'. result = Inr (bs, s') \<and> bs \<noteq> [] \<and> maximal_run E maxPayload r cur bs st \<and> cache_ok E s' \<and> s_store s' = st) \<or>
     (\<exists>b. store_getOwnBlock (eB E) (eP E) r st = Inr b \<and> load b > maxPayload \<and>
        result = Inl (Fatal ''Size of individual block exceeds max payload size''))"

lemma unsent_iter:
  assumes "i \<le> cur" "svc_getOwnBlock E i s = Inr (b, s')"
  shows "unsent_loop E maxPayload cur last0 i tot bs s =
    (if tot + load b > maxPayload then
       (if i = last0 then Inl (Fatal ''Size of individual block exceeds max payload size'') else Inr (bs, s'))
     else unsent_loop E maxPayload cur last0 (i + 1) (tot + load b) (bs @ [b]) s')"
  by (subst unsent_loop.simps) (simp add: assms load_def add.assoc)

lemma unat_next: "i \<le> cur \<Longrightarrow> cur \<noteq> - 1 \<Longrightarrow> unat (i + 1 :: u64) = unat i + 1"
proof -
  assume "i \<le> cur" "cur \<noteq> - 1"
  then have "i < - 1" using word_order.not_eq_extremum [of cur] by (simp add: order_le_less_trans)
  then show ?thesis using unat_incr by auto
qed

lemma unsent_loop_spec:
  assumes all: "\<And>r. last0 \<le> r \<Longrightarrow> r \<le> cur \<Longrightarrow> \<exists>b. store_getOwnBlock (eB E) (eP E) r st = Inr b"
    and cur: "last0 \<le> cur" "cur \<noteq> - 1"
  shows "cache_ok E s \<Longrightarrow> s_store s = st \<Longrightarrow> own_run E last0 bs st \<Longrightarrow> i = last0 + of_nat (length bs) \<Longrightarrow>
    unat i = unat last0 + length bs \<Longrightarrow> unat i \<le> unat cur + 1 \<Longrightarrow> sum_list (map load bs) \<le> maxPayload \<Longrightarrow>
    unsent_done E maxPayload last0 cur st (unsent_loop E maxPayload cur last0 i (sum_list (map load bs)) bs s)"
proof (induction "unat cur + 1 - unat i" arbitrary: i bs s)
  case 0
  then have "unat i = unat cur + 1" by simp
  moreover from this have "\<not> i \<le> cur" by (simp add: word_le_nat_alt)
  moreover have "bs \<noteq> []" using cur(1) calculation(1) 0(6) by (auto simp: word_le_nat_alt)
  ultimately show ?case using 0 by (subst unsent_loop.simps) (simp add: unsent_done_def maximal_run_def)
next
  case (Suc n)
  then have le: "i \<le> cur" "last0 \<le> i" by (simp_all add: word_le_nat_alt)
  then obtain b where b: "store_getOwnBlock (eB E) (eP E) i (s_store s) = Inr b" using all Suc(4) by blast
  obtain s' where s': "svc_getOwnBlock E i s = Inr (b, s')" "cache_ok E s'" "s_store s' = s_store s"
    using Suc(3) b by (rule cached_read)
  show ?case
  proof (cases "sum_list (map load bs) + load b > maxPayload")
    case True
    then show ?thesis
      using Suc.prems b s' le by (cases "bs = []") (auto simp: unsent_iter unsent_done_def maximal_run_def word_le_nat_alt)
  next
    case False
    have "unsent_done E maxPayload last0 cur st
        (unsent_loop E maxPayload cur last0 (i + 1) (sum_list (map load (bs @ [b]))) (bs @ [b]) s')"
      using Suc.prems Suc.hyps(2) b s' False unat_next [OF le(1) cur(2)]
      by (intro Suc.hyps(1)) (simp_all add: own_run_snoc)
    with False show ?thesis by (simp add: unsent_iter [OF le(1) s'(1)])
  qed
qed

section \<open>The exchange\<close>

text \<open>The messages of the exchange survive the codec.\<close>

definition msg_codec :: "proto \<Rightarrow> bool" where
  "msg_codec P \<longleftrightarrow>
     (\<forall>bs. \<exists>d. mListBlocks P \<lparr>lbBlocks = map Some bs\<rparr> = Inr d \<and> uListBlocks P d = Inr \<lparr>lbBlocks = map Some bs\<rparr>) \<and>
     (\<forall>a. \<exists>d. mAckBroadcast P a = Inr d \<and> uAckBroadcast P d = Inr a)"

lemma broadcast_blocks_ok:
  assumes "agrees E E'" "badger_ok (eB E') c' tc'" "signed_codec (eP E') enc"
  shows "list_all2 (\<lambda>sd (block, bd). accepted E keys sd block bd) bs xs \<Longrightarrow> s_keys p = keys \<Longrightarrow> \<not> closed (s_store p) \<Longrightarrow>
    \<exists>p'. broadcast_blocks E' (map Some bs) l p = (Inr (if xs = [] then l else bRound (fst (last xs))), p') \<and>
      dg_in (s_depgraph p') = dg_in (s_depgraph p) @ map snd xs"
proof (induction bs xs arbitrary: p l rule: list_all2_induct)
  case Nil
  then show ?case by simp
next
  case (Cons sd bs x xs)
  obtain block bd where x: "x = (block, bd)" by (cases x)
  have a: "accepted E (s_keys p) sd block bd" using Cons by (simp add: x)
  obtain st where st: "\<not> closed st" "svc_processBlock E' sd p = Inr (bRound block, enqueue bd (p\<lparr>s_store := st\<rparr>))"
    using peer_accepts [OF assms a Cons.prems(2)] by (elim exE conjE) (rule that, assumption+)
  have "\<exists>p'. broadcast_blocks E' (map Some bs) (bRound block) (enqueue bd (p\<lparr>s_store := st\<rparr>)) =
      (Inr (if xs = [] then bRound block else bRound (fst (last xs))), p') \<and>
      dg_in (s_depgraph p') = dg_in (s_depgraph (enqueue bd (p\<lparr>s_store := st\<rparr>))) @ map snd xs"
    using Cons.prems(1) st(1) by (intro Cons.IH) simp_all
  then show ?case by (cases "xs = []") (simp_all add: svc_processBlock_ptr_def st(2) x enqueue_def dg_add_def)
qed

lemma run_accepted:
  assumes "own_run E r bs (s_store s)" "own_accepted E keys self s"
  shows "\<exists>xs. list_all2 (\<lambda>sd (block, bd). accepted E keys sd block bd) bs xs \<and>
    map (\<lambda>x. (Node (bd_id (snd x)), Round (bd_id (snd x)))) xs = map (\<lambda>k. (self, r + of_nat k)) [0..<length bs] \<and>
    map (\<lambda>x. bRound (fst x)) xs = map (\<lambda>k. r + of_nat k) [0..<length bs]"
proof -
  have "\<exists>x. accepted E keys (bs ! k) (fst x) (snd x) \<and> bRound (fst x) = r + of_nat k \<and> bNode (fst x) = self"
    if k: "k < length bs" for k
  proof -
    have "store_getOwnBlock (eB E) (eP E) (r + of_nat k) (s_store s) = Inr (bs ! k)" using assms(1) k by (simp add: own_run_def)
    from assms(2) [unfolded own_accepted_def, rule_format, OF this]
    obtain block bd where "accepted E keys (bs ! k) block bd" "bRound block = r + of_nat k" "bNode block = self"
      by (elim exE conjE)
    then show ?thesis by (intro exI [of _ "(block, bd)"]) simp
  qed
  then have "\<forall>k<length bs. \<exists>x. accepted E keys (bs ! k) (fst x) (snd x) \<and> bRound (fst x) = r + of_nat k \<and> bNode (fst x) = self"
    by simp
  then obtain xs where n: "length xs = length bs" and x: "\<forall>k<length bs. accepted E keys (bs ! k) (fst (xs ! k)) (snd (xs ! k)) \<and>
      bRound (fst (xs ! k)) = r + of_nat k \<and> bNode (fst (xs ! k)) = self"
    unfolding Skolem_list_nth by (elim exE conjE)
  have i: "bd_id (snd (xs ! k)) = \<lparr>Hash = eSha E (Data (bs ! k)), Node = self, Round = r + of_nat k\<rparr>" if "k < length bs" for k
    using x [rule_format, OF that] unfolding accepted_def by (elim conjE) simp
  have "map (\<lambda>x. (Node (bd_id (snd x)), Round (bd_id (snd x)))) xs = map (\<lambda>k. (self, r + of_nat k)) [0..<length bs]"
    using n by (intro nth_equalityI) (simp_all add: i)
  moreover have "map (\<lambda>x. bRound (fst x)) xs = map (\<lambda>k. r + of_nat k) [0..<length bs]"
    using n x by (intro nth_equalityI) simp_all
  moreover have "list_all2 (\<lambda>sd (block, bd). accepted E keys sd block bd) bs xs"
    using n x by (simp add: list_all2_conv_all_nth case_prod_beta)
  ultimately show ?thesis by (intro exI [of _ xs] conjI)
qed

section \<open>A node in memory with one block\<close>

definition mem_facts :: "((bytes, bytes) gmap, u8) Service \<Rightarrow> bool" where
  "mem_facts s \<longleftrightarrow> s_round s = 1 \<and> sent_to 2 s = 0 \<and> s_maxPayload s = 100000 \<and>
     store_getOwnBlock memdb wire_proto 0 (s_store s) = Inl ErrKeyNotFound \<and>
     (case store_getOwnBlock memdb wire_proto 1 (s_store s) of Inr b \<Rightarrow> load b \<le> 100000 | Inl e \<Rightarrow> False)"

lemma mem_run:
  "case svc_New (mem_env 1) id (Inr []) (mem_cfg 1) 4 of
     Some (Inr s) \<Rightarrow> (case genBlocks_step (mem_env 1) (cfg_RateLimit (mem_cfg 1)) False (gen_start (cfg_RateLimit (mem_cfg 1)) s) s of
       Inr (g', s') \<Rightarrow> mem_facts s' | Inl _ \<Rightarrow> False)
   | _ \<Rightarrow> False"
  by code_simp

lemma mem_ready: "\<exists>g s. svc_reach (mem_env 1) map_of id (mem_cfg 1) 4 [] [] g s \<and> mem_facts s"
proof -
  obtain s where s: "svc_New (mem_env 1) id (Inr []) (mem_cfg 1) 4 = Some (Inr s)"
    "svc_reach (mem_env 1) map_of id (mem_cfg 1) 4 [] [] (gen_start (cfg_RateLimit (mem_cfg 1)) s) s"
    using mem_started [of 1 1] by blast
  obtain g' s' where m: "genBlocks_step (mem_env 1) (cfg_RateLimit (mem_cfg 1)) False (gen_start (cfg_RateLimit (mem_cfg 1)) s) s = Inr (g', s')"
    using mem_makes [OF s(2)] by blast
  have "mem_facts s'" using mem_run unfolding s(1) option.case sum.case m prod.case .
  with svc_reach.make [OF s(2) m] show ?thesis by blast
qed

lemma mem_msg_codec: "msg_codec wire_proto"
  by (simp add: msg_codec_def wire_proto_def dec_enc_list)

section \<open>Properties\<close>

lemma getUnsent_done:
  assumes "env_ok E c tc enc" and "signs E (cfg_Keys cfg) (cfg_NodeID cfg)" and "svc_reach E c grow cfg tn R X g s"
    and "s_round s \<noteq> - 1" and "sent_to peer s < s_round s" and "0 \<le> s_maxPayload s"
  obtains bs s' where "getUnsent E peer s = Inr (Some bs, s')" "bs \<noteq> []"
    "maximal_run E (s_maxPayload s) (sent_to peer s + 1) (s_round s) bs (s_store s)" "cache_ok E s'" "s_store s' = s_store s"
  | b where "store_getOwnBlock (eB E) (eP E) (sent_to peer s + 1) (s_store s) = Inr b" "load b > s_maxPayload s"
    "getUnsent E peer s = Inl (Fatal ''Size of individual block exceeds max payload size'')"
proof -
  let ?last = "sent_to peer s + 1"
  have n: "unat ?last = Suc (unat (sent_to peer s))" using assms(5) by (rule unat_incr)
  then have le: "1 \<le> ?last" "?last \<le> s_round s" using assms(5) by (simp_all add: word_le_nat_alt word_less_nat_alt)
  have all: "\<exists>b. store_getOwnBlock (eB E) (eP E) r (s_store s) = Inr b" if "?last \<le> r" "r \<le> s_round s" for r
    using own_rounds_stored [OF assms(1-3)] order_trans [OF le(1) that(1)] that(2) by blast
  have g: "getUnsent E peer s = bindE (unsent_loop E (s_maxPayload s) (s_round s) ?last ?last 0 [] s) (\<lambda>(blocks, s'). Inr (Some blocks, s'))"
    using le(2) by (simp add: getUnsent_def Let_def)
  have "unsent_done E (s_maxPayload s) ?last (s_round s) (s_store s) (unsent_loop E (s_maxPayload s) (s_round s) ?last ?last (sum_list (map load [])) [] s)"
    using le(2) assms(6)
    by (intro unsent_loop_spec [OF all le(2) assms(4) reach_cache [OF assms(1-3)]]) (simp_all add: own_run_def word_le_nat_alt)
  then show thesis using g that by (auto simp: unsent_done_def)
qed

text \<open>C34. What a node sends: when a peer is behind, \<open>getUnsent\<close> gives the own blocks that follow the last
  acknowledged round, without a gap, as many as the payload limit allows and at least one. It ends the
  process only when the first of them alone is over the limit.\<close>

theorem unsent_blocks:
  assumes "env_ok E c tc enc" and "signs E (cfg_Keys cfg) (cfg_NodeID cfg)" and "svc_reach E c grow cfg tn R X g s"
    and "s_round s \<noteq> - 1" and "sent_to peer s < s_round s" and "0 \<le> s_maxPayload s"
  shows "(\<exists>bs s'. getUnsent E peer s = Inr (Some bs, s') \<and> bs \<noteq> [] \<and>
      maximal_run E (s_maxPayload s) (sent_to peer s + 1) (s_round s) bs (s_store s)) \<or>
    (\<exists>b. store_getOwnBlock (eB E) (eP E) (sent_to peer s + 1) (s_store s) = Inr b \<and> load b > s_maxPayload s \<and>
      getUnsent E peer s = Inl (Fatal ''Size of individual block exceeds max payload size''))"
  using assms by (rule getUnsent_done) blast+

theorem unsent_blocks_witness:
  "\<exists>g s. svc_reach (mem_env 1) map_of id (mem_cfg 1) 4 [] [] g s \<and> sent_to 2 s < s_round s \<and>
     (\<exists>bs s'. getUnsent (mem_env 1) 2 s = Inr (Some bs, s') \<and> bs \<noteq> [])"
proof -
  obtain g s where r: "svc_reach (mem_env 1) map_of id (mem_cfg 1) 4 [] [] g s" and f: "mem_facts s" using mem_ready by blast
  have "\<exists>bs s'. getUnsent (mem_env 1) 2 s = Inr (Some bs, s') \<and> bs \<noteq> []"
    using unsent_blocks [OF mem_env_ok mem_signs r, of 2] f unfolding mem_facts_def mem_env_sel by auto
  with r f show ?thesis unfolding mem_facts_def by (intro exI [of _ g] exI [of _ s]) simp
qed

lemma step_acknowledged:
  assumes "getUnsent E peer s = Inr (Some bs, s')" "bs \<noteq> []"
    "mListBlocks (eP E) \<lparr>lbBlocks = map Some bs\<rparr> = Inr payload" "uAckBroadcast (eP E) (smPayload reply) = Inr \<lparr>Last = r\<rparr>"
    "send \<lparr>smID = 0, smError = [], smOpcode = OP_BROADCAST, smPayload = payload\<rparr> = Inr ()"
  shows "maintainBroadcast_step E send (Inr reply) peer s = Inr (False, markSent peer r s')"
  unfolding maintainBroadcast_step_def assms(1) bindE_Inr prod.case
  by (simp add: assms orElse_def)

lemma handled:
  assumes "agrees E E'" "badger_ok (eB E') c' tc'" "signed_codec (eP E') enc" "msg_codec (eP E)"
    "list_all2 (\<lambda>sd (block, bd). accepted E (s_keys p) sd block bd) bs xs" "xs \<noteq> []" "\<not> closed (s_store p)"
    "mListBlocks (eP E) \<lparr>lbBlocks = map Some bs\<rparr> = Inr payload"
  shows "\<exists>reply p'. svc_Handle E' self \<lparr>smID = 0, smError = [], smOpcode = OP_BROADCAST, smPayload = payload\<rparr> p = (Inr reply, p') \<and>
    uAckBroadcast (eP E) (smPayload reply) = Inr \<lparr>Last = bRound (fst (last xs))\<rparr> \<and>
    dg_in (s_depgraph p') = dg_in (s_depgraph p) @ map snd xs"
proof -
  have u: "uListBlocks (eP E) payload = Inr \<lparr>lbBlocks = map Some bs\<rparr>" using assms(4,8) unfolding msg_codec_def by (metis Inr_inject)
  obtain d where d: "mAckBroadcast (eP E) \<lparr>Last = bRound (fst (last xs))\<rparr> = Inr d" "uAckBroadcast (eP E) d = Inr \<lparr>Last = bRound (fst (last xs))\<rparr>"
    using assms(4) unfolding msg_codec_def by blast
  obtain p' where p': "broadcast_blocks E' (map Some bs) 0 p = (Inr (bRound (fst (last xs))), p')"
    "dg_in (s_depgraph p') = dg_in (s_depgraph p) @ map snd xs"
    using broadcast_blocks_ok [OF assms(1-3,5) refl assms(7), of 0] assms(6) by (simp only: if_False) (elim exE conjE, rule that)
  have e: "eP E' = eP E" using assms(1) by (simp add: agrees_def)
  show ?thesis
    by (rule exI [of _ "\<lparr>smID = 0, smError = [], smOpcode = OP_ACK_BROADCAST, smPayload = d\<rparr>"], rule exI [of _ p'])
      (simp add: svc_Handle_def handleBroadcastList_def OP_BROADCAST_def e u p' d)
qed



lemma step_marks:
  assumes "maintainBroadcast_step E send (Inr reply) peer s = Inr (False, s')" "getUnsent E peer s = Inr (Some bs, s1)" "bs \<noteq> []"
    "uAckBroadcast (eP E) (smPayload reply) = Inr \<lparr>Last = r\<rparr>"
  shows "s' = markSent peer r s1"
proof -
  obtain payload where p: "mListBlocks (eP E) \<lparr>lbBlocks = map Some bs\<rparr> = Inr payload"
    using assms(1-3) unfolding maintainBroadcast_step_def
    by (cases "mListBlocks (eP E) \<lparr>lbBlocks = map Some bs\<rparr>") (simp_all add: orFatal_def split: failure.splits)
  show ?thesis
  proof (cases "send \<lparr>smID = 0, smError = [], smOpcode = OP_BROADCAST, smPayload = payload\<rparr>")
    case (Inl e)
    with assms(1-3) p show ?thesis unfolding maintainBroadcast_step_def by (cases e) (simp_all add: orElse_def)
  next
    case (Inr u)
    with assms(1) step_acknowledged [OF assms(2,3) p assms(4), of send] show ?thesis by simp
  qed
qed

lemma unsent_round_zero:
  assumes "cache_ok E s" "store_getOwnBlock (eB E) (eP E) 0 (s_store s) = Inl ErrKeyNotFound" "sent_to peer s = - 1"
  shows "getUnsent E peer s = Inl (Fatal ''Unable to retrieve own block'')"
proof -
  have "ob_get 0 (s_ownBlocks s) = None" using assms(1,2) by (cases "ob_get 0 (s_ownBlocks s)") (auto simp: cache_ok_def)
  then have "svc_getOwnBlock E 0 s = Inl ErrKeyNotFound" using assms(2) by (simp add: svc_getOwnBlock_def)
  then show ?thesis using assms(3) by (simp add: getUnsent_def Let_def unsent_loop.simps [of _ _ _ _ 0] orFatal_def)
qed

text \<open>C36. A peer can stop a node: the acknowledged round is taken from the peer's message as it is. When a peer
  acknowledges the round \<open>2 ^ 64 - 1\<close>, the next round to send wraps to 0, and the sender ends its process
  because it has no such block.\<close>

theorem acknowledgement_stops_sender:
  assumes "svc_reach E c grow cfg tn R X g s" and "env_ok E c tc enc" and "signs E (cfg_Keys cfg) (cfg_NodeID cfg)"
    and "store_getOwnBlock (eB E) (eP E) 0 (s_store s) = Inl ErrKeyNotFound"
    and "maintainBroadcast_step E send (Inr reply) peer s = Inr (False, s')" and "sent_to peer s < s_round s" and "s_round s \<noteq> - 1"
    and "uAckBroadcast (eP E) (smPayload reply) = Inr \<lparr>Last = - 1\<rparr>" and "0 \<le> s_maxPayload s"
  shows "maintainBroadcast_step E send' reply' peer s' = Inl (Fatal ''Unable to retrieve own block'')"
proof (rule getUnsent_done [OF assms(2,3,1,7,6,9)])
  fix bs s1
  assume u: "getUnsent E peer s = Inr (Some bs, s1)" "bs \<noteq> []" "cache_ok E s1" "s_store s1 = s_store s"
  have s': "s' = markSent peer (- 1) s1" by (rule step_marks [OF assms(5) u(1,2) assms(8)])
  have "getUnsent E peer s' = Inl (Fatal ''Unable to retrieve own block'')"
    using u(3,4) assms(4) by (intro unsent_round_zero) (simp_all add: s' markSent_def cache_ok_def sent_to_def)
  then show ?thesis by (simp add: maintainBroadcast_step_def)
next
  assume "getUnsent E peer s = Inl (Fatal ''Size of individual block exceeds max payload size'')"
  with assms(5) show ?thesis by (simp add: maintainBroadcast_step_def)
qed

lemma mem_unsent:
  assumes "svc_reach (mem_env 1) map_of id (mem_cfg 1) 4 [] [] g s" "mem_facts s"
  shows "\<exists>bs s1. getUnsent (mem_env 1) 2 s = Inr (Some bs, s1) \<and> bs \<noteq> []"
proof -
  have f: "s_round s \<noteq> - 1" "sent_to 2 s < s_round s" "0 \<le> s_maxPayload s" using assms(2) by (simp_all add: mem_facts_def)
  show ?thesis
  proof (rule getUnsent_done [OF mem_env_ok mem_signs assms(1) f])
    fix b assume "store_getOwnBlock (eB (mem_env 1)) (eP (mem_env 1)) (sent_to 2 s + 1) (s_store s) = Inr b" "load b > s_maxPayload s"
    with assms(2) show ?thesis by (simp add: mem_facts_def mem_env_sel)
  qed (intro exI conjI)
qed

theorem acknowledgement_stops_sender_witness:
  "\<exists>g s s'. svc_reach (mem_env 1) map_of id (mem_cfg 1) 4 [] [] g s \<and>
     maintainBroadcast_step (mem_env 1) (\<lambda>_. Inr ()) (Inr \<lparr>smID = 0, smError = [], smOpcode = OP_ACK_BROADCAST, smPayload = le_put 8 (- 1 :: u64)\<rparr>) 2 s =
       Inr (False, s') \<and>
     maintainBroadcast_step (mem_env 1) (\<lambda>_. Inr ()) (Inl (Err ''closed'')) 2 s' = Inl (Fatal ''Unable to retrieve own block'')"
proof -
  let ?ack = "\<lparr>smID = 0, smError = [], smOpcode = OP_ACK_BROADCAST, smPayload = le_put 8 (- 1 :: u64)\<rparr>"
  obtain g s where r: "svc_reach (mem_env 1) map_of id (mem_cfg 1) 4 [] [] g s" and f: "mem_facts s" using mem_ready by blast
  have ack: "uAckBroadcast (eP (mem_env 1)) (smPayload ?ack) = Inr \<lparr>Last = - 1\<rparr>" by (simp add: mem_env_sel wire_proto_def)
  obtain bs s1 where u: "getUnsent (mem_env 1) 2 s = Inr (Some bs, s1)" "bs \<noteq> []"
    using mem_unsent [OF r f] by (elim exE conjE)
  obtain payload where "mListBlocks (eP (mem_env 1)) \<lparr>lbBlocks = map Some bs\<rparr> = Inr payload" by (simp add: mem_env_sel wire_proto_def)
  from step_acknowledged [OF u this ack, of "\<lambda>_. Inr ()"]
  have s': "maintainBroadcast_step (mem_env 1) (\<lambda>_. Inr ()) (Inr ?ack) 2 s = Inr (False, markSent 2 (- 1) s1)" by simp
  have "maintainBroadcast_step (mem_env 1) (\<lambda>_. Inr ()) (Inl (Err ''closed'')) 2 (markSent 2 (- 1) s1) = Inl (Fatal ''Unable to retrieve own block'')"
    using f by (intro acknowledgement_stops_sender [OF r mem_env_ok mem_signs _ s' _ _ ack]) (simp_all add: mem_facts_def mem_env_sel)
  with r s' show ?thesis by (intro exI conjI)
qed

end
