(* ===== verification/Signing.thy ===== *)
theory Signing
  imports Strconv
begin

text \<open>
  The package \<open>internal/crypto/signature\<close>: signing keys as byte strings with their algorithm. The package
  \<open>ed25519\<close> is third-party code: its \<open>Sign\<close> and \<open>Verify\<close> are arguments. The file also has the decoder of
  \<open>encoding/base32\<close> that the configuration's keys and identifiers go through.
\<close>

section \<open>Algorithms\<close>

type_synonym Algorithm = u8

definition Ed25519 :: Algorithm where "Ed25519 = 1"

definition Algorithm_String :: "Algorithm \<Rightarrow> string" where
  "Algorithm_String s = (if s = Ed25519 then ''ed25519'' else [])"

definition AlgorithmFromString :: "string \<Rightarrow> Algorithm res" where
  "AlgorithmFromString s =
     (if s = Algorithm_String Ed25519 then Inr Ed25519 else Inl (Err ''signature: unknown digitaly signature algorithm''))"

section \<open>Keys\<close>

record ed25519KeyPair =
  kp_pub :: bytes
  kp_priv :: bytes

abbreviation unknownAlgorithm :: failure where
  "unknownAlgorithm \<equiv> Err ''signature: unknown digital signature algorithm''"

text \<open>\<open>gen\<close> is the result of \<open>ed25519.GenerateKey\<close>, a public and a private key.\<close>

definition GenKeyPair :: "(bytes \<times> bytes) res \<Rightarrow> Algorithm \<Rightarrow> ed25519KeyPair res" where
  "GenKeyPair gen s =
     (if s = Ed25519 then bindE gen (\<lambda>(pub, priv). Inr \<lparr>kp_pub = pub, kp_priv = priv\<rparr>) else Inl unknownAlgorithm)"

definition LoadKeyPair :: "Algorithm \<Rightarrow> bytes \<Rightarrow> ed25519KeyPair res" where
  "LoadKeyPair s v =
     (if s = Ed25519 then
        (if length v \<noteq> 96 then Inl (Err ''signature: the length of an Ed25519 keypair should be 96 bytes'')
         else Inr \<lparr>kp_pub = take 32 v, kp_priv = drop 32 v\<rparr>)
      else Inl unknownAlgorithm)"

definition LoadPrivateKey :: "Algorithm \<Rightarrow> bytes \<Rightarrow> bytes res" where
  "LoadPrivateKey s v =
     (if s = Ed25519 then
        (if length v \<noteq> 64 then Inl (Err ''signature: the length of an Ed25519 private key should be 64 bytes'') else Inr v)
      else Inl unknownAlgorithm)"

definition LoadPublicKey :: "Algorithm \<Rightarrow> bytes \<Rightarrow> bytes res" where
  "LoadPublicKey s v =
     (if s = Ed25519 then
        (if length v \<noteq> 32 then Inl (Err ''signature: the length of an Ed25519 public key should be 32 bytes'') else Inr v)
      else Inl unknownAlgorithm)"

text \<open>The two copies into a slice of 96 bytes.\<close>

definition KeyPair_Value :: "ed25519KeyPair \<Rightarrow> bytes" where
  "KeyPair_Value k =
     (let v = take 96 (kp_pub k) @ replicate (96 - length (kp_pub k)) 0 in
      take 32 v @ take 64 (kp_priv k) @ drop (32 + length (kp_priv k)) v)"

definition KeyPair_Sign :: "(bytes \<Rightarrow> bytes \<Rightarrow> bytes) \<Rightarrow> ed25519KeyPair \<Rightarrow> bytes \<Rightarrow> bytes" where
  "KeyPair_Sign ed_sign k data = ed_sign (kp_priv k) data"

definition KeyPair_Verify :: "(bytes \<Rightarrow> bytes \<Rightarrow> bytes \<Rightarrow> bool) \<Rightarrow> ed25519KeyPair \<Rightarrow> bytes \<Rightarrow> bytes \<Rightarrow> bool" where
  "KeyPair_Verify ed_verify k data sig = ed_verify (kp_pub k) data sig"

text \<open>A key pair survives its serialised form.\<close>

lemma keypair_roundtrip:
  assumes "length (kp_pub k) = 32" "length (kp_priv k) = 64"
  shows "LoadKeyPair Ed25519 (KeyPair_Value k) = Inr k"
  using assms by (simp add: LoadKeyPair_def KeyPair_Value_def Let_def)

section \<open>Base 32\<close>

text \<open>
  \<open>DecodeString\<close> of the standard encoding without padding. Line ends are left out first. A last group of 1, 3
  or 6 characters gives no bytes and no error.
\<close>

definition b32_value :: "char \<Rightarrow> u8 option" where
  "b32_value ch = (let v = of_char ch :: nat in
     if 65 \<le> v \<and> v \<le> 90 then Some (of_nat (v - 65))
     else if 50 \<le> v \<and> v \<le> 55 then Some (of_nat (v - 50 + 26)) else None)"

definition b32_group :: "u8 list \<Rightarrow> bytes" where
  "b32_group d = (let g = (\<lambda>i. if i < length d then d ! i else 0); n = length d;
       b0 = push_bit 3 (g 0) OR drop_bit 2 (g 1);
       b1 = push_bit 6 (g 1) OR push_bit 1 (g 2) OR drop_bit 4 (g 3);
       b2 = push_bit 4 (g 3) OR drop_bit 1 (g 4);
       b3 = push_bit 7 (g 4) OR push_bit 2 (g 5) OR drop_bit 3 (g 6);
       b4 = push_bit 5 (g 6) OR g 7 in
     if n = 8 then [b0, b1, b2, b3, b4] else if n = 7 then [b0, b1, b2, b3] else if n = 5 then [b0, b1, b2]
     else if n = 4 then [b0, b1] else if n = 2 then [b0] else [])"

fun b32_values :: "string \<Rightarrow> u8 list res" where
  "b32_values [] = Inr []"
| "b32_values (ch # rest) = (case b32_value ch of None \<Rightarrow> Inl (Err ''illegal base32 data'')
     | Some v \<Rightarrow> bindE (b32_values rest) (\<lambda>vs. Inr (v # vs)))"

fun b32_groups :: "u8 list \<Rightarrow> bytes" where
  "b32_groups d = (if d = [] then [] else b32_group (take 8 d) @ b32_groups (drop 8 d))"

declare b32_groups.simps [simp del]

definition DecodeString :: "string \<Rightarrow> bytes res" where
  "DecodeString s = bindE (b32_values (filter (\<lambda>ch. ch \<noteq> CHR 0x0A \<and> ch \<noteq> CHR 0x0D) s)) (\<lambda>d. Inr (b32_groups d))"

text \<open>\<open>EncodeToString\<close>, group by group.\<close>

definition b32_char :: "u8 \<Rightarrow> char" where
  "b32_char v = (let n = unat v in if n < 26 then char_of (65 + n) else char_of (50 + (n - 26)))"

definition b32_digits :: "bytes \<Rightarrow> u8 list" where
  "b32_digits b = (let g = (\<lambda>i. if i < length b then b ! i else 0) in
     take ((8 * length b + 4) div 5)
      [drop_bit 3 (g 0), (push_bit 2 (g 0) OR drop_bit 6 (g 1)) AND 31, drop_bit 1 (g 1) AND 31,
       (push_bit 4 (g 1) OR drop_bit 4 (g 2)) AND 31, (push_bit 1 (g 2) OR drop_bit 7 (g 3)) AND 31,
       drop_bit 2 (g 3) AND 31, (push_bit 3 (g 3) OR drop_bit 5 (g 4)) AND 31, g 4 AND 31])"

fun EncodeToString :: "bytes \<Rightarrow> string" where
  "EncodeToString b = (if b = [] then [] else map b32_char (b32_digits (take 5 b)) @ EncodeToString (drop 5 b))"

declare EncodeToString.simps [simp del]

lemma bit_31: "bit (31 :: u8) n \<longleftrightarrow> n < 5"
proof -
  have m: "(31 :: u8) = mask 5" by (simp add: mask_eq_exp_minus_1)
  show ?thesis unfolding m bit_mask_iff by auto
qed

lemma u8_eqI:
  assumes "bit x 0 = bit y 0" "bit x 1 = bit y 1" "bit x 2 = bit y 2" "bit x 3 = bit y 3" "bit x 4 = bit y 4"
    "bit x 5 = bit y 5" "bit x 6 = bit y 6" "bit x 7 = bit y 7"
  shows "x = (y :: u8)"
proof (rule bit_word_eqI)
  fix n assume "n < LENGTH(8)"
  then have "n \<in> {0, 1, 2, 3, 4, 5, 6, 7}" by auto
  with assms show "bit x n = bit y n" by auto
qed

lemma u8_bits: "bit (push_bit m x) n \<longleftrightarrow> m \<le> n \<and> n < 8 \<and> bit (x :: u8) (n - m)"
  by (auto simp: bit_push_bit_iff)

lemmas b32_bits = bit_or_iff bit_and_iff bit_drop_bit_eq comp_apply u8_bits bit_31

lemma b32_bytes:
  fixes a b c d e :: u8
  shows "push_bit 3 (drop_bit 3 a) OR drop_bit 2 ((push_bit 2 a OR drop_bit 6 b) AND 31) = a"
    "push_bit 6 ((push_bit 2 a OR drop_bit 6 b) AND 31) OR push_bit 1 (drop_bit 1 b AND 31) OR
       drop_bit 4 ((push_bit 4 b OR drop_bit 4 c) AND 31) = b"
    "push_bit 4 ((push_bit 4 b OR drop_bit 4 c) AND 31) OR drop_bit 1 ((push_bit 1 c OR drop_bit 7 d) AND 31) = c"
    "push_bit 7 ((push_bit 1 c OR drop_bit 7 d) AND 31) OR push_bit 2 (drop_bit 2 d AND 31) OR
       drop_bit 3 ((push_bit 3 d OR drop_bit 5 e) AND 31) = d"
    "push_bit 5 ((push_bit 3 d OR drop_bit 5 e) AND 31) OR (e AND 31) = e"
  by (rule u8_eqI; simp only: b32_bits; simp add: impossible_bit numeral_eq_Suc)+

text \<open>What the encoder writes for up to five bytes.\<close>

lemma b32_group_digits:
  assumes "0 < length b" "length b \<le> 5"
  shows "b32_group (b32_digits b) = b"
proof -
  from assms consider a where "b = [a]" | a1 a2 where "b = [a1, a2]" | a1 a2 a3 where "b = [a1, a2, a3]"
    | a1 a2 a3 a4 where "b = [a1, a2, a3, a4]" | a1 a2 a3 a4 a5 where "b = [a1, a2, a3, a4, a5]"
    by (cases b; cases "tl b"; cases "tl (tl b)"; cases "tl (tl (tl b))"; cases "tl (tl (tl (tl b)))") auto
  then show ?thesis
  proof cases
    case 1 show ?thesis unfolding 1 using b32_bytes(1) [of a 0] by (simp add: b32_group_def b32_digits_def Let_def del: One_nat_def push_bit_Suc drop_bit_Suc)
  next
    case 2 show ?thesis unfolding 2 using b32_bytes(1) [of a1 a2] b32_bytes(2) [of a1 a2 0] by (simp add: b32_group_def b32_digits_def Let_def del: One_nat_def push_bit_Suc drop_bit_Suc)
  next
    case 3 show ?thesis unfolding 3 using b32_bytes(1) [of a1 a2] b32_bytes(2) [of a1 a2 a3] b32_bytes(3) [of a2 a3 0]
      by (simp add: b32_group_def b32_digits_def Let_def del: One_nat_def push_bit_Suc drop_bit_Suc)
  next
    case 4 show ?thesis unfolding 4 using b32_bytes(1) [of a1 a2] b32_bytes(2) [of a1 a2 a3] b32_bytes(3) [of a2 a3 a4] b32_bytes(4) [of a3 a4 0]
      by (simp add: b32_group_def b32_digits_def Let_def del: One_nat_def push_bit_Suc drop_bit_Suc)
  next
    case 5 show ?thesis unfolding 5 using b32_bytes(1) [of a1 a2] b32_bytes(2) [of a1 a2 a3] b32_bytes(3) [of a2 a3 a4] b32_bytes(4) [of a3 a4 a5] b32_bytes(5) [of a4 a5]
      by (simp add: b32_group_def b32_digits_def Let_def del: One_nat_def push_bit_Suc drop_bit_Suc)
  qed
qed

lemma b32_digits_small: "v \<in> set (b32_digits b) \<Longrightarrow> unat v < 32"
proof -
  have a: "unat (x AND 31 :: u8) < 32" for x
    using word_and_le1 [of x 31] by (simp add: word_le_nat_alt)
  have d: "unat (drop_bit 3 (x :: u8)) < 32" for x
    using unsigned_less [of x, where 'a = nat] by (simp add: drop_bit_eq_div unat_div)
  assume "v \<in> set (b32_digits b)"
  then show ?thesis using a d unfolding b32_digits_def Let_def by (auto dest!: in_set_takeD)
qed

lemma b32_value_char: "unat v < 32 \<Longrightarrow> b32_value (b32_char v) = Some v"
  by (cases "unat v < 26") (simp_all add: b32_value_def b32_char_def Let_def)

lemma b32_char_text: "unat v < 32 \<Longrightarrow> b32_char v \<noteq> CHR 0x0A \<and> b32_char v \<noteq> CHR 0x0D"
proof -
  assume "unat v < 32"
  then have "b32_value (b32_char v) = Some v" by (rule b32_value_char)
  moreover have "b32_value (CHR 0x0A) = None" "b32_value (CHR 0x0D) = None" by (simp_all add: b32_value_def)
  ultimately show ?thesis by auto
qed

lemma b32_values_append: "b32_values (xs @ ys) = bindE (b32_values xs) (\<lambda>a. bindE (b32_values ys) (\<lambda>b. Inr (a @ b)))"
  by (induction xs) (auto split: option.splits simp: bindE_def split: sum.splits)

lemma b32_values_chars: "\<forall>v\<in>set vs. unat v < 32 \<Longrightarrow> b32_values (map b32_char vs) = Inr vs"
  by (induction vs) (simp_all add: b32_value_char)

lemma length_b32_digits: "length b = 5 \<Longrightarrow> length (b32_digits b) = 8" "length b \<le> 5 \<Longrightarrow> length (b32_digits b) \<le> 8"
  by (simp_all add: b32_digits_def Let_def)

lemma b32_digits_nonempty: "b \<noteq> [] \<Longrightarrow> b32_digits b \<noteq> []"
  by (cases b) (simp_all add: b32_digits_def Let_def)

lemma EncodeToString_values:
  "\<exists>d. b32_values (EncodeToString b) = Inr d \<and> b32_groups d = b \<and> filter (\<lambda>ch. ch \<noteq> CHR 0x0A \<and> ch \<noteq> CHR 0x0D) (EncodeToString b) = EncodeToString b"
proof (induction b rule: EncodeToString.induct)
  case (1 b)
  show ?case
  proof (cases "b = []")
    case False
    with 1 obtain d where d: "b32_values (EncodeToString (drop 5 b)) = Inr d" "b32_groups d = drop 5 b"
      "filter (\<lambda>ch. ch \<noteq> CHR 0x0A \<and> ch \<noteq> CHR 0x0D) (EncodeToString (drop 5 b)) = EncodeToString (drop 5 b)" by blast
    let ?g = "b32_digits (take 5 b)"
    have small: "\<forall>v\<in>set ?g. unat v < 32" by (simp add: b32_digits_small)
    have e: "EncodeToString b = map b32_char ?g @ EncodeToString (drop 5 b)" using False by (subst EncodeToString.simps) simp
    have "b32_values (EncodeToString b) = Inr (?g @ d)" unfolding e b32_values_append b32_values_chars [OF small] d(1) by simp
    moreover have "b32_groups (?g @ d) = b"
    proof (cases "length b < 5")
      case True
      then have "d = []" using d(1) by (simp add: EncodeToString.simps)
      with True False show ?thesis
        using length_b32_digits(2) [of b] b32_digits_nonempty [OF False] b32_group_digits [of b]
        by (subst b32_groups.simps) (simp add: b32_groups.simps)
    next
      case big: False
      then have "length ?g = 8" by (intro length_b32_digits(1)) simp
      moreover have "b32_group ?g = take 5 b" using False by (intro b32_group_digits) simp_all
      moreover have "?g \<noteq> []" using False by (intro b32_digits_nonempty) simp
      ultimately show ?thesis using d(2) by (subst b32_groups.simps) simp
    qed
    moreover have "filter (\<lambda>ch. ch \<noteq> CHR 0x0A \<and> ch \<noteq> CHR 0x0D) (map b32_char ?g) = map b32_char ?g"
      using small b32_char_text by (intro filter_True) auto
    ultimately show ?thesis using d(3) e by auto
  qed (simp add: EncodeToString.simps b32_groups.simps)
qed

text \<open>What \<open>EncodeToString\<close> writes, \<open>DecodeString\<close> reads.\<close>

lemma b32_roundtrip [codec]: "DecodeString (EncodeToString b) = Inr b"
  using EncodeToString_values [of b] by (auto simp: DecodeString_def)

end
