(* ===== verification/Conn.thy ===== *)
theory Conn
  imports ServiceMsg
begin

text \<open>
  The file \<open>network/conn.go\<close>: the framing of messages on a connection. Each message is its length in
  four bytes, little endian, and its encoding. The connection may deliver the bytes in pieces of any
  size and may take them in pieces when they are written.
\<close>

section \<open>Connections\<close>

text \<open>
  \<open>cIn\<close> is what the other side will deliver, piece by piece, and then the end of the stream. \<open>cOut\<close> is what
  was written; \<open>cRoom\<close> has the results of the next writes, a number of bytes or an error, and a write
  takes everything when it is empty. Deadlines are left out: a timeout is an error of a read or write.
\<close>

record Conn =
  cBuf :: bytes
  cIn :: "bytes res list"
  cOut :: bytes
  cRoom :: "nat res list"
  cClosed :: bool
  cLastID :: u64

definition NewConn :: "bytes res list \<Rightarrow> nat res list \<Rightarrow> Conn" where
  "NewConn incoming room =
     \<lparr>cBuf = replicate 1024 0, cIn = incoming, cOut = [], cRoom = room, cClosed = False, cLastID = 0\<rparr>"

abbreviation EOF :: failure where "EOF \<equiv> Err ''EOF''"

definition Close :: "Conn \<Rightarrow> Conn" where
  "Close c = c\<lparr>cClosed := True\<rparr>"

text \<open>\<open>conn.Read\<close> into a slice of the given length.\<close>

definition conn_read :: "nat \<Rightarrow> Conn \<Rightarrow> (bytes \<times> Conn) res" where
  "conn_read m c =
     (if cClosed c then Inl (Err ''use of closed network connection'')
      else case cIn c of
        [] \<Rightarrow> Inl EOF
      | Inl e # rest \<Rightarrow> Inl e
      | Inr b # rest \<Rightarrow> Inr (take m b, c\<lparr>cIn := (if m < length b then Inr (drop m b) # rest else rest)\<rparr>))"

text \<open>\<open>conn.Write\<close>.\<close>

definition conn_write :: "bytes \<Rightarrow> Conn \<Rightarrow> (nat \<times> Conn) res" where
  "conn_write b c =
     (if cClosed c then Inl (Err ''use of closed network connection'')
      else case cRoom c of
        [] \<Rightarrow> Inr (length b, c\<lparr>cOut := cOut c @ b\<rparr>)
      | Inl e # rest \<Rightarrow> Inl e
      | Inr n # rest \<Rightarrow> Inr (min n (length b), c\<lparr>cOut := cOut c @ take n b, cRoom := rest\<rparr>))"

section \<open>Reading\<close>

text \<open>What is left to read, for termination.\<close>

definition pending :: "Conn \<Rightarrow> nat" where
  "pending c = sum_list (map (\<lambda>x. case x of Inl e \<Rightarrow> 1 | Inr b \<Rightarrow> Suc (length b)) (cIn c))"

lemma conn_read_less: "conn_read m c = Inr (b, c') \<Longrightarrow> 0 < m \<Longrightarrow> pending c' < pending c"
  by (auto simp: conn_read_def pending_def split: if_splits list.splits sum.splits)

lemma pending_buf [simp]: "pending (c\<lparr>cBuf := b\<rparr>) = pending c"
  by (simp add: pending_def)

text \<open>The loops of \<open>readPayload\<close> fill the buffer from \<open>i\<close> to \<open>j\<close>. An error closes the connection.\<close>

function fill :: "nat \<Rightarrow> nat \<Rightarrow> Conn \<Rightarrow> unit res \<times> Conn" where
  "fill i j c =
     (if i < j then (case conn_read (j - i) c of
         Inl e \<Rightarrow> (Inl e, Close c)
       | Inr (b, c') \<Rightarrow> fill (i + length b) j (c'\<lparr>cBuf := take i (cBuf c') @ b @ drop (i + length b) (cBuf c')\<rparr>))
      else (Inr (), c))"
  by pat_completeness auto
termination
  by (relation "measure (\<lambda>(i, j, c). pending c)") (auto dest: conn_read_less)

declare fill.simps [simp del]

definition readPayload :: "int \<Rightarrow> Conn \<Rightarrow> bytes res \<times> Conn" where
  "readPayload limit c = (case fill 0 4 c of
       (Inl e, c1) \<Rightarrow> (Inl e, c1)
     | (Inr _, c1) \<Rightarrow> (case Uint32 (cBuf c1) of
         Inl e \<Rightarrow> (Inl e, c1)
       | Inr w \<Rightarrow>
         let sz = sint w in
         if sz < 0 then (Inl (Err ''network: payload size overflows an int32''), Close c1)
         else if sz > limit then (Inl (Err ''network: payload size exceeds max payload size''), Close c1)
         else
           let n = nat sz; c2 = (if length (cBuf c1) < n then c1\<lparr>cBuf := replicate n 0\<rparr> else c1) in
           (case fill 0 n c2 of
             (Inl e, c3) \<Rightarrow> (Inl e, c3)
           | (Inr _, c3) \<Rightarrow> (Inr (take n (cBuf c3)), c3))))"

definition ReadHello :: "(bytes \<Rightarrow> Hello res) \<Rightarrow> int \<Rightarrow> Conn \<Rightarrow> Hello res \<times> Conn" where
  "ReadHello unmarshal limit c = (let (r, c') = readPayload limit c in (bindE r unmarshal, c'))"

definition ReadMessage :: "(bytes \<Rightarrow> smessage res) \<Rightarrow> int \<Rightarrow> Conn \<Rightarrow> smessage res \<times> Conn" where
  "ReadMessage unmarshal limit c = (let (r, c') = readPayload limit c in (bindE r unmarshal, c'))"

section \<open>Writing\<close>

lemma conn_write_less: "conn_write b c = Inr (n, c') \<Longrightarrow> b \<noteq> [] \<Longrightarrow> length (drop n b) + length (cRoom c') < length b + length (cRoom c)"
  by (cases "cRoom c"; cases "hd (cRoom c)") (auto simp: conn_write_def split: if_splits)

function write_loop :: "bytes \<Rightarrow> Conn \<Rightarrow> unit res \<times> Conn" where
  "write_loop b c =
     (if b \<noteq> [] then (case conn_write b c of
         Inl e \<Rightarrow> (Inl e, Close c)
       | Inr (n, c') \<Rightarrow> write_loop (drop n b) c')
      else (Inr (), c))"
  by pat_completeness auto
termination
  by (relation "measure (\<lambda>(b, c). length b + length (cRoom c))") (auto dest: conn_write_less)

declare write_loop.simps [simp del]

definition WritePayload :: "('pb \<Rightarrow> bytes res) \<Rightarrow> 'pb \<Rightarrow> int \<Rightarrow> Conn \<Rightarrow> unit res \<times> Conn" where
  "WritePayload marshal pb limit c = (case marshal pb of
       Inl e \<Rightarrow> (Inl e, Close c)
     | Inr payload \<Rightarrow>
       if int (length payload) > limit then (Inl (Err ''network: payload size exceeds max payload size''), Close c)
       else
         let hdr = PutUint32 (of_nat (length payload)); c1 = c\<lparr>cBuf := hdr @ drop 4 (cBuf c)\<rparr> in
         (case write_loop hdr c1 of
           (Inl e, c2) \<Rightarrow> (Inl e, c2)
         | (Inr _, c2) \<Rightarrow> write_loop payload c2))"

text \<open>\<open>atomicid\<close> is the counter that all connections share; the connection's own counter is not used.\<close>

definition WriteRequest ::
    "(smessage \<Rightarrow> bytes res) \<Rightarrow> smessage \<Rightarrow> int \<Rightarrow> u64 \<Rightarrow> Conn \<Rightarrow> u64 \<times> (unit res \<times> Conn) \<times> u64" where
  "WriteRequest marshal msg limit atomicid c =
     (let i = atomicid + 1 in
      (i, WritePayload marshal (msg\<lparr>smID := i\<rparr>) limit (c\<lparr>cLastID := cLastID c + 1\<rparr>), i))"

text \<open>\<open>timeout\<close> says whether the error is a timeout.\<close>

definition AbnormalError :: "(failure \<Rightarrow> bool) \<Rightarrow> failure \<Rightarrow> bool" where
  "AbnormalError timeout e \<longleftrightarrow> e \<noteq> EOF \<and> \<not> timeout e"

section \<open>Reading from a stream\<close>

text \<open>The bytes that the pieces of a stream without errors make up.\<close>

definition delivers :: "bytes \<Rightarrow> Conn \<Rightarrow> bool" where
  "delivers bs c \<longleftrightarrow> \<not> cClosed c \<and> (\<exists>cs. cIn c = map Inr cs \<and> concat cs = bs)"

lemma conn_read_delivers:
  assumes "delivers bs c" "bs \<noteq> []"
  obtains b c' where "conn_read m c = Inr (b, c')" "length b \<le> m" "bs = b @ drop (length b) bs"
    "delivers (drop (length b) bs) c'" "cBuf c' = cBuf c"
proof -
  obtain cs where cs: "cIn c = map Inr cs" "concat cs = bs" "\<not> cClosed c" using assms(1) by (auto simp: delivers_def)
  then obtain x xs where x: "cs = x # xs" using assms(2) by (cases cs) auto
  let ?rest = "if m < length x then drop m x # xs else xs"
  have r: "conn_read m c = Inr (take m x, c\<lparr>cIn := map Inr ?rest\<rparr>)" using cs x by (simp add: conn_read_def)
  have "bs = take m x @ concat ?rest" using cs(2) x by (cases "m < length x") (simp_all flip: append_assoc)
  then have d: "drop (length (take m x)) bs = concat ?rest" "bs = take m x @ drop (length (take m x)) bs" by simp_all
  have "length (take m x) \<le> m" by simp
  then show thesis
    using cs(3) d by (intro that [OF r]) (auto simp: delivers_def simp del: length_take)
qed

lemma fill_delivers:
  "delivers bs c \<Longrightarrow> j - i \<le> length bs \<Longrightarrow> i \<le> j \<Longrightarrow> j \<le> length (cBuf c) \<Longrightarrow>
   \<exists>c'. fill i j c = (Inr (), c') \<and> delivers (drop (j - i) bs) c' \<and>
     cBuf c' = take i (cBuf c) @ take (j - i) bs @ drop j (cBuf c)"
proof (induction i j c arbitrary: bs rule: fill.induct)
  case (1 i j c)
  show ?case
  proof (cases "i < j")
    case False
    then have "fill i j c = (Inr (), c)" by (subst fill.simps) simp
    moreover have "j = i" using False 1(4) by simp
    ultimately show ?thesis using 1(2) by (intro exI [of _ c]) simp
  next
    case True
    then have "bs \<noteq> []" using 1(3) by auto
    with 1(2) obtain b c' where r: "conn_read (j - i) c = Inr (b, c')" "length b \<le> j - i" "bs = b @ drop (length b) bs"
      "delivers (drop (length b) bs) c'" "cBuf c' = cBuf c" by (rule conn_read_delivers)
    obtain rest where bs: "bs = b @ rest" using r(3) by blast
    let ?c = "c'\<lparr>cBuf := take i (cBuf c') @ b @ drop (i + length b) (cBuf c')\<rparr>"
    have "delivers rest ?c" using r(4) by (simp add: bs delivers_def)
    then have "\<exists>d. fill (i + length b) j ?c = (Inr (), d) \<and> delivers (drop (j - (i + length b)) rest) d \<and>
        cBuf d = take (i + length b) (cBuf ?c) @ take (j - (i + length b)) rest @ drop j (cBuf ?c)"
      using r(2) True 1(3-5) bs by (intro 1(1) [OF True r(1) refl]) (simp_all add: r(5))
    then obtain d where d: "fill (i + length b) j ?c = (Inr (), d)" "delivers (drop (j - (i + length b)) rest) d"
      "cBuf d = take (i + length b) (cBuf ?c) @ take (j - (i + length b)) rest @ drop j (cBuf ?c)" by (elim exE conjE)
    have f: "fill i j c = (Inr (), d)" using True d(1) by (subst fill.simps) (simp add: r(1))
    have "take (i + length b) (cBuf ?c) = take i (cBuf c) @ b" "drop j (cBuf ?c) = drop j (cBuf c)"
      using r(2) True 1(5) by (simp_all add: r(5))
    with d(3) have "cBuf d = take i (cBuf c) @ take (j - i) bs @ drop j (cBuf c)" using r(2) by (simp add: bs)
    moreover have "delivers (drop (j - i) bs) d" using d(2) r(2) by (simp add: bs)
    ultimately show ?thesis using f by (intro exI [of _ d] conjI)
  qed
qed

lemma sint_small: "n < 2 ^ 31 \<Longrightarrow> sint (of_nat n :: u32) = int n"
proof -
  assume "n < 2 ^ 31"
  moreover have "sint (of_nat n :: u32) = signed_take_bit 31 (int n)" by (simp add: signed_of_nat)
  ultimately show ?thesis by (simp add: signed_take_bit_int_eq_self)
qed

definition frame :: "bytes \<Rightarrow> bytes" where
  "frame p = PutUint32 (of_nat (length p)) @ p"

lemma readPayload_frame:
  assumes "delivers (frame p @ bs) c" "1024 \<le> length (cBuf c)" "length p < 2 ^ 31" "int (length p) \<le> limit"
  shows "\<exists>c'. readPayload limit c = (Inr p, c') \<and> delivers bs c' \<and> 1024 \<le> length (cBuf c')"
proof -
  let ?h = "PutUint32 (of_nat (length p))"
  obtain c1 where c1: "fill 0 4 c = (Inr (), c1)" "delivers (p @ bs) c1" "cBuf c1 = ?h @ drop 4 (cBuf c)"
    using fill_delivers [OF assms(1), of 4 0] assms(2) by (auto simp: frame_def)
  then have "length (cBuf c1) = length (cBuf c)" using assms(2) by simp
  define c2 where "c2 = (if length (cBuf c1) < length p then c1\<lparr>cBuf := replicate (length p) 0\<rparr> else c1)"
  have d2: "delivers (p @ bs) c2" using c1(2) by (simp add: c2_def delivers_def)
  have l2: "length p \<le> length (cBuf c2)" "1024 \<le> length (cBuf c2)"
    using assms(2) \<open>length (cBuf c1) = length (cBuf c)\<close> by (auto simp: c2_def)
  obtain c3 where c3: "fill 0 (length p) c2 = (Inr (), c3)" "delivers bs c3" "cBuf c3 = p @ drop (length p) (cBuf c2)"
    using fill_delivers [OF d2, of "length p" 0] l2 by auto
  have "readPayload limit c = (Inr p, c3)"
  proof -
    have "Uint32 (cBuf c1) = Inr (of_nat (length p))" by (simp add: c1(3))
    then show ?thesis
      using c3(1,3) assms(3,4) unfolding readPayload_def c1(1) c2_def by (simp add: sint_small Let_def del: if_split)
  qed
  with c3 l2 show ?thesis by simp
qed

section \<open>Writing to a stream\<close>

lemma write_loop_writes:
  "\<not> cClosed c \<Longrightarrow> list_all (\<lambda>r. \<exists>n. r = Inr n) (cRoom c) \<Longrightarrow>
   \<exists>c'. write_loop b c = (Inr (), c') \<and> cOut c' = cOut c @ b \<and> \<not> cClosed c' \<and> list_all (\<lambda>r. \<exists>n. r = Inr n) (cRoom c')"
proof (induction b c rule: write_loop.induct)
  case (1 b c)
  show ?case
  proof (cases "b = []")
    case False
    obtain n c' where w: "conn_write b c = Inr (n, c')" "cOut c' = cOut c @ take n b" "\<not> cClosed c'"
      "list_all (\<lambda>r. \<exists>n. r = Inr n) (cRoom c')"
      using 1(2,3) by (cases "cRoom c"; cases "hd (cRoom c)") (auto simp: conn_write_def min_def)
    with 1(1) [OF False w(1)] False show ?thesis by (subst write_loop.simps) auto
  qed (use 1(2-) in \<open>simp add: write_loop.simps\<close>)
qed

definition writable :: "Conn \<Rightarrow> bool" where
  "writable c \<longleftrightarrow> \<not> cClosed c \<and> list_all (\<lambda>r. \<exists>n. r = Inr n) (cRoom c)"

lemma WritePayload_frame:
  assumes "writable c" "marshal pb = Inr p" "int (length p) \<le> limit"
  shows "\<exists>c'. WritePayload marshal pb limit c = (Inr (), c') \<and> cOut c' = cOut c @ frame p \<and> writable c'"
proof -
  let ?h = "PutUint32 (of_nat (length p))"
  obtain c2 where "write_loop ?h (c\<lparr>cBuf := ?h @ drop 4 (cBuf c)\<rparr>) = (Inr (), c2)" "cOut c2 = cOut c @ ?h" "writable c2"
    using write_loop_writes [of "c\<lparr>cBuf := ?h @ drop 4 (cBuf c)\<rparr>" ?h] assms(1) by (auto simp: writable_def)
  with write_loop_writes [of c2 p] assms(2,3) show ?thesis
    by (auto simp: WritePayload_def Let_def frame_def writable_def)
qed

section \<open>Properties\<close>

text \<open>The messages of a client, one after the other, and a reader of as many.\<close>

fun write_all :: "('pb \<Rightarrow> bytes res) \<Rightarrow> 'pb list \<Rightarrow> int \<Rightarrow> Conn \<Rightarrow> unit res \<times> Conn" where
  "write_all marshal [] limit c = (Inr (), c)"
| "write_all marshal (pb # pbs) limit c = (case WritePayload marshal pb limit c of
     (Inl e, c') \<Rightarrow> (Inl e, c') | (Inr _, c') \<Rightarrow> write_all marshal pbs limit c')"

fun read_all :: "(bytes \<Rightarrow> smessage res) \<Rightarrow> nat \<Rightarrow> int \<Rightarrow> Conn \<Rightarrow> smessage list res \<times> Conn" where
  "read_all unmarshal 0 limit c = (Inr [], c)"
| "read_all unmarshal (Suc n) limit c = (case ReadMessage unmarshal limit c of
     (Inl e, c') \<Rightarrow> (Inl e, c')
   | (Inr m, c') \<Rightarrow> (case read_all unmarshal n limit c' of (r, c'') \<Rightarrow> (bindE r (\<lambda>ms. Inr (m # ms)), c'')))"

text \<open>The codec law for the messages of a list, and that they are within the limits.\<close>

definition fits :: "(smessage \<Rightarrow> bytes res) \<Rightarrow> (bytes \<Rightarrow> smessage res) \<Rightarrow> int \<Rightarrow> smessage \<Rightarrow> bool" where
  "fits marshal unmarshal limit m \<longleftrightarrow>
     (\<exists>p. marshal m = Inr p \<and> unmarshal p = Inr m \<and> int (length p) \<le> limit \<and> length p < 2 ^ 31)"

definition frames :: "(smessage \<Rightarrow> bytes res) \<Rightarrow> smessage list \<Rightarrow> bytes" where
  "frames marshal ms = concat (map (\<lambda>m. case marshal m of Inl e \<Rightarrow> [] | Inr p \<Rightarrow> frame p) ms)"

lemma write_all_frames:
  "list_all (fits marshal unmarshal limit) ms \<Longrightarrow> writable c \<Longrightarrow>
   \<exists>c'. write_all marshal ms limit c = (Inr (), c') \<and> cOut c' = cOut c @ frames marshal ms"
proof (induction ms arbitrary: c)
  case (Cons m ms)
  then obtain p where p: "marshal m = Inr p" "int (length p) \<le> limit" by (auto simp: fits_def)
  then obtain c' where "WritePayload marshal m limit c = (Inr (), c')" "cOut c' = cOut c @ frame p" "writable c'"
    using WritePayload_frame [where c = c and marshal = marshal and pb = m] Cons.prems by blast
  with Cons.IH [of c'] Cons.prems p show ?case by (auto simp: frames_def)
qed (simp add: frames_def)

lemma read_all_frames:
  "list_all (fits marshal unmarshal limit) ms \<Longrightarrow> delivers (frames marshal ms @ bs) d \<Longrightarrow> 1024 \<le> length (cBuf d) \<Longrightarrow>
   \<exists>d'. read_all unmarshal (length ms) limit d = (Inr ms, d') \<and> delivers bs d'"
proof (induction ms arbitrary: d)
  case (Cons m ms)
  then obtain p where p: "marshal m = Inr p" "unmarshal p = Inr m" "int (length p) \<le> limit" "length p < 2 ^ 31" by (auto simp: fits_def)
  then obtain d' where "readPayload limit d = (Inr p, d')" "delivers (frames marshal ms @ bs) d'" "1024 \<le> length (cBuf d')"
    using readPayload_frame [where c = d and p = p and bs = "frames marshal ms @ bs"] Cons.prems by (auto simp: frames_def)
  with Cons.IH [of d'] Cons.prems p show ?case by (auto simp: ReadMessage_def)
qed (simp add: frames_def)

text \<open>C37. Framing: whatever messages within the limits one side writes, however the connection cuts the writes
  and the stream into pieces, the other side reads the same messages in the same order and is left at
  the end of the last one.\<close>

theorem framing_roundtrip:
  assumes "list_all (fits marshal unmarshal limit) ms" and "writable c" and "cOut c = []"
    and "write_all marshal ms limit c = (r, c')" and "concat cs = cOut c' @ post"
  shows "r = Inr () \<and> (\<exists>d. read_all unmarshal (length ms) limit (NewConn (map Inr cs) room) = (Inr ms, d) \<and> delivers post d)"
proof -
  have w: "r = Inr ()" "cOut c' = frames marshal ms" using write_all_frames [OF assms(1,2)] assms(3,4) by auto
  have "delivers (frames marshal ms @ post) (NewConn (map Inr cs) room)" using assms(5) w(2) by (auto simp: delivers_def NewConn_def)
  with read_all_frames [OF assms(1) this] w(1) show ?thesis by (simp add: NewConn_def)
qed


definition mem_marshal :: "smessage \<Rightarrow> bytes res" where
  "mem_marshal m = Inr (smPayload m)"

definition mem_unmarshal :: "bytes \<Rightarrow> smessage res" where
  "mem_unmarshal bs = Inr \<lparr>smID = 0, smError = [], smOpcode = OP_BROADCAST, smPayload = bs\<rparr>"

theorem framing_roundtrip_witness:
  "\<exists>c' d. write_all mem_marshal [\<lparr>smID = 0, smError = [], smOpcode = OP_BROADCAST, smPayload = [7, 8]\<rparr>] 100 (NewConn [] [Inr 1, Inr 2]) =
      (Inr (), c') \<and>
    read_all mem_unmarshal 1 100 (NewConn [Inr [2, 0], Inr [0, 0, 7], Inr [], Inr [8, 9]] []) =
      (Inr [\<lparr>smID = 0, smError = [], smOpcode = OP_BROADCAST, smPayload = [7, 8]\<rparr>], d) \<and> delivers [9] d"
proof -
  let ?ms = "[\<lparr>smID = 0, smError = [], smOpcode = OP_BROADCAST, smPayload = [7, 8]\<rparr>]"
  let ?cs = "[[2, 0], [0, 0, 7], [], [8, 9]] :: bytes list"
  have f: "list_all (fits mem_marshal mem_unmarshal 100) ?ms"
    by (simp add: fits_def mem_marshal_def mem_unmarshal_def)
  have w: "writable (NewConn [] [Inr 1, Inr 2])" "cOut (NewConn [] [Inr 1, Inr 2]) = []" by (simp_all add: writable_def NewConn_def)
  obtain c' where c': "write_all mem_marshal ?ms 100 (NewConn [] [Inr 1, Inr 2]) = (Inr (), c')" "cOut c' = frames mem_marshal ?ms"
    using write_all_frames [OF f w(1)] w(2) by auto
  have "concat ?cs = cOut c' @ [9]" unfolding c'(2) by code_simp
  from framing_roundtrip [OF f w c'(1) this, of "[]"] c'(1) show ?thesis by auto
qed

end
