(* ===== verification/Network.thy ===== *)
theory Network
  imports Configs Signing Conn
begin

text \<open>
  The file \<open>network/network.go\<close>: the topology of a network, the addresses of its nodes and how they are
  found. The certificates, the TLS connections, multicast DNS and the registries are outside: what they
  return is an argument.
\<close>

section \<open>Contacts\<close>

definition contacts_get :: "u64 \<Rightarrow> (u64, string) gmap \<Rightarrow> string" where
  "contacts_get nodeID data = (case map_of data nodeID of None \<Rightarrow> [] | Some addr \<Rightarrow> addr)"

definition contacts_set :: "u64 \<Rightarrow> string \<Rightarrow> (u64, string) gmap \<Rightarrow> (u64, string) gmap" where
  "contacts_set nodeID address data = AList.update nodeID address data"

section \<open>Topology\<close>

record 'pool nodeConfig =
  ncKey :: bytes
  ncRootCAs :: 'pool
  ncServerName :: string

record 'pool Topology =
  tContacts :: "(u64, string) gmap"
  tID :: string
  tName :: string
  tNodes :: "(u64, 'pool nodeConfig) gmap"
  tRawID :: bytes
  tNodeCount :: u64

definition format_int :: "int \<Rightarrow> string" where
  "format_int n = (if n < 0 then ''-'' @ dec_digits (nat (- n)) else dec_digits (nat n))"

text \<open>A found address replaces the known one.\<close>

definition found :: "u64 \<Rightarrow> string \<Rightarrow> 'pool Topology \<Rightarrow> 'pool Topology" where
  "found nodeID addr t =
     (if contacts_get nodeID (tContacts t) \<noteq> addr then t\<lparr>tContacts := contacts_set nodeID addr (tContacts t)\<rparr> else t)"

record ServiceEntry =
  seInstance :: string
  seAddrIPv4 :: "string list"
  sePort :: int

text \<open>The body of the loop of \<open>bootstrapMDNS\<close> over the entries that the resolver finds.\<close>

definition mdns_entry :: "ServiceEntry \<Rightarrow> 'pool Topology \<Rightarrow> 'pool Topology" where
  "mdns_entry entry t = (case seInstance entry of
       ch # digits \<Rightarrow>
         if ch = CHR ''_'' then (case ParseUint digits of
             Inl e \<Rightarrow> t
           | Inr nodeID \<Rightarrow> (case seAddrIPv4 entry of
               addr # _ \<Rightarrow> if sePort entry > 0 then found nodeID (addr @ '':'' @ format_int (sePort entry)) t else t
             | [] \<Rightarrow> t))
         else t
     | [] \<Rightarrow> t)"

definition mdns_service :: "string \<Rightarrow> string" where
  "mdns_service networkID = ''_'' @ map to_lower networkID @ ''._chainspace''"

record RegistryEntry =
  reAddr :: string
  reNodeID :: u64
  rePort :: int

text \<open>
  The request of \<open>BootstrapRegistries\<close>, and what \<open>bootstrapRegistries\<close> does with the response: the result of the
  call, which has the result of reading the body, and the JSON decoder are arguments.
\<close>

definition registry_auth :: "string \<Rightarrow> Registry \<Rightarrow> string" where
  "registry_auth networkID r =
     ''{\"auth\": {\"networkId\": \"'' @ networkID @ ''\", \"token\": \"'' @ Token r @ ''\"}}''"

definition registry_endpoint :: "Registry \<Rightarrow> string" where
  "registry_endpoint r = URL r @ ''contacts.list''"

definition bootstrapRegistries ::
    "bytes res res \<Rightarrow> (bytes \<Rightarrow> RegistryEntry list res) \<Rightarrow> 'pool Topology \<Rightarrow> unit res \<times> 'pool Topology" where
  "bootstrapRegistries resp decode t = (case resp of
       Inl e \<Rightarrow> (Inl (Err ''error calling registry''), t)
     | Inr (Inl e) \<Rightarrow> (Inl (Err ''unable reading response from registry''), t)
     | Inr (Inr b) \<Rightarrow> (case decode b of
         Inl e \<Rightarrow> (Inl (Err ''unable to unmarshal registry response''), t)
       | Inr res \<Rightarrow> (Inr (), fold (\<lambda>v. found (reNodeID v) (reAddr v @ '':'' @ format_int (rePort v))) res t)))"

definition BootstrapStatic :: "(u64, string) gmap \<Rightarrow> 'pool Topology \<Rightarrow> 'pool Topology" where
  "BootstrapStatic addresses t = t\<lparr>tContacts := fold (\<lambda>(i, addr). contacts_set i addr) addresses (tContacts t)\<rparr>"

definition Lookup :: "u64 \<Rightarrow> 'pool Topology \<Rightarrow> string" where
  "Lookup nodeID t = contacts_get nodeID (tContacts t)"

text \<open>\<open>dial\<close> stands for \<open>tls.DialWithDialer\<close>.\<close>

definition Dial :: "(string \<Rightarrow> 'pool nodeConfig \<Rightarrow> Conn res) \<Rightarrow> u64 \<Rightarrow> 'pool Topology \<Rightarrow> Conn res" where
  "Dial dial nodeID t = (case map_of (tNodes t) nodeID of
       None \<Rightarrow> Inl (Err ''network: could not find config for node'')
     | Some cfg \<Rightarrow>
       let addr = Lookup nodeID t in
       if addr = [] then Inl (Err ''network: could not find address for node'')
       else (case dial addr cfg of
           Inl e \<Rightarrow> Inl (Err ''network: could not connect to node'')
         | Inr c \<Rightarrow> Inr c))"

definition SeedPublicKeys :: "'pool Topology \<Rightarrow> (u64, bytes) gmap" where
  "SeedPublicKeys t = fold (\<lambda>(nodeID, cfg). AList.update nodeID (ncKey cfg)) (tNodes t) []"

definition Topology_TotalNodes :: "'pool Topology \<Rightarrow> u64" where
  "Topology_TotalNodes t = tNodeCount t"

function nodes_loop :: "u64 \<Rightarrow> u64 \<Rightarrow> u64 list \<Rightarrow> u64 list" where
  "nodes_loop n i out = (if i < n then nodes_loop n (i + 1) (out @ [i + 1]) else out)"
  by pat_completeness auto
termination
  by (relation "measure (\<lambda>(n, i, out). unat n - unat i)") (auto simp: unat_incr word_less_nat_alt)

declare nodes_loop.simps [simp del]

definition Nodes :: "'pool Topology \<Rightarrow> u64 list" where
  "Nodes t = nodes_loop (tNodeCount t) 0 []"

section \<open>Making a topology\<close>

text \<open>
  The body of the loop over the seed nodes, which come in the order that the range over the map takes.
  \<open>certs\<close> parses a certificate into a pool.
\<close>

definition seed_node ::
    "(string \<Rightarrow> 'pool option) \<Rightarrow> string \<Rightarrow> u64 \<times> Peer option \<Rightarrow> (u64, 'pool nodeConfig) gmap \<Rightarrow> (u64, 'pool nodeConfig) gmap res" where
  "seed_node certs name = (\<lambda>(i, node) nodes.
     if i = 0 then Inl (Err ''network: received invalid Node ID: 0'')
     else case node of None \<Rightarrow> Inl (Panic ''nil pointer dereference'') | Some p \<Rightarrow>
       (case pTransportCert p of None \<Rightarrow> Inl (Panic ''nil pointer dereference'') | Some cert \<Rightarrow>
       if pkType cert \<noteq> ''ecdsa'' then Inl (Err ''network: unknown transport.cert type for seed node'')
       else case certs (pkValue cert) of None \<Rightarrow> Inl (Err ''network: unable to parse the transport certificate for seed node'') | Some pool \<Rightarrow>
       (case pSigningKey p of None \<Rightarrow> Inl (Panic ''nil pointer dereference'') | Some sk \<Rightarrow>
       if pkType sk \<noteq> ''ed25519'' then Inl (Err ''network: unknown signing.key type for seed node'')
       else case DecodeString (pkValue sk) of Inl e \<Rightarrow> Inl (Err ''network: unable to decode the signing.key for seed node'') | Inr pubkey \<Rightarrow>
       (case LoadPublicKey Ed25519 pubkey of Inl e \<Rightarrow> Inl (Err ''network: unable to load the signing.key for seed node'') | Inr key \<Rightarrow>
       Inr (AList.update i
         \<lparr>ncKey = key, ncRootCAs = pool, ncServerName = ''node-'' @ FormatUint i @ ''.net-'' @ name @ ''.chainspace''\<rparr> nodes)))))"

definition net_New ::
    "(string \<Rightarrow> 'pool option) \<Rightarrow> ((u64, Peer option) gmap \<Rightarrow> bytes res) \<Rightarrow> (bytes \<Rightarrow> bytes) \<Rightarrow> string \<Rightarrow> Network \<Rightarrow> 'pool Topology res" where
  "net_New certs yaml sha name cfg =
     bindE (foldE (seed_node certs name) (netSeedNodes cfg) []) (\<lambda>nodes.
     bindE (DecodeString (netID cfg)) (\<lambda>rawID.
     bindE (Network_Hash yaml sha cfg) (\<lambda>expectedID.
     if expectedID \<noteq> rawID then Inl (Err ''network: the given network ID does not match the expected value'')
     else Inr \<lparr>tContacts = [], tID = netID cfg, tName = name, tNodes = nodes, tRawID = rawID,
               tNodeCount = of_nat (length (netSeedNodes cfg))\<rparr>)))"

section \<open>Lemmas\<close>

lemma Lookup_found: "Lookup j (found i addr t) = (if j = i then addr else Lookup j t)"
  by (auto simp: Lookup_def found_def contacts_get_def contacts_set_def update_conv')

text \<open>The instance name that a node announces leads to its address.\<close>

lemma mdns_found:
  assumes "0 < port"
  shows "Lookup i (mdns_entry \<lparr>seInstance = ''_'' @ FormatUint i, seAddrIPv4 = addr # rest, sePort = port\<rparr> t) = addr @ '':'' @ format_int port"
  using assms by (simp add: mdns_entry_def Lookup_found)

lemma nodes_loop_spec:
  "i \<le> n \<Longrightarrow> nodes_loop n i out = out @ map of_nat [Suc (unat i)..<Suc (unat n)]"
proof (induction n i out rule: nodes_loop.induct)
  case (1 n i out)
  show ?case
  proof (cases "i < n")
    case True
    then have u: "unat (i + 1) = Suc (unat i)" by (rule unat_incr)
    have le: "i + 1 \<le> n" using True u by (simp add: word_less_nat_alt word_le_nat_alt)
    have r: "[Suc (unat i)..<Suc (unat n)] = Suc (unat i) # [Suc (unat (i + 1))..<Suc (unat n)]"
      using True by (subst upt_conv_Cons) (simp_all add: word_less_nat_alt u)
    have "(of_nat (Suc (unat i)) :: u64) = i + 1" by simp
    with 1(1) [OF True le] True show ?thesis unfolding r by (subst nodes_loop.simps) simp
  next
    case False
    with 1(2) show ?thesis by (subst nodes_loop.simps) simp
  qed
qed

lemma Nodes_spec: "Nodes t = map of_nat [1..<Suc (unat (tNodeCount t))]"
  unfolding Nodes_def using nodes_loop_spec [of 0 "tNodeCount t" "[]"] by simp

lemma in_Nodes: "r \<in> set (Nodes t) \<longleftrightarrow> 1 \<le> r \<and> r \<le> tNodeCount t"
proof
  assume "r \<in> set (Nodes t)"
  then obtain k where k: "r = of_nat k" "1 \<le> k" "k \<le> unat (tNodeCount t)" by (auto simp: Nodes_spec)
  then have "k < 2 ^ 64" using unsigned_less [of "tNodeCount t", where 'a = nat] by simp
  with k show "1 \<le> r \<and> r \<le> tNodeCount t" by (simp add: word_le_nat_alt unat_of_nat)
next
  assume "1 \<le> r \<and> r \<le> tNodeCount t"
  then have "unat r \<in> {1..<Suc (unat (tNodeCount t))}" by (simp add: word_le_nat_alt)
  then have "of_nat (unat r) \<in> set (Nodes t)" unfolding Nodes_spec set_map set_upt by (rule imageI)
  then show "r \<in> set (Nodes t)" by simp
qed

lemma distinct_Nodes: "distinct (Nodes t)"
  unfolding Nodes_spec distinct_map
proof (intro conjI inj_onI)
  fix j k assume jk: "j \<in> set [1..<Suc (unat (tNodeCount t))]" "k \<in> set [1..<Suc (unat (tNodeCount t))]" "(of_nat j :: u64) = of_nat k"
  have "unat (tNodeCount t) < 2 ^ 64" using unsigned_less [of "tNodeCount t", where 'a = nat] by simp
  then have "j < 2 ^ 64" "k < 2 ^ 64" using jk(1,2) by auto
  moreover have "unat (of_nat j :: u64) = unat (of_nat k :: u64)" using jk(3) by simp
  ultimately show "j = k" by (simp add: unat_of_nat)
qed simp

lemma foldE_update_keys:
  assumes "\<And>x nodes nodes'. f x nodes = Inr nodes' \<Longrightarrow> \<exists>v. nodes' = AList.update (fst x) v nodes"
  shows "foldE f xs nodes = Inr nodes' \<Longrightarrow> dom (map_of nodes') = dom (map_of nodes) \<union> fst ` set xs"
proof (induction xs arbitrary: nodes)
  case (Cons x xs)
  obtain n1 where n1: "f x nodes = Inr n1" "foldE f xs n1 = Inr nodes'" using Cons.prems by (auto simp: bindE_eq_Inr)
  with assms obtain v where "n1 = AList.update (fst x) v nodes" by blast
  with Cons.IH [OF n1(2)] show ?case by (auto simp: update_conv')
qed simp

lemma seed_node_Inr: "seed_node certs name x nodes = Inr nodes' \<Longrightarrow>
    fst x \<noteq> 0 \<and> (\<exists>v. length (ncKey v) = 32 \<and> nodes' = AList.update (fst x) v nodes)"
  by (cases x) (auto simp: seed_node_def LoadPublicKey_def Ed25519_def split: if_splits option.splits sum.splits,
      rule exI, rule conjI [rotated], rule refl, simp)

lemma seed_nodes_ok: "foldE (seed_node certs name) xs nodes = Inr nodes' \<Longrightarrow>
    dom (map_of nodes') = dom (map_of nodes) \<union> fst ` set xs \<and> 0 \<notin> fst ` set xs"
proof (rule conjI)
  assume r: "foldE (seed_node certs name) xs nodes = Inr nodes'"
  show "dom (map_of nodes') = dom (map_of nodes) \<union> fst ` set xs"
    by (rule foldE_update_keys [OF _ r]) (use seed_node_Inr in blast)
  show "0 \<notin> fst ` set xs"
    using r
  proof (induction xs arbitrary: nodes)
    case (Cons x xs)
    obtain n1 where n1: "seed_node certs name x nodes = Inr n1" "foldE (seed_node certs name) xs n1 = Inr nodes'"
      using Cons.prems by (auto simp: bindE_eq_Inr)
    with Cons.IH seed_node_Inr [OF n1(1)] show ?case by auto
  qed simp
qed

lemma keys_of_nodes: "map_of (SeedPublicKeys t) = (\<lambda>i. map_option ncKey (map_of (rev (tNodes t)) i))"
proof -
  have "map_of (fold (\<lambda>(nodeID, cfg). AList.update nodeID (ncKey cfg)) ns acc) = map_of acc ++ (\<lambda>i. map_option ncKey (map_of (rev ns) i))" for ns acc
    by (induction ns arbitrary: acc) (auto simp: update_conv' map_add_def fun_eq_iff split: option.splits)
  from this [of "tNodes t" "[]"] show ?thesis by (simp add: SeedPublicKeys_def)
qed

lemma Dial_known:
  assumes "Dial dial i t = Inr c"
  shows "\<exists>cfg. map_of (tNodes t) i = Some cfg \<and> Lookup i t \<noteq> [] \<and> dial (Lookup i t) cfg = Inr c"
  using assms by (auto simp: Dial_def Let_def split: option.splits if_splits sum.splits)

end
