(* ===== verification/Node.thy ===== *)
theory Node
  imports Network Broadcast
begin

text \<open>
  The file \<open>node/node.go\<close>: a server that accepts connections, checks who opens them, and hands the
  messages to the broadcast service. Sockets, certificates and the clock are arguments. The type of the
  public keys is a parameter; \<open>Run\<close> uses the byte strings of \<open>ed25519\<close>.
\<close>

section \<open>Server\<close>

record usedNonce =
  unNonce :: bytes
  unTs :: int

record ('db, 'key, 'pool) Server =
  srvBroadcast :: "('db, 'key) Service"
  srvID :: u64
  srvKey :: ed25519KeyPair
  srvKeys :: "(u64, 'key) gmap"
  srvMaxPayload :: int
  srvNonceExpiration :: int
  srvNonceMap :: "(u64, usedNonce list) gmap"
  srvTop :: "'pool Topology"

text \<open>
  Times are nanoseconds; \<open>Time.Sub\<close> saturates at the bounds of a 64-bit duration, and a negation wraps at the
  lower one.
\<close>

definition time_Sub :: "int \<Rightarrow> int \<Rightarrow> int" where
  "time_Sub t u = max (- (2 ^ 63)) (min (2 ^ 63 - 1) (t - u))"

definition time_diff :: "int \<Rightarrow> int \<Rightarrow> int" where
  "time_diff now ts = (let diff = time_Sub now ts in
     if diff < 0 then (if diff = - (2 ^ 63) then diff else - diff) else diff)"

text \<open>A tick of \<open>pruneNonceMap\<close>.\<close>

definition pruneNonceMap_tick :: "int \<Rightarrow> ('db, 'key, 'pool) Server \<Rightarrow> ('db, 'key, 'pool) Server" where
  "pruneNonceMap_tick now s = s\<lparr>srvNonceMap :=
     fold (\<lambda>(nodeID, nonces) nmap.
       let xs = filter (\<lambda>used. time_diff now (unTs used) < srvNonceExpiration s) nonces in
       if xs \<noteq> [] then AList.update nodeID xs nmap else nmap) (srvNonceMap s) []\<rparr>"

definition verifyPeerID ::
    "(bytes \<Rightarrow> HelloInfo res) \<Rightarrow> ('key \<Rightarrow> bytes \<Rightarrow> bytes \<Rightarrow> bool) \<Rightarrow> int \<Rightarrow> Hello \<Rightarrow> ('db, 'key, 'pool) Server \<Rightarrow> u64 res" where
  "verifyPeerID unmarshal verify now hello s =
     (if hPayload hello = [] then Inr 0
      else bindE (unmarshal (hPayload hello)) (\<lambda>info.
        if hiServer info \<noteq> srvID s then Inl (Err ''node: mismatched server field in hello payload'')
        else case map_of (srvKeys s) (hiClient info) of
          None \<Rightarrow> Inl (Err ''node: could not find public signing key for node'')
        | Some key \<Rightarrow>
          if \<not> verify key (hPayload hello) (hSignature hello) then Inl (Err ''node: could not validate signature'')
          else if time_diff now (hiTimestamp info) > srvNonceExpiration s then
            Inl (Err ''node: timestamp in client hello is outside of the max clock skew range'')
          else case map_of (srvNonceMap s) (hiClient info) of
            None \<Rightarrow> Inr (hiClient info)
          | Some nonces \<Rightarrow>
            if list_ex (\<lambda>used. unNonce used = hiNonce info) nonces then Inl (Err ''node: received duplicate nonce'')
            else Inr (hiClient info)))"

section \<open>Connections\<close>

text \<open>The codec of the messages on a connection.\<close>

record node_env =
  neHello :: "bytes \<Rightarrow> Hello res"
  neInfo :: "bytes \<Rightarrow> HelloInfo res"
  neMessage :: "bytes \<Rightarrow> smessage res"
  nePut :: "smessage \<Rightarrow> bytes res"

text \<open>An error ends the connection, a panic or \<open>log.Fatal\<close> the process.\<close>

definition end_conn :: "failure \<Rightarrow> unit res" where
  "end_conn e = (case e of Err msg \<Rightarrow> Inr () | _ \<Rightarrow> Inl e)"

text \<open>An iteration of the loop of \<open>handleConnection\<close>; the flag says whether the loop goes on.\<close>

definition serve_step ::
    "node_env \<Rightarrow> ('db, 'txn, 'item, 'key) env \<Rightarrow> int \<Rightarrow> u64 \<Rightarrow> Conn \<Rightarrow> ('db, 'key) Service \<Rightarrow>
     bool res \<times> Conn \<times> ('db, 'key) Service" where
  "serve_step N E maxPayload peerID c s = (case ReadMessage (neMessage N) maxPayload c of
       (Inl e, c1) \<Rightarrow> (bindE (end_conn e) (\<lambda>_. Inr False), c1, s)
     | (Inr msg, c1) \<Rightarrow> (case svc_Handle E peerID msg s of
         (Inl e, s1) \<Rightarrow> (bindE (end_conn e) (\<lambda>_. Inr False), Close c1, s1)
       | (Inr resp, s1) \<Rightarrow> (case WritePayload (nePut N) resp maxPayload c1 of
           (Inl e, c2) \<Rightarrow> (bindE (end_conn e) (\<lambda>_. Inr False), c2, s1)
         | (Inr _, c2) \<Rightarrow> (Inr True, c2, s1))))"

lemma fill_pending: "fill i j c = (Inr u, c') \<Longrightarrow> pending c' \<le> pending c \<and> (i < j \<longrightarrow> pending c' < pending c)"
proof (induction i j c rule: fill.induct)
  case (1 i j c)
  show ?case
  proof (cases "i < j")
    case True
    then obtain b c1 where r: "conn_read (j - i) c = Inr (b, c1)"
      and f: "fill (i + length b) j (c1\<lparr>cBuf := take i (cBuf c1) @ b @ drop (i + length b) (cBuf c1)\<rparr>) = (Inr u, c')"
      using 1(2) by (subst (asm) fill.simps) (auto split: sum.splits)
    from 1(1) [OF True r refl f] conn_read_less [OF r] True show ?thesis by simp
  next
    case False
    with 1(2) show ?thesis by (subst (asm) fill.simps) simp
  qed
qed

lemma readPayload_pending: "readPayload limit c = (Inr p, c') \<Longrightarrow> pending c' < pending c"
proof -
  assume r: "readPayload limit c = (Inr p, c')"
  obtain u c1 where f: "fill 0 4 c = (u, c1)" by (rule prod.exhaust)
  obtain w where w: "u = Inr ()" "Uint32 (cBuf c1) = Inr w"
    using r f unfolding readPayload_def by (cases u; cases "Uint32 (cBuf c1)") simp_all
  define c2 where "c2 = (if length (cBuf c1) < nat (sint w) then c1\<lparr>cBuf := replicate (nat (sint w)) 0\<rparr> else c1)"
  obtain v c3 where g: "fill 0 (nat (sint w)) c2 = (v, c3)" by (rule prod.exhaust)
  have "v = Inr ()" "c' = c3"
    using r f w g unfolding readPayload_def c2_def by (cases v; simp add: Let_def split: if_splits del: if_split; fail)+
  with fill_pending [of 0 4 c "()" c1] fill_pending [of 0 "nat (sint w)" c2 "()" c3] f g w show ?thesis
    by (auto simp: c2_def split: if_splits)
qed

lemma write_loop_in: "write_loop b c = (r, c') \<Longrightarrow> cIn c' = cIn c \<and> cBuf c' = cBuf c"
proof (induction b c rule: write_loop.induct)
  case (1 b c)
  have w: "conn_write b c = Inr (n, d) \<Longrightarrow> cIn d = cIn c \<and> cBuf d = cBuf c" for n d
    by (auto simp: conn_write_def split: if_splits list.splits sum.splits)
  show ?case
  proof (cases "b = []")
    case False
    with 1(2) have e: "(case conn_write b c of Inl e \<Rightarrow> (Inl e, Close c) | Inr (n, d) \<Rightarrow> write_loop (drop n b) d) = (r, c')"
      by (subst (asm) write_loop.simps) simp
    show ?thesis
    proof (cases "conn_write b c")
      case (Inl e')
      with e show ?thesis by (auto simp: Close_def)
    next
      case (Inr nd)
      obtain n d where nd: "nd = (n, d)" by (cases nd)
      have l: "write_loop (drop n b) d = (r, c')" using e unfolding Inr nd by simp
      show ?thesis using 1(1) [OF False Inr nd [symmetric] l] w [of n d] Inr nd by simp
    qed
  next
    case True
    have "write_loop [] c = (Inr (), c)" by (subst write_loop.simps) simp
    with 1(2) show ?thesis unfolding True by simp
  qed
qed

lemma WritePayload_in:
  assumes "WritePayload marshal pb limit c = (r, c')"
  shows "cIn c' = cIn c" "4 \<le> length (cBuf c) \<Longrightarrow> length (cBuf c') = length (cBuf c)"
proof -
  have "cIn c' = cIn c \<and> (4 \<le> length (cBuf c) \<longrightarrow> length (cBuf c') = length (cBuf c))"
  proof (cases "marshal pb")
    case (Inl e)
    with assms show ?thesis by (auto simp: WritePayload_def Close_def)
  next
    case (Inr p)
    let ?h = "PutUint32 (of_nat (length p))"
    obtain u d where d: "write_loop ?h (c\<lparr>cBuf := ?h @ drop 4 (cBuf c)\<rparr>) = (u, d)" by (rule prod.exhaust)
    with write_loop_in [OF this] have "cIn d = cIn c" "cBuf d = ?h @ drop 4 (cBuf c)" by simp_all
    with assms Inr d show ?thesis
      by (cases u) (auto simp: WritePayload_def Let_def Close_def dest: write_loop_in split: if_splits)
  qed
  then show "cIn c' = cIn c" "4 \<le> length (cBuf c) \<Longrightarrow> length (cBuf c') = length (cBuf c)" by simp_all
qed

lemma serve_step_pending: "serve_step N E limit peer c s = (Inr True, c', s') \<Longrightarrow> pending c' < pending c"
proof -
  assume step: "serve_step N E limit peer c s = (Inr True, c', s')"
  obtain m c1 where m: "ReadMessage (neMessage N) limit c = (Inr m, c1)"
    using step unfolding serve_step_def
    by (cases "ReadMessage (neMessage N) limit c"; cases "fst (ReadMessage (neMessage N) limit c)") (auto simp: bindE_eq_Inr)
  obtain q where "readPayload limit c = (Inr q, c1)"
    using m by (cases "readPayload limit c"; cases "fst (readPayload limit c)") (auto simp: ReadMessage_def)
  then have "pending c1 < pending c" by (rule readPayload_pending)
  moreover obtain resp c2 where "WritePayload (nePut N) resp limit c1 = (Inr (), c2)" "c' = c2"
    using step m unfolding serve_step_def by (auto simp: bindE_eq_Inr split: prod.splits sum.splits)
  ultimately show ?thesis using WritePayload_in(1) [of "nePut N" resp limit c1] by (simp add: pending_def)
qed

text \<open>The loop, when no other goroutine uses the service between its iterations.\<close>

function serve ::
    "node_env \<Rightarrow> ('db, 'txn, 'item, 'key) env \<Rightarrow> int \<Rightarrow> u64 \<Rightarrow> Conn \<Rightarrow> ('db, 'key) Service \<Rightarrow>
     unit res \<times> Conn \<times> ('db, 'key) Service" where
  "serve N E maxPayload peerID c s = (case serve_step N E maxPayload peerID c s of
       (Inl e, c', s') \<Rightarrow> (Inl e, c', s')
     | (Inr goes_on, c', s') \<Rightarrow> if goes_on then serve N E maxPayload peerID c' s' else (Inr (), Close c', s'))"
  by pat_completeness auto
termination
  by (relation "measure (\<lambda>(N, E, maxPayload, peerID, c, s). pending c)") (auto dest: serve_step_pending [OF sym])

declare serve.simps [simp del]

text \<open>\<open>verify\<close> is the verification of a signature, \<open>now\<close> the time at which the hello is checked.\<close>

definition handleConnection ::
    "node_env \<Rightarrow> ('db, 'txn, 'item, 'key) env \<Rightarrow> int \<Rightarrow> Conn \<Rightarrow> ('db, 'key, 'pool) Server \<Rightarrow>
     unit res \<times> Conn \<times> ('db, 'key, 'pool) Server" where
  "handleConnection N E now c s = (case ReadHello (neHello N) (srvMaxPayload s) c of
       (Inl e, c1) \<Rightarrow> (end_conn e, Close c1, s)
     | (Inr hello, c1) \<Rightarrow>
       if hType hello = CONNECTION_BROADCAST then
         (case verifyPeerID (neInfo N) (eVerify E) now hello s of
           Inl e \<Rightarrow> (end_conn e, Close c1, s)
         | Inr peerID \<Rightarrow> (case serve N E (srvMaxPayload s) peerID c1 (srvBroadcast s) of
             (r, c2, b) \<Rightarrow> (r, c2, s\<lparr>srvBroadcast := b\<rparr>)))
       else (Inr (), Close c1, s))"

section \<open>Starting a node\<close>

text \<open>The loop over the nodes into a slice with room for all but one.\<close>

definition peers_step :: "u64 \<Rightarrow> u64 \<Rightarrow> nat \<times> u64 list \<Rightarrow> (nat \<times> u64 list) res" where
  "peers_step self peer = (\<lambda>(idx, peers).
     if peer \<noteq> self then
       (if idx < length peers then Inr (idx + 1, peers[idx := peer]) else Inl (Panic ''index out of range''))
     else Inr (idx, peers))"

definition run_peers :: "u64 \<Rightarrow> u64 list \<Rightarrow> u64 list res" where
  "run_peers self nodes =
     bindE (foldE (peers_step self) nodes (0, replicate (length nodes - 1) 0)) (\<lambda>(idx, peers). Inr peers)"

definition signing_key :: "ckey \<Rightarrow> ed25519KeyPair res" where
  "signing_key k =
     (if ckType k \<noteq> ''ed25519'' then Inl (Err ''node: unknown type of signing.key found in config'')
      else bindE (rewordE ''node: could not decode the base32-encoded public signing.key from config'' (DecodeString (ckPublic k))) (\<lambda>pubkey.
        bindE (rewordE ''node: could not decode the base32-encoded private signing.key from config'' (DecodeString (ckPrivate k))) (\<lambda>privkey.
        rewordE ''node: unable to load the signing.key from config'' (LoadKeyPair Ed25519 (pubkey @ privkey)))))"

record NodeConfig =
  rcSigningKey :: ckey
  rcNetwork :: Network
  rcNetworkName :: string
  rcNodeID :: u64
  rcStatic :: "(u64, string) gmap option"
  rcRateLimit :: RateLimit

text \<open>
  The outcomes of the calls to the operating system and the network: a free port, the certificate, the
  listener, and the announcements (\<open>Inr ()\<close> when they are switched off).
\<close>

record outcomes =
  oPort :: "int res"
  oCert :: "unit res"
  oListen :: "unit res"
  oAnnounceMDNS :: "unit res"
  oAnnounceRegistry :: "unit res"

definition run_prepare ::
    "(string \<Rightarrow> 'pool option) \<Rightarrow> ((u64, Peer option) gmap \<Rightarrow> bytes res) \<Rightarrow> (bytes \<Rightarrow> bytes) \<Rightarrow> outcomes \<Rightarrow> NodeConfig \<Rightarrow>
     ('pool Topology \<times> ed25519KeyPair \<times> u64 list \<times> int) res" where
  "run_prepare certs yaml sha out cfg =
     bindE (net_New certs yaml sha (rcNetworkName cfg) (rcNetwork cfg)) (\<lambda>top0.
     let tp = (case rcStatic cfg of None \<Rightarrow> top0 | Some addresses \<Rightarrow> BootstrapStatic addresses top0) in
     bindE (oPort out) (\<lambda>port.
     bindE (rewordE ''node: could not load the X.509 transport.cert from config'' (oCert out)) (\<lambda>_.
     bindE (signing_key (rcSigningKey cfg)) (\<lambda>key.
     let nodes = Nodes tp in
     if nodes = [] then Inl (Err ''node: got no peers for the node'')
     else bindE (run_peers (rcNodeID cfg) nodes) (\<lambda>peers.
       bindE (ByteSize_Int (netMaxPayload (rcNetwork cfg))) (\<lambda>maxPayload.
       Inr (tp, key, peers, maxPayload)))))))"

definition Run ::
    "(string \<Rightarrow> 'pool option) \<Rightarrow> ((u64, Peer option) gmap \<Rightarrow> bytes res) \<Rightarrow> (bytes \<Rightarrow> bytes) \<Rightarrow> outcomes \<Rightarrow>
     (bytes \<Rightarrow> bytes \<Rightarrow> bytes) \<Rightarrow> ('db, 'txn, 'item, bytes) env \<Rightarrow> (nat \<Rightarrow> nat) \<Rightarrow> 'db res \<Rightarrow> NodeConfig \<Rightarrow> ('db, bytes, 'pool) Server res option" where
  "Run certs yaml sha out ed_sign E grow opened cfg = (case run_prepare certs yaml sha out cfg of
       Inl e \<Rightarrow> Some (Inl e)
     | Inr (tp, key, peers, maxPayload) \<Rightarrow>
       (case svc_New (E\<lparr>eSign := KeyPair_Sign ed_sign key\<rparr>) grow opened
           \<lparr>cfg_Keys = SeedPublicKeys tp, cfg_MaxPayload = maxPayload, cfg_NetConsensus = netConsensus (rcNetwork cfg),
            cfg_RateLimit = rcRateLimit cfg, cfg_NodeID = rcNodeID cfg, cfg_Peers = peers\<rparr> (Topology_TotalNodes tp) of
         None \<Rightarrow> None
       | Some r \<Rightarrow> Some (bindE (rewordE ''node: unable to instantiate the broadcast service'' r) (\<lambda>broadcaster.
           bindE (rewordE ''node: unable to listen on port'' (oListen out)) (\<lambda>_.
           bindE (oAnnounceMDNS out) (\<lambda>_.
           bindE (oAnnounceRegistry out) (\<lambda>_.
           Inr \<lparr>srvBroadcast = broadcaster, srvID = rcNodeID cfg, srvKey = key, srvKeys = SeedPublicKeys tp,
                srvMaxPayload = maxPayload, srvNonceExpiration = NonceExpiration (netConsensus (rcNetwork cfg)),
                srvNonceMap = [], srvTop = tp\<rparr>)))))))"

text \<open>\<open>register\<close> stands for \<open>zeroconf.Register\<close> in the domain \<open>local\<close>.\<close>

definition announceMDNS :: "(string \<Rightarrow> string \<Rightarrow> int \<Rightarrow> unit res) \<Rightarrow> string \<Rightarrow> u64 \<Rightarrow> int \<Rightarrow> unit res" where
  "announceMDNS register networkID nodeID port = register (''_'' @ FormatUint nodeID) (mdns_service networkID) port"

text \<open>The announcement to a registry: the request and the check of the status. The error of making the
  request is overwritten.\<close>

definition announce_payload :: "string \<Rightarrow> Registry \<Rightarrow> u64 \<Rightarrow> int \<Rightarrow> string" where
  "announce_payload networkID r nodeID port =
     ''{\"auth\": {\"networkId\": \"'' @ networkID @ ''\", \"token\": \"'' @ Token r @ ''\"}, \"config\": {\"nodeId\": '' @
     FormatUint nodeID @ '', \"port\": '' @ format_int port @ ''}}''"

fun announceRegistry :: "(string \<Rightarrow> string \<Rightarrow> int res) \<Rightarrow> Registry list \<Rightarrow> string \<Rightarrow> u64 \<Rightarrow> int \<Rightarrow> unit res" where
  "announceRegistry post [] networkID nodeID port = Inr ()"
| "announceRegistry post (v # rest) networkID nodeID port =
     bindE (rewordE ''node: error calling registry'' (post (URL v @ ''contacts.set'') (announce_payload networkID v nodeID port))) (\<lambda>status.
     if status \<noteq> 204 then Inl (Err ''node: registry answered with unexpected http status'')
     else announceRegistry post rest networkID nodeID port)"

section \<open>Peers\<close>

lemma peers_loop:
  assumes "length (filter (\<lambda>n. n \<noteq> self) nodes) \<le> k"
  shows "foldE (peers_step self) nodes (length done, done @ replicate k 0) =
    Inr (length done + length (filter (\<lambda>n. n \<noteq> self) nodes), done @ filter (\<lambda>n. n \<noteq> self) nodes @
      replicate (k - length (filter (\<lambda>n. n \<noteq> self) nodes)) 0)"
  using assms
proof (induction nodes arbitrary: "done" k)
  case (Cons n nodes)
  show ?case
  proof (cases "n = self")
    case False
    with Cons.prems obtain k' where k: "k = Suc k'" by (cases k) simp_all
    from Cons.IH [of k' "done @ [n]"] Cons.prems False show ?thesis
      by (simp add: k peers_step_def list_update_append)
  qed (use Cons in \<open>simp add: peers_step_def\<close>)
qed simp

lemma peers_overflow:
  assumes "k < length (filter (\<lambda>n. n \<noteq> self) nodes)"
  shows "foldE (peers_step self) nodes (length done, done @ replicate k 0) = Inl (Panic ''index out of range'')"
  using assms
proof (induction nodes arbitrary: "done" k)
  case (Cons n nodes)
  show ?case
  proof (cases "n = self \<or> k = 0")
    case True
    with Cons show ?thesis by (cases "n = self") (simp_all add: peers_step_def)
  next
    case False
    then obtain k' where k: "k = Suc k'" by (cases k) simp_all
    from Cons.IH [of k' "done @ [n]"] Cons.prems False show ?thesis
      by (simp add: k peers_step_def list_update_append)
  qed
qed simp

lemma run_peers_spec:
  assumes "distinct nodes" "nodes \<noteq> []"
  shows "run_peers self nodes =
    (if self \<in> set nodes then Inr (filter (\<lambda>n. n \<noteq> self) nodes) else Inl (Panic ''index out of range''))"
proof (cases "self \<in> set nodes")
  case True
  have "filter (\<lambda>n. n \<noteq> self) nodes = remove1 self nodes"
    by (simp add: distinct_remove1_removeAll [OF assms(1)] removeAll_filter_not_eq eq_commute)
  then have "length (filter (\<lambda>n. n \<noteq> self) nodes) = length nodes - 1" using True by (simp add: length_remove1)
  with peers_loop [of self nodes "length nodes - 1" "[]"] True show ?thesis by (simp add: run_peers_def)
next
  case False
  then have "filter (\<lambda>n. n \<noteq> self) nodes = nodes" by (intro filter_True) auto
  with peers_overflow [of "length nodes - 1" self nodes "[]"] False assms(2) show ?thesis by (simp add: run_peers_def)
qed

end
