(* ===== verification/NodeProps.thy ===== *)
theory NodeProps
  imports Node Instances
begin

text \<open>
  The properties of a node: who it takes the other side of a connection for, what a session over a
  connection does, and with which peers and keys a node starts.
\<close>

section \<open>Reading leaves the other direction alone\<close>

definition same_out :: "Conn \<Rightarrow> Conn \<Rightarrow> bool" where
  "same_out c c' \<longleftrightarrow> cOut c' = cOut c \<and> cRoom c' = cRoom c"

lemma same_out_refl [simp]: "same_out c c"
  by (simp add: same_out_def)

lemma same_out_trans: "same_out a b \<Longrightarrow> same_out b c \<Longrightarrow> same_out a c"
  by (simp add: same_out_def)

lemma conn_read_out: "conn_read m c = Inr (b, c') \<Longrightarrow> same_out c c'"
  by (auto simp: conn_read_def same_out_def split: if_splits list.splits sum.splits)

lemma fill_out: "fill i j c = (r, c') \<Longrightarrow> same_out c c'"
proof (induction i j c rule: fill.induct)
  case (1 i j c)
  show ?case
  proof (cases "i < j")
    case False
    have "fill i j c = (Inr (), c)" using False by (subst fill.simps) simp
    with 1(2) show ?thesis by simp
  next
    case True
    show ?thesis
    proof (cases "conn_read (j - i) c")
      case (Inl e)
      have "fill i j c = (Inl e, Close c)" using True Inl by (subst fill.simps) simp
      then have "c' = Close c" using 1(2) by simp
      then show ?thesis by (simp add: same_out_def Close_def)
    next
      case (Inr p)
      obtain b d where p: "p = (b, d)" by (cases p)
      let ?d = "d\<lparr>cBuf := take i (cBuf d) @ b @ drop (i + length b) (cBuf d)\<rparr>"
      have "fill i j c = fill (i + length b) j ?d" using True Inr p by (subst fill.simps) simp
      then have f: "fill (i + length b) j ?d = (r, c')" using 1(2) by simp
      have "same_out ?d c'" by (rule 1(1) [OF True Inr p [symmetric] f])
      moreover have "same_out c ?d" using conn_read_out [of "j - i" c b d] Inr p by (simp add: same_out_def)
      ultimately show ?thesis by (rule same_out_trans [rotated])
    qed
  qed
qed

lemma readPayload_out: "readPayload limit c = (r, c') \<Longrightarrow> same_out c c'"
proof -
  assume a: "readPayload limit c = (r, c')"
  obtain u c1 where f: "fill 0 4 c = (u, c1)" by (rule prod.exhaust)
  note o1 = fill_out [OF f]
  have cl: "same_out c1 (Close c1)" by (simp add: same_out_def Close_def)
  show ?thesis
  proof (cases u)
    case (Inl e)
    with a f o1 show ?thesis by (simp add: readPayload_def)
  next
    case (Inr v)
    show ?thesis
    proof (cases "Uint32 (cBuf c1)")
      case (Inl e)
      with a f Inr o1 show ?thesis by (simp add: readPayload_def)
    next
      case w: (Inr w)
      define c2 where "c2 = (if length (cBuf c1) < nat (sint w) then c1\<lparr>cBuf := replicate (nat (sint w)) 0\<rparr> else c1)"
      obtain x c3 where g: "fill 0 (nat (sint w)) c2 = (x, c3)" by (rule prod.exhaust)
      have "same_out c1 c2" by (simp add: c2_def same_out_def)
      then have "same_out c c3" using o1 fill_out [OF g] by (blast intro: same_out_trans)
      moreover have "c' \<in> {Close c1, c3}"
        using a f Inr w g unfolding readPayload_def c2_def by (cases x) (auto simp: Let_def split: if_splits simp del: if_split)
      ultimately show ?thesis using o1 cl by (auto intro: same_out_trans)
    qed
  qed
qed

lemma fill_end: "delivers [] c \<Longrightarrow> i < j \<Longrightarrow> \<exists>c'. fill i j c = (Inl EOF, c')"
proof (induction "length (cIn c)" arbitrary: c)
  case 0
  then show ?case by (subst fill.simps) (simp add: conn_read_def delivers_def)
next
  case (Suc n)
  obtain cs where cs: "cIn c = map Inr cs" "concat cs = []" "\<not> cClosed c" using Suc.prems(1) by (auto simp: delivers_def)
  with Suc.hyps(2) obtain rest where r: "cIn c = Inr [] # map Inr rest" "concat rest = []" by (cases cs) auto
  let ?d = "c\<lparr>cIn := map Inr rest\<rparr>"
  have "fill i j c = fill i j (?d\<lparr>cBuf := cBuf c\<rparr>)"
    using r(1) cs(3) Suc.prems(2) by (subst fill.simps) (simp add: conn_read_def)
  moreover have "\<exists>c'. fill i j (?d\<lparr>cBuf := cBuf c\<rparr>) = (Inl EOF, c')"
    using r cs(3) Suc.hyps(2) Suc.prems(2) by (intro Suc.hyps(1)) (auto simp: delivers_def)
  ultimately show ?case by simp
qed

section \<open>A session\<close>

text \<open>The service handling messages one after the other; \<open>None\<close> when one of them is answered with an error.\<close>

fun handle_all ::
    "('db, 'txn, 'item, 'key) env \<Rightarrow> u64 \<Rightarrow> smessage list \<Rightarrow> ('db, 'key) Service \<Rightarrow> (smessage list \<times> ('db, 'key) Service) option" where
  "handle_all E peer [] s = Some ([], s)"
| "handle_all E peer (m # ms) s = (case svc_Handle E peer m s of
     (Inl e, s') \<Rightarrow> None
   | (Inr r, s') \<Rightarrow> map_option (\<lambda>(rs, s''). (r # rs, s'')) (handle_all E peer ms s'))"

lemma serve_session:
  assumes "list_all (fits (nePut N) (neMessage N) limit) ms" "handle_all E peer ms s = Some (rs, s')"
    "list_all (\<lambda>r. \<exists>p. nePut N r = Inr p \<and> int (length p) \<le> limit) rs"
    "delivers (frames (nePut N) ms) c" "1024 \<le> length (cBuf c)" "writable c"
  shows "\<exists>c'. serve N E limit peer c s = (Inr (), c', s') \<and> cOut c' = cOut c @ frames (nePut N) rs \<and> cClosed c'"
  using assms
proof (induction ms arbitrary: c s rs)
  case Nil
  then have "delivers [] c" "rs = []" "s' = s" by (simp_all add: frames_def)
  obtain c1 where c1: "fill 0 4 c = (Inl EOF, c1)" using fill_end [OF \<open>delivers [] c\<close>, of 0 4] by auto
  then have "serve_step N E limit peer c s = (Inr False, c1, s)"
    by (simp add: serve_step_def ReadMessage_def readPayload_def end_conn_def)
  then have "serve N E limit peer c s = (Inr (), Close c1, s)" by (subst serve.simps) simp
  with fill_out [OF c1] \<open>rs = []\<close> \<open>s' = s\<close> show ?case by (simp add: frames_def same_out_def Close_def)
next
  case (Cons m ms)
  obtain p where p: "nePut N m = Inr p" "neMessage N p = Inr m" "int (length p) \<le> limit" "length p < 2 ^ 31"
    using Cons.prems(1) by (auto simp: fits_def)
  have dl: "delivers (frame p @ frames (nePut N) ms) c" using Cons.prems(4) p(1) by (simp add: frames_def)
  obtain c1 where c1: "readPayload limit c = (Inr p, c1)" "delivers (frames (nePut N) ms) c1" "1024 \<le> length (cBuf c1)"
    using readPayload_frame [OF dl Cons.prems(5) p(4,3)] by blast
  obtain r s1 rest where h: "svc_Handle E peer m s = (Inr r, s1)" "handle_all E peer ms s1 = Some (rest, s')" "rs = r # rest"
    using Cons.prems(2) by (auto split: prod.splits sum.splits)
  obtain q where q: "nePut N r = Inr q" "int (length q) \<le> limit" using Cons.prems(3) h(3) by auto
  have "writable c1" using readPayload_out [OF c1(1)] c1(2) Cons.prems(6) by (simp add: writable_def same_out_def delivers_def)
  then obtain c2 where c2: "WritePayload (nePut N) r limit c1 = (Inr (), c2)" "cOut c2 = cOut c1 @ frame q" "writable c2"
    using WritePayload_frame [where marshal = "nePut N" and pb = r and p = q and c = c1] q by blast
  have "serve_step N E limit peer c s = (Inr True, c2, s1)"
    by (simp add: serve_step_def ReadMessage_def c1(1) p(2) h(1) c2(1))
  then have step: "serve N E limit peer c s = serve N E limit peer c2 s1" by (subst serve.simps) simp
  have "delivers (frames (nePut N) ms) c2" "1024 \<le> length (cBuf c2)"
    using WritePayload_in [OF c2(1)] c1(2,3) c2(3) by (simp_all add: delivers_def writable_def)
  then obtain c' where "serve N E limit peer c2 s1 = (Inr (), c', s')" "cOut c' = cOut c2 @ frames (nePut N) rest" "cClosed c'"
    using Cons.IH [OF _ h(2), of c2] Cons.prems(1,3) h(3) c2(3) by auto
  with step readPayload_out [OF c1(1)] c2(2) h(3) q(1) show ?case by (simp add: frames_def same_out_def)
qed

section \<open>A node in memory\<close>

definition mem_node :: node_env where
  "mem_node = \<lparr>neHello = (\<lambda>h. Inr \<lparr>hAgent = [], hPayload = h, hSignature = 2 # h, hType = CONNECTION_BROADCAST\<rparr>),
     neInfo = (\<lambda>p. Inr \<lparr>hiClient = 2, hiNonce = p, hiServer = 1, hiTimestamp = 100\<rparr>),
     neMessage = mem_unmarshal, nePut = mem_marshal\<rparr>"

definition mem_server :: "((bytes, bytes) gmap, u8) Service \<Rightarrow> ((bytes, bytes) gmap, u8, unit) Server" where
  "mem_server b = \<lparr>srvBroadcast = b, srvID = 1, srvKey = \<lparr>kp_pub = [], kp_priv = []\<rparr>, srvKeys = cfg_Keys (mem_cfg 1),
     srvMaxPayload = 1000, srvNonceExpiration = 30, srvNonceMap = [],
     srvTop = \<lparr>tContacts = [], tID = [], tName = [], tNodes = [], tRawID = [], tNodeCount = 4\<rparr>\<rparr>"

definition mem_request :: smessage where
  "mem_request = \<lparr>smID = 0, smError = [], smOpcode = OP_BROADCAST, smPayload = enc_list \<lparr>lbBlocks = []\<rparr>\<rparr>"

definition mem_reply :: smessage where
  "mem_reply = \<lparr>smID = 0, smError = [], smOpcode = OP_ACK_BROADCAST, smPayload = le_put 8 (0 :: u64)\<rparr>"

lemma mem_handles: "svc_Handle (mem_env 1) 2 mem_request b = (Inr mem_reply, b)"
  using dec_enc_list [of "[]"]
  by (simp add: svc_Handle_def handleBroadcastList_def mem_request_def mem_reply_def mem_env_def wire_proto_def)

section \<open>Properties\<close>



lemma time_diff_late:
  assumes "0 \<le> e" "e < 2 ^ 63 - 1"
  shows "time_diff now ts > e \<longleftrightarrow> \<not> (\<bar>now - ts\<bar> \<le> e \<or> ts - now \<ge> 2 ^ 63)"
proof -
  consider "ts - now \<ge> 2 ^ 63" | "now - ts \<ge> 2 ^ 63 - 1" | "- (2 ^ 63) < now - ts" "now - ts < 2 ^ 63 - 1" by linarith
  then show ?thesis
  proof cases
    case 1
    then have "time_Sub now ts = - (2 ^ 63)" by (simp add: time_Sub_def)
    with 1 assms show ?thesis by (simp add: time_diff_def)
  next
    case 2
    then have "time_Sub now ts = 2 ^ 63 - 1" by (simp add: time_Sub_def)
    with 2 assms show ?thesis by (simp add: time_diff_def)
  next
    case 3
    then have "time_Sub now ts = now - ts" by (simp add: time_Sub_def)
    with 3 assms show ?thesis by (auto simp: time_diff_def abs_if)
  qed
qed

text \<open>C39. Who a node takes the other side for: \<open>verifyPeerID\<close> gives a node's id only for a hello that is addressed
  to this node, signed with that node's key over the whole payload, with a nonce that is not recorded
  and a time within the expiration. There are two gaps: a hello without a payload passes as node 0, and
  a time of 2^63 nanoseconds or more in the future passes because the difference overflows.\<close>

theorem hello_verified:
  assumes "0 \<le> srvNonceExpiration s" and "srvNonceExpiration s < 2 ^ 63 - 1"
  shows "verifyPeerID unmarshal verify now hello s = Inr i \<longleftrightarrow>
    (if hPayload hello = [] then i = 0
     else \<exists>info key. unmarshal (hPayload hello) = Inr info \<and> hiClient info = i \<and> hiServer info = srvID s \<and>
       map_of (srvKeys s) i = Some key \<and> verify key (hPayload hello) (hSignature hello) \<and>
       (\<bar>now - hiTimestamp info\<bar> \<le> srvNonceExpiration s \<or> hiTimestamp info - now \<ge> 2 ^ 63) \<and>
       (case map_of (srvNonceMap s) i of None \<Rightarrow> True | Some nonces \<Rightarrow> hiNonce info \<notin> unNonce ` set nonces))"
proof -
  note t = time_diff_late [OF assms]
  have n: "list_ex (\<lambda>used. unNonce used = x) nonces \<longleftrightarrow> x \<in> unNonce ` set nonces" for x nonces
    by (auto simp: list_ex_iff)
  show ?thesis
  proof (cases "hPayload hello = []")
    case True
    then show ?thesis by (auto simp: verifyPeerID_def)
  next
    case False
    show ?thesis
    proof (cases "unmarshal (hPayload hello)")
      case (Inr info)
      show ?thesis
      proof (cases "map_of (srvKeys s) (hiClient info)")
        case None
        with False Inr show ?thesis by (auto simp: verifyPeerID_def)
      next
        case (Some key)
        with False Inr show ?thesis
          by (cases "map_of (srvNonceMap s) (hiClient info)") (auto simp: verifyPeerID_def t n simp del: not_le)
      qed
    qed (use False in \<open>simp add: verifyPeerID_def\<close>)
  qed
qed

theorem hello_verified_witness:
  "\<exists>b. srvNonceExpiration (mem_server b) = 30 \<and>
     verifyPeerID (neInfo mem_node) (eVerify (mem_env 1)) 110
       \<lparr>hAgent = [], hPayload = [5], hSignature = [2, 5], hType = CONNECTION_BROADCAST\<rparr> (mem_server b) = Inr 2 \<and>
     verifyPeerID (neInfo mem_node) (eVerify (mem_env 1)) (- (2 ^ 63))
       \<lparr>hAgent = [], hPayload = [5], hSignature = [2, 5], hType = CONNECTION_BROADCAST\<rparr> (mem_server b) = Inr 2"
proof -
  have e: "0 \<le> srvNonceExpiration (mem_server b)" "srvNonceExpiration (mem_server b) < 2 ^ 63 - 1" for b
    by (simp_all add: mem_server_def)
  show ?thesis
    unfolding hello_verified [OF e] by (rule exI) (simp add: mem_node_def mem_server_def mem_env_def mem_cfg_def)
qed

text \<open>A hello that a peer signs for this node passes, also when it was used before: nothing ever records a
  nonce.\<close>

lemma signed_hello_passes:
  assumes "SignHello marshal sign random ts client (srvID s) ty = Inr hello"
    and "\<forall>i. \<exists>p. marshal i = Inr p \<and> p \<noteq> [] \<and> unmarshal p = Inr i" and "map_of (srvKeys s) client = Some key"
    and "\<forall>m. verify key m (sign m)" and "srvNonceMap s = []"
    and "\<bar>now - ts\<bar> \<le> srvNonceExpiration s" and "srvNonceExpiration s < 2 ^ 63 - 1"
  shows "verifyPeerID unmarshal verify now hello s = Inr client"
proof -
  obtain nonce p where h: "random = Inr nonce" "marshal \<lparr>hiClient = client, hiNonce = nonce, hiServer = srvID s, hiTimestamp = ts\<rparr> = Inr p"
    "hello = \<lparr>hAgent = ''go/0.0.1'', hPayload = p, hSignature = sign p, hType = ty\<rparr>"
    using assms(1) by (auto simp: SignHello_def bindE_eq_Inr)
  have "p \<noteq> []" "unmarshal p = Inr \<lparr>hiClient = client, hiNonce = nonce, hiServer = srvID s, hiTimestamp = ts\<rparr>"
    using assms(2) h(2) by (metis Inr_inject)+
  moreover have "time_diff now ts \<le> srvNonceExpiration s"
    using time_diff_late [of "srvNonceExpiration s" now ts] assms(6,7) by linarith
  ultimately show ?thesis using assms(3-5) by (simp add: verifyPeerID_def h(3))
qed

lemma nonces_never_recorded:
  "srvNonceMap s = [] \<Longrightarrow> srvNonceMap (pruneNonceMap_tick now s) = []"
  "srvNonceMap s = [] \<Longrightarrow> handleConnection N E now c s = (r, c', s') \<Longrightarrow> srvNonceMap s' = []"
  by (auto simp: pruneNonceMap_tick_def handleConnection_def split: prod.splits sum.splits if_splits)

section \<open>Starting\<close>

lemma net_New_Inr:
  assumes "net_New certs yaml sha name cfg = Inr t"
  shows "tNodeCount t = of_nat (length (netSeedNodes cfg))" "dom (map_of (tNodes t)) = fst ` set (netSeedNodes cfg)"
    "0 \<notin> fst ` set (netSeedNodes cfg)" "tContacts t = []"
proof -
  obtain nodes where n: "foldE (seed_node certs name) (netSeedNodes cfg) [] = Inr nodes"
    "tNodes t = nodes" "tNodeCount t = of_nat (length (netSeedNodes cfg))" "tContacts t = []"
    using assms by (auto simp: net_New_def bindE_eq_Inr split: if_splits)
  show "tNodeCount t = of_nat (length (netSeedNodes cfg))" "dom (map_of (tNodes t)) = fst ` set (netSeedNodes cfg)"
    "0 \<notin> fst ` set (netSeedNodes cfg)" "tContacts t = []"
    using seed_nodes_ok [OF n(1)] n(2-4) by simp_all
qed

lemma static_frame [simp]:
  "tNodeCount (BootstrapStatic a t) = tNodeCount t" "tNodes (BootstrapStatic a t) = tNodes t"
  "Nodes (BootstrapStatic a t) = Nodes t" "SeedPublicKeys (BootstrapStatic a t) = SeedPublicKeys t"
  by (simp_all add: BootstrapStatic_def Nodes_def SeedPublicKeys_def)

lemma Nodes_empty: "Nodes t = [] \<longleftrightarrow> tNodeCount t = 0"
proof -
  have "Nodes t = [] \<longleftrightarrow> unat (tNodeCount t) = 0" by (auto simp: Nodes_spec)
  then show ?thesis by (simp add: unat_eq_0)
qed

lemma dom_keys: "dom (map_of (SeedPublicKeys t)) = dom (map_of (tNodes t))"
proof -
  have "dom (map_of (SeedPublicKeys t)) = dom (map_of (rev (tNodes t)))" by (auto simp: keys_of_nodes dom_def)
  then show ?thesis by (simp add: dom_map_of_conv_image_fst)
qed

text \<open>What \<open>Run\<close> has when it starts the service.\<close>

lemma run_prepare_Inr:
  assumes "run_prepare certs yaml sha out cfg = Inr (tp, key, peers, maxPayload)"
  shows "1 \<le> rcNodeID cfg" "rcNodeID cfg \<le> of_nat (length (netSeedNodes (rcNetwork cfg)))"
    "dom (map_of (SeedPublicKeys tp)) = fst ` set (netSeedNodes (rcNetwork cfg))" "0 \<notin> fst ` set (netSeedNodes (rcNetwork cfg))"
    "peers = filter (\<lambda>n. n \<noteq> rcNodeID cfg) (Nodes tp)"
proof -
  obtain t where t: "net_New certs yaml sha (rcNetworkName cfg) (rcNetwork cfg) = Inr t"
    "tp = (case rcStatic cfg of None \<Rightarrow> t | Some a \<Rightarrow> BootstrapStatic a t)"
    and n: "Nodes tp \<noteq> []" and p: "run_peers (rcNodeID cfg) (Nodes tp) = Inr peers"
    using assms by (auto simp: run_prepare_def Let_def bindE_eq_Inr split: if_splits)
  have f: "Nodes tp = Nodes t" "tNodeCount tp = tNodeCount t" "tNodes tp = tNodes t" by (simp_all add: t(2) split: option.splits)
  have "rcNodeID cfg \<in> set (Nodes tp)" and e: "peers = filter (\<lambda>n. n \<noteq> rcNodeID cfg) (Nodes tp)"
    using p unfolding run_peers_spec [OF distinct_Nodes n] by (simp_all split: if_splits)
  then show "1 \<le> rcNodeID cfg" "rcNodeID cfg \<le> of_nat (length (netSeedNodes (rcNetwork cfg)))"
    using net_New_Inr(1) [OF t(1)] f(2) by (simp_all add: in_Nodes)
  show "dom (map_of (SeedPublicKeys tp)) = fst ` set (netSeedNodes (rcNetwork cfg))" "0 \<notin> fst ` set (netSeedNodes (rcNetwork cfg))"
    using net_New_Inr(2,3) [OF t(1)] by (simp_all add: dom_keys f(3))
  show "peers = filter (\<lambda>n. n \<noteq> rcNodeID cfg) (Nodes tp)" by (rule e)
qed

lemma run_prepare_range:
  assumes "net_New certs yaml sha (rcNetworkName cfg) (rcNetwork cfg) = Inr t"
    and "oPort out = Inr port" and "oCert out = Inr ()" and "signing_key (rcSigningKey cfg) = Inr key"
    and "(of_nat (length (netSeedNodes (rcNetwork cfg))) :: u64) \<noteq> 0"
    and "\<not> (1 \<le> rcNodeID cfg \<and> rcNodeID cfg \<le> of_nat (length (netSeedNodes (rcNetwork cfg))))"
  shows "run_prepare certs yaml sha out cfg = Inl (Panic ''index out of range'')"
proof -
  note c = net_New_Inr(1) [OF assms(1)]
  have n: "Nodes t \<noteq> []" using assms(5) c by (simp add: Nodes_empty)
  have "rcNodeID cfg \<notin> set (Nodes t)" using assms(6) c by (simp add: in_Nodes)
  then have "run_peers (rcNodeID cfg) (Nodes t) = Inl (Panic ''index out of range'')"
    by (simp add: run_peers_spec [OF distinct_Nodes n])
  with n assms(1-4) show ?thesis by (cases "rcStatic cfg") (simp_all add: run_prepare_def Let_def)
qed

lemma Run_Inr:
  assumes "Run certs yaml sha out ed_sign E grow opened cfg = Some (Inr srv)"
  obtains tp key peers maxPayload d b where "run_prepare certs yaml sha out cfg = Inr (tp, key, peers, maxPayload)" "opened = Inr d"
    "svc_New (E\<lparr>eSign := KeyPair_Sign ed_sign key\<rparr>) grow (Inr d)
       \<lparr>cfg_Keys = SeedPublicKeys tp, cfg_MaxPayload = maxPayload, cfg_NetConsensus = netConsensus (rcNetwork cfg),
        cfg_RateLimit = rcRateLimit cfg, cfg_NodeID = rcNodeID cfg, cfg_Peers = peers\<rparr> (Topology_TotalNodes tp) = Some (Inr b)"
    "srvBroadcast srv = b" "srvID srv = rcNodeID cfg" "srvKeys srv = SeedPublicKeys tp" "srvNonceMap srv = []"
proof -
  obtain tp key peers maxPayload where r: "run_prepare certs yaml sha out cfg = Inr (tp, key, peers, maxPayload)"
    using assms by (cases "run_prepare certs yaml sha out cfg") (auto simp: Run_def)
  let ?new = "svc_New (E\<lparr>eSign := KeyPair_Sign ed_sign key\<rparr>) grow opened
       \<lparr>cfg_Keys = SeedPublicKeys tp, cfg_MaxPayload = maxPayload, cfg_NetConsensus = netConsensus (rcNetwork cfg),
        cfg_RateLimit = rcRateLimit cfg, cfg_NodeID = rcNodeID cfg, cfg_Peers = peers\<rparr> (Topology_TotalNodes tp)"
  obtain x where x: "?new = Some x" using assms r by (cases ?new) (simp_all add: Run_def)
  obtain b where b: "x = Inr b" "srvBroadcast srv = b" "srvID srv = rcNodeID cfg" "srvKeys srv = SeedPublicKeys tp" "srvNonceMap srv = []"
    using assms unfolding Run_def r sum.case prod.case x option.case option.inject
    by (elim bindE_InrE) (simp only: rewordE_Inr sum.inject, rule that, assumption, (drule sym, simp)+)
  obtain d where d: "opened = Inr d" using x b(1) by (cases opened) (simp_all add: svc_New_def)
  show thesis using that [OF r d _ b(2-5)] x b(1) d by simp
qed


definition odd_seeds :: "(u64, Peer option) gmap" where
  "odd_seeds = map (\<lambda>i. (i, Some \<lparr>pSigningKey = Some \<lparr>pkType = ''ed25519'', pkValue = EncodeToString (replicate 32 0)\<rparr>,
     pTransportCert = Some \<lparr>pkType = ''ecdsa'', pkValue = []\<rparr>\<rparr>)) [1, 2, 7]"

definition odd_config :: NodeConfig where
  "odd_config = \<lparr>rcSigningKey = \<lparr>ckType = ''ed25519'', ckPublic = EncodeToString (replicate 32 0), ckPrivate = EncodeToString (replicate 64 0)\<rparr>,
     rcNetwork = \<lparr>netID = EncodeToString [1], netConsensus = cfg_NetConsensus (mem_cfg 1), netMaxPayload = 1000, netSeedNodes = odd_seeds\<rparr>,
     rcNetworkName = ''net'', rcNodeID = 7, rcStatic = None, rcRateLimit = cfg_RateLimit (mem_cfg 1)\<rparr>"

definition mem_outcomes :: outcomes where
  "mem_outcomes = \<lparr>oPort = Inr 8000, oCert = Inr (), oListen = Inr (), oAnnounceMDNS = Inr (), oAnnounceRegistry = Inr ()\<rparr>"

definition byte_env :: "((bytes, bytes) gmap, (bytes, bytes) gmap, bytes \<times> bytes, bytes) env" where
  "byte_env = \<lparr>eB = memdb, eP = wire_proto, eSha = id, eSign = id, eVerify = (\<lambda>k m sg. sg = k @ m)\<rparr>"


end
