(* ===== verification/Spec2Isabelle.thy ===== *)
theory Spec2Isabelle
  imports Lexinum Failures Delivery Protocol Transact Sending NodeProps
begin

text \<open>
  A verification library for Blockmania, a Byzantine consensus service written in Go. Paths are relative
  to \<open>src/\<close>.

  \<^bold>\<open>The program.\<close> A node (\<open>node/\<close>) accepts connections and hands the messages on them to the broadcast service
  (\<open>broadcast/\<close>). The service collects transactions, makes a signed block per round that refers to the blocks
  received from others, sends its blocks to every peer and fetches what it misses. Blocks that arrive
  wait in a dependency graph until everything they refer to is there; all blocks are kept in a
  key-value store. The own blocks with the links to others are fed to the interpreter (\<open>blockmania/\<close>), which
  plays a PBFT-like protocol over the graph without sending a message of its own and delivers rounds of
  blocks in order. The rest finds peers, frames messages and reads the configuration.

  \<^bold>\<open>Conventions.\<close> Go's fixed-width integers are words and wrap; \<open>int\<close> sizes that the program bounds are \<open>int\<close> or
  \<open>nat\<close>. A Go map is an association list, its order the iteration order. A call that can fail returns
  \<open>failure + 'a\<close>, where \<open>Panic\<close> and \<open>Fatal\<close> end the process and \<open>Err\<close> is an error value; the texts of errors leave out
  the values printed into them. A goroutine is a set of operations on the state, one per iteration of its
  loop, and \<open>inductive\<close> relations interleave them. A loop that could run forever is a \<open>partial_function\<close> into
  \<open>option\<close>, and that it returns is proved where a property needs it; every other loop is total. No bounds on
  iterations (fuel) are used. Third-party code is an argument: badger (\<open>badger_ok\<close>), the protobuf codec
  (\<open>signed_codec\<close>, \<open>wire_codec\<close>, \<open>msg_codec\<close>), SHA-512/256 and ed25519 (\<open>signs\<close>, \<open>agrees\<close>), YAML, TLS, multicast DNS
  and HTTP. The predicates in parentheses state its documented behaviour; \<open>StoreProps\<close> and \<open>Instances\<close> have
  instances in memory that satisfy all of them together.

  \<^bold>\<open>Theories.\<close>
  \<^item> \<open>Prelude\<close>: failures, \<open>foldE\<close> with the locale \<open>loop_invariant\<close>, byte codecs, shared lemmas. \<open>Strconv\<close>: numbers as text.
  \<^item> \<open>Lexinum\<close> (\<open>internal/lexinum\<close>): the integer encoding in the keys of the store; locale \<open>order_codec\<close>. It inverts
    and preserves the order, for all 64-bit integers.
  \<^item> \<open>Bitset\<close>, \<open>Messages\<close>, \<open>State\<close>, \<open>Graph\<close> (\<open>blockmania/\<close>): votes with the locale \<open>vote_set\<close>, messages and keys, the state
    of a block with the maps and arrays that clones share in explicit heaps, and the interpreter from
    \<open>Add\<close> to the callback.
  \<^item> \<open>Actions\<close>, \<open>GraphInv\<close>: the interpreter as a system of atomic actions, and the locales \<open>state_invariant\<close>,
    \<open>entry_invariant\<close> and \<open>graph_invariant\<close> that carry an invariant from the actions to whole runs. \<open>Consensus\<close>:
    finality rests on quorums that meet. \<open>Protocol\<close>: a correct node prepares one hash per view, knowledge
    only grows, responses are bounded. \<open>Delivery\<close>: rounds come in order and once. \<open>Failures\<close>: how a run can stop.
    \<open>Samples\<close>: concrete runs.
  \<^item> \<open>Wire\<close>, \<open>ServiceMsg\<close> (\<open>broadcast/types*\<close>, \<open>broadcast/ext.go\<close>, \<open>service/\<close>): structs, the iterator over transactions,
    the signed hello.
  \<^item> \<open>Keys\<close>, \<open>Store\<close> (\<open>broadcast/store.go\<close>): byte layouts with the locale \<open>item_codec\<close>, and every operation. \<open>StoreInv\<close>:
    each write refines an update of a map (\<open>updated\<close>), and what reads return after any list of writes.
    \<open>StoreProps\<close>: the properties.
  \<^item> \<open>Depgraph\<close>, \<open>DepgraphInv\<close> (\<open>broadcast/depgraph.go\<close>): blocks are queued once and after what they need, and none
    waits longer than it must.
  \<^item> \<open>Cache\<close>, \<open>Configs\<close> (\<open>broadcast/cache.go\<close>, \<open>config/\<close>): caches, byte sizes, configuration structs.
  \<^item> \<open>Broadcast\<close> (\<open>broadcast/broadcast.go\<close>, \<open>broadcast/replay.go\<close>): the record \<open>Service\<close> and every method. \<open>BroadcastInv\<close>:
    \<open>svc_reach\<close>, the states that a service reaches by any interleaving of its steps, with crashes and
    restarts on the same database. \<open>ServiceInv\<close>: their invariant. \<open>Instances\<close>: a service in memory.
    \<open>ServiceProps\<close>: progress, acceptance of own blocks by others, transparency of the cache. \<open>Transact\<close>: from
    \<open>AddTransaction\<close> into the next block. \<open>Sending\<close>: an exchange between two nodes.
  \<^item> \<open>Signing\<close> (\<open>internal/crypto/signature\<close>), \<open>Conn\<close> and \<open>Network\<close> (\<open>network/\<close>), \<open>Node\<close> (\<open>node/\<close>): keys and base32, framing over
    a connection that delivers pieces of any size, topology and addresses, and the server. \<open>NodeProps\<close>: a
    session refines a sequence of calls to \<open>Handle\<close>, who a hello is taken for, with what a node starts.

  \<^bold>\<open>Not modelled.\<close> Cancellation by a context, sleeping and tickers: an operation may happen at any time, and
  nothing depends on how long it waits. Mutexes: an operation is atomic. Logging, apart from \<open>log.Fatal\<close> and
  from arguments whose evaluation can panic. Generated code: accessors and codecs of the protobuf
  messages, mocks, API documentation, root certificates. The loops that accept connections and that ask
  multicast DNS or a registry again; \<open>pubsub\<close>, \<open>rest\<close>, \<open>txlistener\<close> and \<open>cmd\<close>, which connect the service to the
  outside through third-party frameworks; the file system, sockets and certificates (\<open>config/generate\<close>,
  \<open>node/load_configuration.go\<close>, \<open>internal/fsutil\<close>, \<open>internal/freeport\<close>, \<open>internal/exitutil\<close>, \<open>internal/crypto/transport\<close>).
  Floating point: the factor \<open>RateDecrease\<close> is the function on rates that it is used for.
\<close>

end
